(* ===== verification/Prelude.thy ===== *)
theory Prelude
  imports Main "HOL-Library.Word"
begin

text \<open>
  Shared vocabulary of the development: bytes and machine integers, results of Go functions
  (a value, an error, or a run-time panic), big-endian conversions as \<open>math/big\<close> performs
  them, and the generic list lemmas the component proofs use.
\<close>

section \<open>Types\<close>

type_synonym byte = "8 word"
type_synonym bytes = "byte list"
type_synonym uint64 = "64 word"

text \<open>
  A Go function that can fail returns a value and an error; it can also panic (an index out of
  range, a nil dereference, an explicit \<open>panic\<close>). All three outcomes are values here.
\<close>

datatype go_panic =
    IndexOutOfRange
  | SliceBounds
  | NilDereference
  | TypeAssertion
  | DivideByZero
  | ExplicitPanic string

datatype ('e, 'a) result = Ok 'a | Err 'e | Panic go_panic

fun bind_result :: "('e, 'a) result \<Rightarrow> ('a \<Rightarrow> ('e, 'b) result) \<Rightarrow> ('e, 'b) result" where
  "bind_result (Ok a) f = f a"
| "bind_result (Err e) f = Err e"
| "bind_result (Panic p) f = Panic p"

fun map_err :: "('e \<Rightarrow> 'f) \<Rightarrow> ('e, 'a) result \<Rightarrow> ('f, 'a) result" where
  "map_err g (Ok a) = Ok a"
| "map_err g (Err e) = Err (g e)"
| "map_err g (Panic p) = Panic p"

named_theorems go_simps

section \<open>Indexing and slicing with Go's bounds checks\<close>

definition index :: "'a list \<Rightarrow> nat \<Rightarrow> ('e, 'a) result" where
  "index xs i = (if i < length xs then Ok (xs ! i) else Panic IndexOutOfRange)"

definition slice :: "'a list \<Rightarrow> nat \<Rightarrow> nat \<Rightarrow> ('e, 'a list) result" where
  "slice xs lo hi = (if lo \<le> hi \<and> hi \<le> length xs then Ok (take (hi - lo) (drop lo xs)) else Panic SliceBounds)"

text \<open>
  \<open>copy(dst[pos:], src)\<close> overwrites as many bytes as fit and returns their number;
  \<open>poke\<close> is a run of indexed assignments, which panics when it leaves the slice.
\<close>

definition copy_at :: "'a list \<Rightarrow> nat \<Rightarrow> 'a list \<Rightarrow> 'a list" where
  "copy_at dst pos src = (let n = min (length dst - pos) (length src)
     in take pos dst @ take n src @ drop (pos + n) dst)"

definition poke :: "'a list \<Rightarrow> nat \<Rightarrow> 'a list \<Rightarrow> ('e, 'a list) result" where
  "poke dst pos src = (if pos + length src \<le> length dst
     then Ok (take pos dst @ src @ drop (pos + length src) dst) else Panic IndexOutOfRange)"

section \<open>Big-endian numbers\<close>

text \<open>\<open>big.Int.SetBytes\<close>: the bytes read as a big-endian unsigned number.\<close>

definition be_val :: "bytes \<Rightarrow> nat" where
  "be_val bs = foldl (\<lambda>a b. 256 * a + unat b) 0 bs"

text \<open>\<open>big.Int.Bytes\<close>: the shortest big-endian representation; zero is the empty string.\<close>

fun be_bytes :: "nat \<Rightarrow> bytes" where
  "be_bytes n = (if n = 0 then [] else be_bytes (n div 256) @ [of_nat n])"

declare be_bytes.simps [simp del]

lemma bind_result_Ok_iff:
  "bind_result r f = Ok b \<longleftrightarrow> (\<exists>a. r = Ok a \<and> f a = Ok b)"
  by (cases r) auto

lemma bind_result_Err_iff:
  "bind_result r f = Err e \<longleftrightarrow> r = Err e \<or> (\<exists>a. r = Ok a \<and> f a = Err e)"
  by (cases r) auto

lemma bind_result_Panic_iff:
  "bind_result r f = Panic p \<longleftrightarrow> r = Panic p \<or> (\<exists>a. r = Ok a \<and> f a = Panic p)"
  by (cases r) auto

lemma bind_result_cong [fundef_cong]:
  "r = r' \<Longrightarrow> (\<And>a. r' = Ok a \<Longrightarrow> f a = f' a) \<Longrightarrow> bind_result r f = bind_result r' f'"
  by (cases r') auto

lemmas bind_result_iffs = bind_result_Ok_iff bind_result_Err_iff bind_result_Panic_iff

lemma index_Ok [simp]: "i < length xs \<Longrightarrow> index xs i = Ok (xs ! i)"
  by (simp add: index_def)

lemma index_Ok_iff: "index xs i = Ok x \<longleftrightarrow> i < length xs \<and> x = xs ! i"
  by (auto simp: index_def)

lemma index_0_Cons [simp]: "index (x # xs) 0 = Ok x"
  by (simp add: index_def)

lemma slice_Ok [simp]:
  "lo \<le> hi \<Longrightarrow> hi \<le> length xs \<Longrightarrow> slice xs lo hi = Ok (take (hi - lo) (drop lo xs))"
  by (simp add: slice_def)

lemma length_copy_at [simp]: "pos \<le> length dst \<Longrightarrow> length (copy_at dst pos src) = length dst"
  by (simp add: copy_at_def Let_def)

lemma copy_at_append:
  "length xs = pos \<Longrightarrow> length src \<le> length ys \<Longrightarrow>
     copy_at (xs @ ys) pos src = (xs @ src) @ drop (length src) ys"
  by (simp add: copy_at_def Let_def min_def)

lemma poke_append:
  "length xs = pos \<Longrightarrow> length src \<le> length ys \<Longrightarrow>
     poke (xs @ ys) pos src = Ok ((xs @ src) @ drop (length src) ys)"
  by (simp add: poke_def)

lemma be_val_Nil [simp]: "be_val [] = 0"
  by (simp add: be_val_def)

lemma be_val_foldl: "foldl (\<lambda>a b. 256 * a + unat b) x bs = x * 256 ^ length bs + be_val bs"
proof (induction bs arbitrary: x)
  case Nil
  then show ?case by simp
next
  case (Cons b bs)
  have "foldl (\<lambda>a b. 256 * a + unat b) x (b # bs)
      = (256 * x + unat b) * 256 ^ length bs + be_val bs"
    by (simp add: Cons.IH)
  moreover have "be_val (b # bs) = unat b * 256 ^ length bs + be_val bs"
    using Cons.IH [of "unat b"] by (simp add: be_val_def)
  ultimately show ?case by (simp add: algebra_simps)
qed

lemma be_val_Cons: "be_val (b # bs) = unat b * 256 ^ length bs + be_val bs"
  using be_val_foldl [of "unat b" bs] by (simp add: be_val_def)

lemma be_val_append: "be_val (xs @ ys) = be_val xs * 256 ^ length ys + be_val ys"
  using be_val_foldl [of "be_val xs" ys] by (simp add: be_val_def)

lemma be_val_snoc [simp]: "be_val (xs @ [b]) = 256 * be_val xs + unat b"
  by (simp add: be_val_append be_val_Cons)

lemma unat_byte_less: "unat (b :: byte) < 256"
  using unsigned_less [of b] by simp

lemma base256_less: "a < p \<Longrightarrow> c < 256 \<Longrightarrow> 256 * a + c < 256 * (p::nat)"
  by arith

lemma be_val_less: "be_val bs < 256 ^ length bs"
proof (induction bs rule: rev_induct)
  case Nil
  then show ?case by simp
next
  case (snoc b bs)
  then show ?case using base256_less [OF snoc unat_byte_less] by simp
qed

lemma be_val_ge: "bs \<noteq> [] \<Longrightarrow> hd bs \<noteq> 0 \<Longrightarrow> 256 ^ (length bs - 1) \<le> be_val bs"
proof (cases bs)
  case (Cons b bs')
  assume "hd bs \<noteq> 0"
  with Cons have "1 \<le> unat b" by (simp add: unat_eq_zero Suc_le_eq unat_gt_0)
  then have "1 * 256 ^ length bs' \<le> unat b * 256 ^ length bs'" by (rule mult_le_mono1)
  with Cons show ?thesis by (simp add: be_val_Cons trans_le_add1)
qed simp

lemma be_bytes_0 [simp]: "be_bytes 0 = []"
  by (simp add: be_bytes.simps)

lemma be_bytes_eq_Nil [simp]: "be_bytes n = [] \<longleftrightarrow> n = 0"
  by (subst be_bytes.simps) simp

lemma unat_of_nat_byte [simp]: "unat (of_nat n :: byte) = n mod 256"
  by (simp add: unat_of_nat)

lemma be_val_be_bytes [simp]: "be_val (be_bytes n) = n"
proof (induction n rule: be_bytes.induct)
  case (1 n)
  then show ?case by (cases "n = 0") (simp_all add: be_bytes.simps [of n])
qed

lemma hd_be_bytes: "n \<noteq> 0 \<Longrightarrow> hd (be_bytes n) \<noteq> 0"
proof (induction n rule: be_bytes.induct)
  case (1 n)
  show ?case
  proof (cases "n div 256 = 0")
    case True
    with 1 have "n < 256" by simp
    with 1 True show ?thesis
      using unat_of_nat_byte [of n] by (auto simp: be_bytes.simps [of n] simp del: unat_of_nat_byte)
  next
    case False
    with 1 have "hd (be_bytes (n div 256)) \<noteq> 0" by simp
    with 1 False show ?thesis by (simp add: be_bytes.simps [of n] hd_append)
  qed
qed

lemma be_bytes_be_val: "bs = [] \<or> hd bs \<noteq> 0 \<Longrightarrow> be_bytes (be_val bs) = bs"
proof (induction bs rule: rev_induct)
  case Nil
  then show ?case by simp
next
  case (snoc b bs)
  show ?case
  proof (cases "bs = []")
    case True
    with snoc.prems have "unat b \<noteq> 0" by (simp add: unat_eq_zero)
    with True show ?thesis
      by (simp add: be_bytes.simps [of "unat b"] be_val_Cons unat_byte_less)
  next
    case False
    with snoc have eq: "be_bytes (be_val bs) = bs" by (simp add: hd_append)
    from False eq have "be_val bs \<noteq> 0" by (metis be_bytes_0)
    moreover have "(256 * be_val bs + unat b) div 256 = be_val bs" by (simp add: unat_byte_less)
    moreover have "of_nat (256 * be_val bs + unat b) = b"
      unfolding word_unat_eq_iff unat_of_nat_byte by (simp add: unat_byte_less)
    ultimately show ?thesis using eq by (simp add: be_bytes.simps [of "256 * be_val bs + unat b"])
  qed
qed

lemma length_be_bytes_le_iff: "length (be_bytes n) \<le> k \<longleftrightarrow> n < 256 ^ k"
proof
  assume "length (be_bytes n) \<le> k"
  then have "(256::nat) ^ length (be_bytes n) \<le> 256 ^ k" by simp
  moreover have "n < 256 ^ length (be_bytes n)" using be_val_less [of "be_bytes n"] by simp
  ultimately show "n < 256 ^ k" by (rule order.strict_trans2 [rotated])
next
  assume less: "n < 256 ^ k"
  show "length (be_bytes n) \<le> k"
  proof (cases "n = 0")
    case False
    then have "256 ^ (length (be_bytes n) - 1) \<le> n"
      using be_val_ge [of "be_bytes n"] hd_be_bytes [of n] by simp
    with less have "(256::nat) ^ (length (be_bytes n) - 1) < 256 ^ k" by (rule le_less_trans [rotated])
    then have "length (be_bytes n) - 1 < k" by (rule power_less_imp_less_exp [rotated]) simp
    then show ?thesis by simp
  qed simp
qed

lemma be_bytes_unfold: "0 < n \<Longrightarrow> be_bytes n = be_bytes (n div 256) @ [of_nat n]"
  by (simp add: be_bytes.simps [of n])

lemma be_bytes_inject [simp]: "be_bytes m = be_bytes n \<longleftrightarrow> m = n"
  by (metis be_val_be_bytes)

text \<open>
  Computations with fuel: \<open>None\<close> is a computation that has not returned. \<open>fbind\<close> chains them.
\<close>

definition fbind :: "('e, 'a) result option \<Rightarrow> ('a \<Rightarrow> ('e, 'b) result option) \<Rightarrow> ('e, 'b) result option" where
  "fbind m f = (case m of
     None \<Rightarrow> None | Some (Ok a) \<Rightarrow> f a | Some (Err e) \<Rightarrow> Some (Err e) | Some (Panic p) \<Rightarrow> Some (Panic p))"

lemma fbind_simps [simp]:
  "fbind (Some (Ok a)) f = f a" "fbind (Some (Err e)) f = Some (Err e)"
  "fbind (Some (Panic p)) f = Some (Panic p)" "fbind None f = None"
  by (simp_all add: fbind_def)

lemma fbind_Ok_iff: "fbind m f = Some (Ok b) \<longleftrightarrow> (\<exists>a. m = Some (Ok a) \<and> f a = Some (Ok b))"
  by (auto simp: fbind_def split: option.splits result.splits)

lemma fbind_cong [fundef_cong]:
  "m = m' \<Longrightarrow> (\<And>a. m' = Some (Ok a) \<Longrightarrow> f a = f' a) \<Longrightarrow> fbind m f = fbind m' f'"
  by (auto simp: fbind_def split: option.splits result.splits)

end
