(* ===== verification/Rlp_Encode.thy ===== *)
theory Rlp_Encode
  imports Prelude
begin

text \<open>
  The RLP encoder of \<open>rlp/encode.go\<close>: integer and header helpers, the encode buffer with its
  separate list headers, the value writers, and the two ways a finished buffer is read back
  (\<open>toBytes\<close> and the pieces of \<open>encReader\<close>). The Go value handed to the encoder is a
  \<open>gval\<close>: one constructor per case of \<open>makeWriter\<close>.
\<close>

section \<open>Integers and headers\<close>

definition putint :: "uint64 \<Rightarrow> bytes" where
  "putint i =
    (if i < 2 ^ 8 then [ucast i]
     else if i < 2 ^ 16 then [ucast (drop_bit 8 i), ucast i]
     else if i < 2 ^ 24 then [ucast (drop_bit 16 i), ucast (drop_bit 8 i), ucast i]
     else if i < 2 ^ 32 then
       [ucast (drop_bit 24 i), ucast (drop_bit 16 i), ucast (drop_bit 8 i), ucast i]
     else if i < 2 ^ 40 then
       [ucast (drop_bit 32 i), ucast (drop_bit 24 i), ucast (drop_bit 16 i),
        ucast (drop_bit 8 i), ucast i]
     else if i < 2 ^ 48 then
       [ucast (drop_bit 40 i), ucast (drop_bit 32 i), ucast (drop_bit 24 i),
        ucast (drop_bit 16 i), ucast (drop_bit 8 i), ucast i]
     else if i < 2 ^ 56 then
       [ucast (drop_bit 48 i), ucast (drop_bit 40 i), ucast (drop_bit 32 i),
        ucast (drop_bit 24 i), ucast (drop_bit 16 i), ucast (drop_bit 8 i), ucast i]
     else
       [ucast (drop_bit 56 i), ucast (drop_bit 48 i), ucast (drop_bit 40 i),
        ucast (drop_bit 32 i), ucast (drop_bit 24 i), ucast (drop_bit 16 i),
        ucast (drop_bit 8 i), ucast i])"

function intsize_loop :: "uint64 \<Rightarrow> nat \<Rightarrow> nat" where
  "intsize_loop i sz =
    (let i' = drop_bit 8 i in if i' = 0 then sz else intsize_loop i' (sz + 1))"
  by pat_completeness auto
termination
proof (relation "measure (\<lambda>(i, sz). unat i)")
  fix i :: uint64 and sz :: nat and i' :: uint64
  assume i': "i' = drop_bit 8 i" and nz: "i' \<noteq> 0"
  have eq: "unat i' = unat i div 256"
    unfolding i' unat_drop_bit_eq by (simp add: drop_bit_eq_div)
  with nz have "unat i \<noteq> 0" by (metis div_0 unat_eq_zero)
  with eq show "((i', sz + 1), (i, sz)) \<in> measure (\<lambda>(i, sz). unat i)" by simp
qed simp

definition intsize :: "uint64 \<Rightarrow> nat" where
  "intsize i = intsize_loop i 1"

definition headsize :: "uint64 \<Rightarrow> nat" where
  "headsize sz = (if sz < 56 then 1 else 1 + intsize sz)"

text \<open>\<open>puthead\<close> writes at the front of its buffer and returns a count; the model returns the
  bytes it writes.\<close>

definition puthead :: "byte \<Rightarrow> byte \<Rightarrow> uint64 \<Rightarrow> bytes" where
  "puthead smalltag largetag sz =
    (if sz < 56 then [smalltag + ucast sz]
     else let sizebytes = putint sz in (largetag + of_nat (length sizebytes)) # sizebytes)"

section \<open>The encode buffer\<close>

record listhead =
  lh_offset :: nat
  lh_size :: int

record encbuf =
  eb_str :: bytes
  eb_lheads :: "listhead list"
  eb_lhsize :: int

definition encbuf_reset :: encbuf where
  "encbuf_reset = \<lparr>eb_str = [], eb_lheads = [], eb_lhsize = 0\<rparr>"

definition listhead_encode :: "listhead \<Rightarrow> bytes" where
  "listhead_encode head = puthead 0xC0 0xF7 (word_of_int (lh_size head))"

definition emit :: "bytes \<Rightarrow> encbuf \<Rightarrow> encbuf" where
  "emit b w = w\<lparr>eb_str := eb_str w @ b\<rparr>"

definition encodeStringHeader :: "nat \<Rightarrow> encbuf \<Rightarrow> encbuf" where
  "encodeStringHeader sz w =
    (if sz < 56 then emit [0x80 + of_nat sz] w
     else let sizebytes = putint (of_nat sz)
          in emit ((0xB7 + of_nat (length sizebytes)) # sizebytes) w)"

definition encodeString :: "bytes \<Rightarrow> encbuf \<Rightarrow> encbuf" where
  "encodeString b w =
    (if length b = 1 \<and> b ! 0 \<le> 0x7F then emit [b ! 0] w
     else emit b (encodeStringHeader (length b) w))"

definition encbuf_size :: "encbuf \<Rightarrow> int" where
  "encbuf_size w = int (length (eb_str w)) + eb_lhsize w"

text \<open>\<open>list\<close> appends a header and returns a pointer to it: here its position in \<open>lheads\<close>.\<close>

definition encbuf_list :: "encbuf \<Rightarrow> encbuf \<times> nat" where
  "encbuf_list w =
    (w\<lparr>eb_lheads := eb_lheads w @ [\<lparr>lh_offset = length (eb_str w), lh_size = eb_lhsize w\<rparr>]\<rparr>,
     length (eb_lheads w))"

definition encbuf_listEnd :: "nat \<Rightarrow> encbuf \<Rightarrow> encbuf" where
  "encbuf_listEnd i w =
    (let lh = eb_lheads w ! i;
         sz = encbuf_size w - int (lh_offset lh) - lh_size lh
     in w\<lparr>eb_lheads := (eb_lheads w)[i := lh\<lparr>lh_size := sz\<rparr>],
          eb_lhsize := eb_lhsize w +
            (if sz < 56 then 1 else 1 + int (intsize (word_of_int sz)))\<rparr>)"

section \<open>Writers\<close>

datatype rlp_error =
    EncNegativeBigInt
  | ErrUnexpectedEOF
  | EOF
  | EOL
  | ErrExpectedString
  | ErrExpectedList
  | ErrCanonInt
  | ErrCanonSize
  | ErrElemTooLarge
  | ErrValueTooLarge
  | ErrMoreThanOneValue
  | ErrNotInList
  | ErrNotAtEOL
  | ErrUintOverflow
  | ErrInvalidBool
  | ErrInputTooLong
  | ErrInputTooShort
  | ErrTooFewElements

text \<open>
  Values by the case of \<open>makeWriter\<close> that handles them. \<open>VTail\<close> is a slice field with the
  \<open>tail\<close> tag; the three nil-pointer constructors are the three \<open>nilfunc\<close>s of
  \<open>makePtrWriter\<close>, the last one carrying the zero value of the element type.
\<close>

datatype gval =
    VRaw bytes
  | VNilInterface
  | VInterface gval
  | VNilBigInt
  | VBigInt int
  | VUint uint64
  | VBool bool
  | VString bytes
  | VBytes bytes
  | VByteArray bytes
  | VSlice "gval list"
  | VTail "gval list"
  | VStruct "gval list"
  | VPtr gval
  | VNilPtrByteArray
  | VNilPtrStruct
  | VNilPtr gval

definition writeUint :: "uint64 \<Rightarrow> encbuf \<Rightarrow> encbuf" where
  "writeUint i w =
    (if i = 0 then emit [0x80] w
     else if i < 128 then emit [ucast i] w
     else let s = putint i in emit ((0x80 + of_nat (length s)) # s) w)"

definition writeBool :: "bool \<Rightarrow> encbuf \<Rightarrow> encbuf" where
  "writeBool b w = (if b then emit [0x01] w else emit [0x80] w)"

definition writeBigInt :: "int \<Rightarrow> encbuf \<Rightarrow> (rlp_error, encbuf) result" where
  "writeBigInt i w =
    (if i < 0 then Err EncNegativeBigInt
     else if i = 0 then Ok (emit [0x80] w)
     else Ok (encodeString (be_bytes (nat i)) w))"

definition writeString :: "bytes \<Rightarrow> encbuf \<Rightarrow> encbuf" where
  "writeString s w =
    (if length s = 1 \<and> s ! 0 \<le> 0x7F then emit [s ! 0] w
     else emit s (encodeStringHeader (length s) w))"

fun writer :: "gval \<Rightarrow> encbuf \<Rightarrow> (rlp_error, encbuf) result"
and write_elems :: "gval list \<Rightarrow> encbuf \<Rightarrow> (rlp_error, encbuf) result" where
  "writer (VRaw b) w = Ok (emit b w)"
| "writer VNilInterface w = Ok (emit [0xC0] w)"
| "writer (VInterface v) w = writer v w"
| "writer VNilBigInt w = Ok (emit [0x80] w)"
| "writer (VBigInt i) w = writeBigInt i w"
| "writer (VUint i) w = Ok (writeUint i w)"
| "writer (VBool b) w = Ok (writeBool b w)"
| "writer (VString s) w = Ok (writeString s w)"
| "writer (VBytes b) w = Ok (encodeString b w)"
| "writer (VByteArray b) w = Ok (encodeString b w)"
| "writer (VSlice vs) w =
     (let (w1, lh) = encbuf_list w
      in bind_result (write_elems vs w1) (\<lambda>w2. Ok (encbuf_listEnd lh w2)))"
| "writer (VTail vs) w = write_elems vs w"
| "writer (VStruct fs) w =
     (let (w1, lh) = encbuf_list w
      in bind_result (write_elems fs w1) (\<lambda>w2. Ok (encbuf_listEnd lh w2)))"
| "writer (VPtr v) w = writer v w"
| "writer VNilPtrByteArray w = Ok (emit [0x80] w)"
| "writer VNilPtrStruct w = (let (w1, lh) = encbuf_list w in Ok (encbuf_listEnd lh w1))"
| "writer (VNilPtr zero) w = writer zero w"
| "write_elems [] w = Ok w"
| "write_elems (v # vs) w = bind_result (writer v w) (write_elems vs)"

text \<open>\<open>encode\<close> receives its value in an \<open>interface{}\<close>: an interface inside it is the same as its content,
  and nil has no type, so that \<open>rval.Type()\<close> panics. A nil interface inside a value has a writer.\<close>

fun nil_arg :: "gval \<Rightarrow> bool" where
  "nil_arg VNilInterface = True"
| "nil_arg (VInterface v) = nil_arg v"
| "nil_arg _ = False"

definition encbuf_encode :: "gval \<Rightarrow> encbuf \<Rightarrow> (rlp_error, encbuf) result" where
  "encbuf_encode v w =
    (if nil_arg v then Panic (ExplicitPanic ''reflect: call of reflect.Value.Type on zero Value'') else writer v w)"

section \<open>Reading a finished buffer\<close>

text \<open>The loop of \<open>toBytes\<close>, over the output slice \<open>out\<close> and the two positions.\<close>

fun toBytes_loop ::
  "bytes \<Rightarrow> listhead list \<Rightarrow> bytes \<Rightarrow> nat \<Rightarrow> nat \<Rightarrow> (rlp_error, bytes) result" where
  "toBytes_loop str [] out strpos pos = Ok (copy_at out pos (drop strpos str))"
| "toBytes_loop str (head # heads) out strpos pos =
     bind_result (slice str strpos (lh_offset head)) (\<lambda>piece.
     let n = min (length out - pos) (length piece);
         out1 = copy_at out pos piece;
         enc = listhead_encode head
     in bind_result (poke out1 (pos + n) enc) (\<lambda>out2.
        toBytes_loop str heads out2 (strpos + n) (pos + n + length enc)))"

definition toBytes :: "encbuf \<Rightarrow> (rlp_error, bytes) result" where
  "toBytes w = toBytes_loop (eb_str w) (eb_lheads w) (replicate (nat (encbuf_size w)) 0) 0 0"

definition EncodeToBytes :: "gval \<Rightarrow> (rlp_error, bytes) result" where
  "EncodeToBytes v = bind_result (encbuf_encode v encbuf_reset) toBytes"

text \<open>\<open>toWriter\<close> into a writer that accepts every write: the bytes written, in order.\<close>

fun toWriter_loop :: "bytes \<Rightarrow> listhead list \<Rightarrow> nat \<Rightarrow> (rlp_error, bytes) result" where
  "toWriter_loop str [] strpos = Ok (if strpos < length str then drop strpos str else [])"
| "toWriter_loop str (head # heads) strpos =
     (if strpos < lh_offset head then
        bind_result (slice str strpos (lh_offset head)) (\<lambda>piece.
        bind_result (toWriter_loop str heads (strpos + length piece)) (\<lambda>out.
        Ok (piece @ listhead_encode head @ out)))
      else
        bind_result (toWriter_loop str heads strpos) (\<lambda>out.
        Ok (listhead_encode head @ out)))"

definition toWriter :: "encbuf \<Rightarrow> (rlp_error, bytes) result" where
  "toWriter w = toWriter_loop (eb_str w) (eb_lheads w) 0"

text \<open>The destination of \<open>Encode\<close>: the encode buffer of an outer call, when an \<open>EncodeRLP\<close> method passes on
  the writer it was given, or any other writer, with what it has received so far.\<close>

datatype io_writer = OuterBuf encbuf | OtherWriter bytes

fun Encode :: "io_writer \<Rightarrow> gval \<Rightarrow> (rlp_error, io_writer) result" where
  "Encode (OuterBuf outer) v = bind_result (encbuf_encode v outer) (\<lambda>w. Ok (OuterBuf w))"
| "Encode (OtherWriter out) v =
    bind_result (encbuf_encode v encbuf_reset) (\<lambda>eb. bind_result (toWriter eb) (\<lambda>b. Ok (OtherWriter (out @ b))))"

text \<open>
  \<open>encReader\<close>: the reader returned by \<open>EncodeToReader\<close>. \<open>er_buf\<close> is nil at the end of the
  data; \<open>er_piece\<close> is the piece being handed out. \<open>encReader_Read\<close> is one call of \<open>Read\<close> with
  a destination of \<open>room\<close> bytes: the bytes delivered, whether it returned \<open>io.EOF\<close>, and the
  reader afterwards.
\<close>

record encReader =
  er_buf :: "encbuf option"
  er_lhpos :: nat
  er_strpos :: nat
  er_piece :: "bytes option"

definition encReader_next :: "encReader \<Rightarrow> (rlp_error, bytes option \<times> encReader) result" where
  "encReader_next r =
    (case er_buf r of
       None \<Rightarrow> Ok (None, r)
     | Some buf \<Rightarrow>
       (case er_piece r of
          Some p \<Rightarrow> Ok (Some p, r)
        | None \<Rightarrow>
          if er_lhpos r < length (eb_lheads buf) then
            let head = eb_lheads buf ! er_lhpos r in
            if er_strpos r < lh_offset head then
              bind_result (slice (eb_str buf) (er_strpos r) (lh_offset head))
                (\<lambda>p. Ok (Some p, r\<lparr>er_strpos := lh_offset head\<rparr>))
            else Ok (Some (listhead_encode head), r\<lparr>er_lhpos := er_lhpos r + 1\<rparr>)
          else if er_strpos r < length (eb_str buf) then
            Ok (Some (drop (er_strpos r) (eb_str buf)), r\<lparr>er_strpos := length (eb_str buf)\<rparr>)
          else Ok (None, r)))"

definition encReader_todo :: "encReader \<Rightarrow> nat" where
  "encReader_todo r = (case er_buf r of None \<Rightarrow> 0 | Some buf \<Rightarrow>
     (length (eb_lheads buf) - er_lhpos r) + (length (eb_str buf) - er_strpos r) +
     (case er_piece r of None \<Rightarrow> 0 | Some _ \<Rightarrow> 1))"

lemma encReader_next_todo:
  "encReader_next r = Ok (Some p, r') \<Longrightarrow> encReader_todo (r'\<lparr>er_piece := None\<rparr>) < encReader_todo r"
  by (auto simp: encReader_next_def encReader_todo_def Let_def bind_result_iffs slice_def
      split: option.splits if_splits)

function encReader_Read ::
  "nat \<Rightarrow> bytes \<Rightarrow> encReader \<Rightarrow> (rlp_error, bytes \<times> bool \<times> encReader) result" where
  "encReader_Read room out r =
    bind_result (encReader_next r) (\<lambda>(piece, r1).
      case piece of
        None \<Rightarrow> Ok (out, True, r1\<lparr>er_piece := None, er_buf := None\<rparr>)
      | Some p \<Rightarrow>
        let nn = min room (length p) in
        if nn < length p then Ok (out @ take nn p, False, r1\<lparr>er_piece := Some (drop nn p)\<rparr>)
        else encReader_Read (room - nn) (out @ take nn p) (r1\<lparr>er_piece := None\<rparr>))"
  by pat_completeness auto
termination
  by (relation "measure (\<lambda>(room, out, r). encReader_todo r)") (auto dest!: encReader_next_todo)

definition EncodeToReader :: "gval \<Rightarrow> (rlp_error, int \<times> encReader) result" where
  "EncodeToReader v =
    bind_result (encbuf_encode v encbuf_reset) (\<lambda>eb.
      Ok (encbuf_size eb, \<lparr>er_buf = Some eb, er_lhpos = 0, er_strpos = 0, er_piece = None\<rparr>))"

section \<open>Reference encoding\<close>

text \<open>
  The encoding as the RLP rules state it: strings with a minimal header, lists as a header
  followed by the concatenated encodings of their elements, integers as the string of their
  shortest big-endian representation.
\<close>

definition enc_string :: "bytes \<Rightarrow> bytes" where
  "enc_string b = (if length b = 1 \<and> hd b < 0x80 then b
     else puthead 0x80 0xB7 (of_nat (length b)) @ b)"

definition enc_list :: "bytes \<Rightarrow> bytes" where
  "enc_list payload = puthead 0xC0 0xF7 (of_nat (length payload)) @ payload"

fun enc_ref :: "gval \<Rightarrow> (rlp_error, bytes) result"
and enc_refs :: "gval list \<Rightarrow> (rlp_error, bytes) result" where
  "enc_ref (VRaw b) = Ok b"
| "enc_ref VNilInterface = Ok (enc_list [])"
| "enc_ref (VInterface v) = enc_ref v"
| "enc_ref VNilBigInt = Ok (enc_string [])"
| "enc_ref (VBigInt i) = (if i < 0 then Err EncNegativeBigInt else Ok (enc_string (be_bytes (nat i))))"
| "enc_ref (VUint i) = Ok (enc_string (be_bytes (unat i)))"
| "enc_ref (VBool b) = Ok (enc_string (if b then [1] else []))"
| "enc_ref (VString s) = Ok (enc_string s)"
| "enc_ref (VBytes b) = Ok (enc_string b)"
| "enc_ref (VByteArray b) = Ok (enc_string b)"
| "enc_ref (VSlice vs) = bind_result (enc_refs vs) (\<lambda>p. Ok (enc_list p))"
| "enc_ref (VTail vs) = enc_refs vs"
| "enc_ref (VStruct fs) = bind_result (enc_refs fs) (\<lambda>p. Ok (enc_list p))"
| "enc_ref (VPtr v) = enc_ref v"
| "enc_ref VNilPtrByteArray = Ok (enc_string [])"
| "enc_ref VNilPtrStruct = Ok (enc_list [])"
| "enc_ref (VNilPtr zero) = enc_ref zero"
| "enc_refs [] = Ok []"
| "enc_refs (v # vs) = bind_result (enc_ref v) (\<lambda>b. bind_result (enc_refs vs) (\<lambda>p. Ok (b @ p)))"

section \<open>Integer and header lemmas\<close>

declare intsize_loop.simps [simp del]

lemma unat_drop_bit: "unat (drop_bit k (i :: uint64)) = unat i div 2 ^ k"
  unfolding unat_drop_bit_eq by (simp add: drop_bit_eq_div)

lemma ucast_drop_bit: "ucast (drop_bit k (i :: uint64)) = (of_nat (unat i div 2 ^ k) :: byte)"
  by (metis unat_drop_bit of_nat_unat)

lemma ucast_byte: "ucast (i :: uint64) = (of_nat (unat i) :: byte)"
  by (simp add: of_nat_unat)

lemma be_bytes_digits:
  "256 ^ k \<le> n \<Longrightarrow> n < 256 ^ Suc k \<Longrightarrow>
     be_bytes n = map (\<lambda>j. of_nat (n div 256 ^ j)) (rev [0..<Suc k])"
proof (induction k arbitrary: n)
  case 0
  then show ?case by (simp add: be_bytes_unfold)
next
  case (Suc k)
  have lo: "256 ^ k \<le> n div 256"
    using Suc.prems(1) by (simp add: less_eq_div_iff_mult_less_eq mult.commute)
  have hi: "n div 256 < 256 ^ Suc k"
    using Suc.prems(2) by (simp add: div_less_iff_less_mult mult.commute)
  have "0 < n" using lo by (metis div_0 gr0I le_zero_eq power_not_zero zero_neq_numeral)
  then have step: "be_bytes n = map (\<lambda>j. of_nat (n div 256 div 256 ^ j)) (rev [0..<Suc k]) @ [of_nat n]"
    using Suc.IH [OF lo hi] be_bytes_unfold [of n] by simp
  have upto: "rev [0..<Suc (Suc k)] = map Suc (rev [0..<Suc k]) @ [0]"
    by (simp add: rev_map [symmetric] map_Suc_upt upt_conv_Cons [of 0 "Suc (Suc k)"] del: upt_Suc)
  show ?case unfolding step upto by (simp add: div_mult2_eq del: upt_Suc)
qed


lemma putint_be_bytes: "i \<noteq> 0 \<Longrightarrow> putint i = be_bytes (unat i)"
proof -
  assume "i \<noteq> 0"
  then have pos: "0 < unat i" by (simp add: unat_gt_0)
  have max: "unat i < 256 ^ 8" using unsigned_less [of i] by simp
  note facts = putint_def ucast_drop_bit word_less_nat_alt upt_conv_Cons
  consider "unat i < 256 ^ 1" | "256 ^ 1 \<le> unat i" "unat i < 256 ^ 2"
    | "256 ^ 2 \<le> unat i" "unat i < 256 ^ 3" | "256 ^ 3 \<le> unat i" "unat i < 256 ^ 4"
    | "256 ^ 4 \<le> unat i" "unat i < 256 ^ 5" | "256 ^ 5 \<le> unat i" "unat i < 256 ^ 6"
    | "256 ^ 6 \<le> unat i" "unat i < 256 ^ 7" | "256 ^ 7 \<le> unat i"
    by (meson not_less)
  then show ?thesis
  proof cases
    case 1
    then show ?thesis using be_bytes_digits [of 0 "unat i"] pos by (simp add: facts)
  next
    case 2
    then show ?thesis using be_bytes_digits [of 1 "unat i"] by (simp add: facts)
  next
    case 3
    then show ?thesis using be_bytes_digits [of 2 "unat i"] by (simp add: facts)
  next
    case 4
    then show ?thesis using be_bytes_digits [of 3 "unat i"] by (simp add: facts)
  next
    case 5
    then show ?thesis using be_bytes_digits [of 4 "unat i"] by (simp add: facts)
  next
    case 6
    then show ?thesis using be_bytes_digits [of 5 "unat i"] by (simp add: facts)
  next
    case 7
    then show ?thesis using be_bytes_digits [of 6 "unat i"] by (simp add: facts)
  next
    case 8
    then show ?thesis using be_bytes_digits [of 7 "unat i"] max by (simp add: facts)
  qed
qed

lemma putint_0 [simp]: "putint 0 = [0]"
  by (simp add: putint_def)

lemma intsize_loop_eq: "intsize_loop i sz = sz + length (be_bytes (unat i div 256))"
proof (induction i sz rule: intsize_loop.induct)
  case (1 i sz)
  have eq: "unat (drop_bit 8 i) = unat i div 256" by (simp add: unat_drop_bit)
  show ?case
  proof (cases "drop_bit 8 i = 0")
    case True
    with eq have "unat i div 256 = 0" by (metis unat_0)
    with True show ?thesis by (simp add: intsize_loop.simps [of i])
  next
    case False
    with eq have "0 < unat i div 256" by (metis gr0I unat_eq_zero)
    then have "be_bytes (unat i div 256) = be_bytes (unat i div 256 div 256) @ [of_nat (unat i div 256)]"
      by (rule be_bytes_unfold)
    with False "1" eq show ?thesis by (simp add: intsize_loop.simps [of i])
  qed
qed

lemma intsize_eq: "intsize i = length (putint i)"
proof (cases "i = 0")
  case True
  then show ?thesis by (simp add: intsize_def intsize_loop_eq)
next
  case False
  then have "0 < unat i" by (simp add: unat_gt_0)
  with False show ?thesis
    by (simp add: intsize_def intsize_loop_eq putint_be_bytes be_bytes_unfold [of "unat i"])
qed

lemma length_puthead [simp]: "length (puthead a b sz) = headsize sz"
  by (simp add: puthead_def headsize_def intsize_eq Let_def)

lemma puthead_neq_Nil [simp]: "puthead a b sz \<noteq> []"
  by (simp add: puthead_def Let_def)

lemma encodeString_eq:
  "length b < 2 ^ 64 \<Longrightarrow> encodeString b w = emit (enc_string b) w"
proof -
  assume len: "length b < 2 ^ 64"
  have top: "b ! 0 \<le> 0x7F \<longleftrightarrow> hd b < 0x80" if "length b = 1"
    using that by (cases b) (auto simp: word_less_nat_alt word_le_nat_alt)
  have u: "unat (of_nat (length b) :: uint64) = length b"
    using len by (simp add: unat_of_nat)
  have small: "(of_nat (length b) :: uint64) < 56 \<longleftrightarrow> length b < 56"
    using u by (simp add: word_less_nat_alt)
  have cast: "ucast (of_nat (length b) :: uint64) = (of_nat (length b) :: byte)"
    by (metis u of_nat_unat)
  have "emit b (encodeStringHeader (length b) w)
      = emit (puthead 0x80 0xB7 (of_nat (length b)) @ b) w"
    by (simp add: encodeStringHeader_def puthead_def emit_def small cast Let_def)
  moreover have "[b ! 0] = b" if "length b = 1" using that by (cases b) auto
  ultimately show ?thesis using top by (auto simp: encodeString_def enc_string_def)
qed

lemma writeString_eq: "writeString b w = encodeString b w"
  by (simp add: writeString_def encodeString_def)

lemma emit_emit [simp]: "emit b (emit a w) = emit (a @ b) w"
  by (simp add: emit_def)

lemma writeUint_eq: "writeUint i w = emit (enc_string (be_bytes (unat i))) w"
proof -
  consider "i = 0" | "i \<noteq> 0" "i < 128" | "\<not> i < 128" by blast
  then show ?thesis
  proof cases
    case 1
    then show ?thesis by (simp add: writeUint_def enc_string_def puthead_def)
  next
    case 2
    then have pos: "0 < unat i" and small: "unat i < 128"
      by (simp_all add: unat_gt_0 word_less_nat_alt)
    then have eq: "be_bytes (unat i) = [ucast i]" by (simp add: be_bytes_unfold)
    have "(ucast i :: byte) < 0x80"
      using small by (simp add: word_less_nat_alt unsigned_ucast_eq take_bit_nat_eq_self)
    with 2 eq show ?thesis by (simp add: writeUint_def enc_string_def)
  next
    case 3
    then have big: "128 \<le> unat i" by (simp add: word_less_nat_alt)
    then have nz: "i \<noteq> 0" by auto
    have len: "length (putint i) \<le> 8"
      using unsigned_less [of i] by (simp add: putint_be_bytes [OF nz] length_be_bytes_le_iff)
    have multi: "\<not> (length (be_bytes (unat i)) = 1 \<and> hd (be_bytes (unat i)) < 0x80)"
    proof
      assume one: "length (be_bytes (unat i)) = 1 \<and> hd (be_bytes (unat i)) < 0x80"
      then obtain b where b: "be_bytes (unat i) = [b]" by (auto simp: length_Suc_conv)
      then have "unat i = unat b" using be_val_be_bytes [of "unat i"] by (simp add: be_val_Cons)
      with one b big show False by (simp add: word_less_nat_alt)
    qed
    have small: "(of_nat (length (putint i)) :: uint64) < 56"
      using len by (simp add: word_less_nat_alt unat_of_nat)
    have cast: "ucast (of_nat (length (putint i)) :: uint64) = (of_nat (length (putint i)) :: byte)"
      using len by (simp add: ucast_byte unat_of_nat del: of_nat_unat)
    from 3 nz multi small cast show ?thesis
      by (auto simp: writeUint_def enc_string_def puthead_def Let_def simp flip: putint_be_bytes [OF nz])
  qed
qed

section \<open>The buffer against the reference encoding\<close>

text \<open>\<open>weave str p hs\<close>: the string data from position \<open>p\<close> on, with the headers \<open>hs\<close> put in
  at their offsets.\<close>

fun weave :: "bytes \<Rightarrow> nat \<Rightarrow> listhead list \<Rightarrow> bytes" where
  "weave str p [] = drop p str"
| "weave str p (h # hs) =
     take (lh_offset h - p) (drop p str) @ listhead_encode h @ weave str (lh_offset h) hs"

fun heads_ok :: "nat \<Rightarrow> nat \<Rightarrow> listhead list \<Rightarrow> bool" where
  "heads_ok p n [] = (p \<le> n)"
| "heads_ok p n (h # hs) = (p \<le> lh_offset h \<and> heads_ok (lh_offset h) n hs)"

definition headbytes :: "listhead list \<Rightarrow> nat" where
  "headbytes hs = sum_list (map (\<lambda>h. length (listhead_encode h)) hs)"

definition grows :: "encbuf \<Rightarrow> encbuf \<Rightarrow> bytes \<Rightarrow> bool" where
  "grows w w' b \<longleftrightarrow> (\<exists>s hs. eb_str w' = eb_str w @ s \<and> eb_lheads w' = eb_lheads w @ hs \<and>
     eb_lhsize w' = eb_lhsize w + int (headbytes hs) \<and>
     heads_ok (length (eb_str w)) (length (eb_str w')) hs \<and>
     weave (eb_str w') (length (eb_str w)) hs = b)"

lemma heads_ok_le: "heads_ok p n hs \<Longrightarrow> p \<le> n"
  by (induction hs arbitrary: p) fastforce+

lemma heads_ok_mono: "heads_ok p n hs \<Longrightarrow> n \<le> n' \<Longrightarrow> heads_ok p n' hs"
  by (induction hs arbitrary: p) auto

lemma heads_ok_append:
  "heads_ok p n hs \<Longrightarrow> heads_ok n n' hs' \<Longrightarrow> heads_ok p n' (hs @ hs')"
proof (induction hs arbitrary: p)
  case Nil
  then show ?case by (cases hs') auto
qed auto

lemma weave_append:
  "heads_ok p (length s) hs \<Longrightarrow> heads_ok (length s) (length (s @ s')) hs' \<Longrightarrow>
     weave (s @ s') p (hs @ hs') = weave s p hs @ weave (s @ s') (length s) hs'"
proof (induction hs arbitrary: p)
  case Nil
  then show ?case
  proof (cases hs')
    case (Cons h hs)
    with Nil show ?thesis by (simp add: diff_le_mono)
  qed simp
next
  case (Cons h hs)
  then have "lh_offset h \<le> length s" by (auto dest: heads_ok_le)
  with Cons show ?case by simp
qed

lemma length_weave:
  "heads_ok p (length s) hs \<Longrightarrow> length (weave s p hs) = length s - p + headbytes hs"
proof (induction hs arbitrary: p)
  case Nil
  then show ?case by (simp add: headbytes_def)
next
  case (Cons h hs)
  then have "lh_offset h \<le> length s" by (auto dest: heads_ok_le)
  with Cons show ?case by (simp add: headbytes_def)
qed

lemma headbytes_append [simp]: "headbytes (hs @ hs') = headbytes hs + headbytes hs'"
  by (simp add: headbytes_def)

lemma grows_emit: "grows w (emit b w) b"
  by (auto simp: grows_def emit_def headbytes_def intro!: exI [of _ b] exI [of _ "[]"])

lemma grows_refl: "grows w w []"
  by (auto simp: grows_def headbytes_def)

lemma grows_trans:
  assumes "grows w w1 b1" and "grows w1 w2 b2"
  shows "grows w w2 (b1 @ b2)"
proof -
  from assms(1) obtain s1 hs1 where 1: "eb_str w1 = eb_str w @ s1"
    "eb_lheads w1 = eb_lheads w @ hs1" "eb_lhsize w1 = eb_lhsize w + int (headbytes hs1)"
    "heads_ok (length (eb_str w)) (length (eb_str w1)) hs1"
    "weave (eb_str w1) (length (eb_str w)) hs1 = b1"
    by (auto simp: grows_def)
  from assms(2) obtain s2 hs2 where 2: "eb_str w2 = eb_str w1 @ s2"
    "eb_lheads w2 = eb_lheads w1 @ hs2" "eb_lhsize w2 = eb_lhsize w1 + int (headbytes hs2)"
    "heads_ok (length (eb_str w1)) (length (eb_str w2)) hs2"
    "weave (eb_str w2) (length (eb_str w1)) hs2 = b2"
    by (auto simp: grows_def)
  have "weave (eb_str w2) (length (eb_str w)) (hs1 @ hs2) = b1 @ b2"
    using weave_append [OF 1(4), of s2 hs2] 1(5) 2(1,4,5) by simp
  moreover have "heads_ok (length (eb_str w)) (length (eb_str w2)) (hs1 @ hs2)"
    by (rule heads_ok_append [OF 1(4) 2(4)])
  ultimately show ?thesis
    unfolding grows_def using 1(1-3) 2(1-3)
    by (intro exI [of _ "s1 @ s2"] exI [of _ "hs1 @ hs2"]) simp
qed

lemma grows_size: "grows w w' b \<Longrightarrow> encbuf_size w' = encbuf_size w + int (length b)"
  by (auto simp: grows_def encbuf_size_def length_weave)

lemma grows_list:
  assumes "grows (fst (encbuf_list w)) w2 b" and "length b < 2 ^ 64"
  shows "grows w (encbuf_listEnd (snd (encbuf_list w)) w2) (enc_list b)"
proof -
  define lh where "lh = \<lparr>lh_offset = length (eb_str w), lh_size = eb_lhsize w\<rparr>"
  define lh' where "lh' = lh\<lparr>lh_size := int (length b)\<rparr>"
  from assms(1) obtain s hs where g: "eb_str w2 = eb_str w @ s"
    "eb_lheads w2 = (eb_lheads w @ [lh]) @ hs" "eb_lhsize w2 = eb_lhsize w + int (headbytes hs)"
    "heads_ok (length (eb_str w)) (length (eb_str w2)) hs"
    "weave (eb_str w2) (length (eb_str w)) hs = b"
    by (auto simp: grows_def encbuf_list_def lh_def)
  have "encbuf_size w2 = encbuf_size w + int (length b)"
    using grows_size [OF assms(1)] by (simp add: encbuf_list_def encbuf_size_def)
  then have size: "encbuf_size w2 - int (lh_offset lh) - lh_size lh = int (length b)"
    by (simp add: lh_def encbuf_size_def)
  have nth: "eb_lheads w2 ! length (eb_lheads w) = lh" by (simp add: g(2) nth_append)
  have enc: "listhead_encode lh' = puthead 0xC0 0xF7 (of_nat (length b))"
    by (simp add: listhead_encode_def lh'_def)
  have small: "(of_nat (length b) :: uint64) < 56 \<longleftrightarrow> length b < 56"
    using assms(2) by (simp add: word_less_nat_alt unat_of_nat)
  have heads: "eb_lheads (encbuf_listEnd (length (eb_lheads w)) w2) = eb_lheads w @ lh' # hs"
    using size nth by (simp add: encbuf_listEnd_def Let_def g(2) list_update_append lh'_def)
  have lhs: "eb_lhsize (encbuf_listEnd (length (eb_lheads w)) w2)
      = eb_lhsize w + int (headbytes (lh' # hs))"
    using size nth small
    by (simp add: encbuf_listEnd_def Let_def g(3) headbytes_def enc headsize_def)
  have str: "eb_str (encbuf_listEnd (length (eb_lheads w)) w2) = eb_str w @ s"
    by (simp add: encbuf_listEnd_def Let_def g(1))
  show ?thesis
    unfolding grows_def
    using g heads lhs str enc
    by (intro exI [of _ s] exI [of _ "lh' # hs"])
       (simp add: encbuf_list_def lh'_def lh_def enc_list_def)
qed

lemma enc_string_singleton [simp]: "enc_string [] = [0x80]" "enc_string [1] = [1]"
  by (simp_all add: enc_string_def puthead_def)

lemma enc_list_Nil [simp]: "enc_list [] = [0xC0]"
  by (simp add: enc_list_def puthead_def)

lemma length_le_enc_string: "length b \<le> length (enc_string b)"
  by (simp add: enc_string_def)

lemma length_le_enc_list: "length b < length (enc_list b)"
  by (simp add: enc_list_def headsize_def)

lemma enc_ref_no_panic: "enc_ref v \<noteq> Panic p" and enc_refs_no_panic: "enc_refs vs \<noteq> Panic p"
  by (induction v and vs rule: enc_ref_enc_refs.induct) (auto simp: bind_result_iffs)

lemma writer_grows:
  "enc_ref v = Ok b \<Longrightarrow> length b < 2 ^ 64 \<Longrightarrow> \<exists>w'. writer v w = Ok w' \<and> grows w w' b"
  and write_elems_grows:
  "enc_refs vs = Ok b \<Longrightarrow> length b < 2 ^ 64 \<Longrightarrow> \<exists>w'. write_elems vs w = Ok w' \<and> grows w w' b"
proof (induction v w and vs w arbitrary: b and b rule: writer_write_elems.induct)
  case (5 i w)
  have "length (be_bytes (nat i)) < 2 ^ 64"
    using 5 length_le_enc_string [of "be_bytes (nat i)"] by (auto split: if_splits)
  with 5 show ?case by (auto simp: writeBigInt_def encodeString_eq grows_emit split: if_splits)
next
  case (11 vs w)
  then obtain p where p: "enc_refs vs = Ok p" "b = enc_list p" by (auto simp: bind_result_iffs)
  with 11 length_le_enc_list [of p] have len: "length p < 2 ^ 64" by simp
  with 11 p obtain w2 where "write_elems vs (fst (encbuf_list w)) = Ok w2"
    "grows (fst (encbuf_list w)) w2 p" by (metis prod.collapse)
  with p len grows_list show ?case by (simp add: case_prod_beta)
next
  case (13 vs w)
  then obtain p where p: "enc_refs vs = Ok p" "b = enc_list p" by (auto simp: bind_result_iffs)
  with 13 length_le_enc_list [of p] have len: "length p < 2 ^ 64" by simp
  with 13 p obtain w2 where "write_elems vs (fst (encbuf_list w)) = Ok w2"
    "grows (fst (encbuf_list w)) w2 p" by (metis prod.collapse)
  with p len grows_list show ?case by (simp add: case_prod_beta)
next
  case (16 w)
  have "grows w (encbuf_listEnd (snd (encbuf_list w)) (fst (encbuf_list w))) (enc_list [])"
    by (rule grows_list [OF grows_refl]) simp
  with 16 show ?case by (simp add: case_prod_beta)
next
  case (19 v vs w)
  then obtain b1 b2 where b: "enc_ref v = Ok b1" "enc_refs vs = Ok b2" "b = b1 @ b2"
    by (auto simp: bind_result_iffs)
  with 19 obtain w1 where w1: "writer v w = Ok w1" "grows w w1 b1" by fastforce
  with 19 b obtain w2 where "write_elems vs w1 = Ok w2" "grows w1 w2 b2" by fastforce
  with b w1 show ?case by (auto intro: grows_trans)
qed (auto simp: grows_emit grows_refl writeUint_eq writeBool_def writeString_eq encodeString_eq
      intro!: grows_emit dest: order.strict_trans1 [OF length_le_enc_string])

lemma writer_outcome:
  "(\<forall>b. enc_ref v = Ok b \<longrightarrow> (\<exists>w'. writer v w = Ok w')) \<and> (\<forall>e. enc_ref v = Err e \<longrightarrow> writer v w = Err e)"
  and write_elems_outcome:
  "(\<forall>b. enc_refs vs = Ok b \<longrightarrow> (\<exists>w'. write_elems vs w = Ok w')) \<and>
   (\<forall>e. enc_refs vs = Err e \<longrightarrow> write_elems vs w = Err e)"
proof (induction v w and vs w rule: writer_write_elems.induct)
  case (19 v vs w)
  show ?case
  proof (cases "writer v w")
    case (Ok w1)
    with 19 show ?thesis
      by (cases "enc_ref v") (auto simp: bind_result_iffs enc_ref_no_panic)
  qed (use 19 in \<open>cases "enc_ref v"; auto simp: bind_result_iffs enc_ref_no_panic\<close>)+
qed (fastforce simp: bind_result_iffs writeBigInt_def split: prod.splits if_splits)+

lemma toBytes_loop_eq:
  "heads_ok strpos (length str) heads \<Longrightarrow> length out = pos \<Longrightarrow>
     length rest = length (weave str strpos heads) \<Longrightarrow>
     toBytes_loop str heads (out @ rest) strpos pos = Ok (out @ weave str strpos heads)"
proof (induction heads arbitrary: out rest strpos pos)
  case Nil
  then show ?case by (simp add: copy_at_append)
next
  case (Cons h hs)
  define piece where "piece = take (lh_offset h - strpos) (drop strpos str)"
  from Cons.prems have le: "strpos \<le> lh_offset h" "lh_offset h \<le> length str"
    by (auto dest: heads_ok_le)
  then have len: "length piece = lh_offset h - strpos" by (simp add: piece_def)
  have room: "length rest = length piece + length (listhead_encode h) + length (weave str (lh_offset h) hs)"
    using Cons.prems(3) by (simp add: piece_def)
  have copy: "copy_at (out @ rest) pos piece = (out @ piece) @ drop (length piece) rest"
    using Cons.prems(2) room by (simp add: copy_at_append)
  have enc: "poke ((out @ piece) @ drop (length piece) rest) (pos + length piece) (listhead_encode h)
      = (Ok (((out @ piece) @ listhead_encode h) @
            drop (length (listhead_encode h)) (drop (length piece) rest)) :: (rlp_error, bytes) result)"
    by (rule poke_append) (use Cons.prems(2) room in auto)
  have "toBytes_loop str hs (((out @ piece) @ listhead_encode h) @
        drop (length (listhead_encode h)) (drop (length piece) rest))
        (lh_offset h) (pos + length piece + length (listhead_encode h))
      = Ok (((out @ piece) @ listhead_encode h) @ weave str (lh_offset h) hs)"
    by (rule Cons.IH) (use Cons.prems room in auto)
  moreover have "min (length (out @ rest) - pos) (length piece) = length piece"
    using Cons.prems(2) room by simp
  moreover have "strpos + length piece = lh_offset h" using le len by simp
  ultimately show ?case
    using le copy enc by (simp add: Let_def piece_def [symmetric])
qed

lemma toWriter_loop_eq:
  "heads_ok strpos (length str) heads \<Longrightarrow> toWriter_loop str heads strpos = Ok (weave str strpos heads)"
proof (induction heads arbitrary: strpos)
  case (Cons h hs)
  then have "strpos \<le> lh_offset h" "lh_offset h \<le> length str" by (auto dest: heads_ok_le)
  with Cons show ?case by (cases "strpos < lh_offset h") auto
qed simp

lemma grows_reset:
  assumes "grows encbuf_reset w b"
  shows "toBytes w = Ok b" and "toWriter w = Ok b"
proof -
  from assms have ok: "heads_ok 0 (length (eb_str w)) (eb_lheads w)"
    and b: "weave (eb_str w) 0 (eb_lheads w) = b"
    by (auto simp: grows_def encbuf_reset_def)
  have "encbuf_size w = int (length b)"
    using grows_size [OF assms] by (simp add: encbuf_size_def encbuf_reset_def)
  with toBytes_loop_eq [OF ok, of "[]" 0 "replicate (length b) 0"] b
  show "toBytes w = Ok b" by (simp add: toBytes_def)
  from toWriter_loop_eq [OF ok] b show "toWriter w = Ok b" by (simp add: toWriter_def)
qed

lemma EncodeToBytes_enc_ref:
  assumes "enc_ref v = Ok b" "length b < 2 ^ 64" "\<not> nil_arg v"
  shows "EncodeToBytes v = Ok b" and "Encode (OtherWriter out) v = Ok (OtherWriter (out @ b))"
proof -
  from writer_grows [OF assms(1,2)] obtain w where "writer v encbuf_reset = Ok w" "grows encbuf_reset w b"
    by blast
  with grows_reset assms(3) show "EncodeToBytes v = Ok b" "Encode (OtherWriter out) v = Ok (OtherWriter (out @ b))"
    by (simp_all add: EncodeToBytes_def encbuf_encode_def)
qed

text \<open>What a buffer holds, once its list headers are put in place.\<close>

definition encbuf_content :: "encbuf \<Rightarrow> bytes" where
  "encbuf_content w = weave (eb_str w) 0 (eb_lheads w)"

definition encbuf_ok :: "encbuf \<Rightarrow> bool" where
  "encbuf_ok w \<longleftrightarrow> heads_ok 0 (length (eb_str w)) (eb_lheads w)"

lemma grows_content:
  assumes "grows w w' b" "encbuf_ok w"
  shows "encbuf_ok w'" "encbuf_content w' = encbuf_content w @ b"
proof -
  from assms(1) obtain s hs where g: "eb_str w' = eb_str w @ s" "eb_lheads w' = eb_lheads w @ hs"
    "heads_ok (length (eb_str w)) (length (eb_str w')) hs" "weave (eb_str w') (length (eb_str w)) hs = b"
    by (auto simp: grows_def)
  then show "encbuf_ok w'" "encbuf_content w' = encbuf_content w @ b"
    using assms(2) weave_append [of 0 "eb_str w" "eb_lheads w" s hs] heads_ok_append [of 0 "length (eb_str w)" "eb_lheads w"]
    by (simp_all add: encbuf_ok_def encbuf_content_def)
qed

text \<open>C1. The two-part encode buffer computes the reference encoding. A nil interface as argument panics,
  whatever the destination. For every other value, whenever the rules give it an encoding of
  representable length, \<open>EncodeToBytes\<close> returns exactly those bytes (its preallocated output is filled
  without an out-of-range write and without a gap), \<open>Encode\<close> appends the same bytes to a writer, and
  \<open>Encode\<close> on the buffer of an outer call extends what that buffer holds by them; when the rules
  reject the value all three return that error. Booleans are covered: the code writes them as the
  integers 0 and 1, although the comment on \<open>Encode\<close> calls them unsupported.\<close>

theorem EncodeToBytes_correct:
  assumes "\<And>b. enc_ref v = Ok b \<Longrightarrow> length b < 2 ^ 64" "encbuf_ok outer"
  shows "if nil_arg v then
      \<exists>p. EncodeToBytes v = Panic p \<and> Encode (OtherWriter out) v = Panic p \<and> Encode (OuterBuf outer) v = Panic p
    else case enc_ref v of
      Ok b \<Rightarrow> EncodeToBytes v = Ok b \<and> Encode (OtherWriter out) v = Ok (OtherWriter (out @ b)) \<and>
        (\<exists>w. Encode (OuterBuf outer) v = Ok (OuterBuf w) \<and> encbuf_ok w \<and> encbuf_content w = encbuf_content outer @ b)
    | Err e \<Rightarrow> EncodeToBytes v = Err e \<and> Encode (OtherWriter out) v = Err e \<and> Encode (OuterBuf outer) v = Err e
    | Panic p \<Rightarrow> False"
proof (cases "enc_ref v")
  case (Ok b)
  obtain w where "writer v outer = Ok w" "grows outer w b"
    using writer_grows [OF Ok assms(1) [OF Ok]] by blast
  with Ok assms EncodeToBytes_enc_ref [of v b] grows_content [of outer w b] show ?thesis
    by (auto simp: encbuf_encode_def EncodeToBytes_def)
next
  case (Err e)
  with writer_outcome [of v encbuf_reset] writer_outcome [of v outer] show ?thesis
    by (simp add: EncodeToBytes_def encbuf_encode_def)
qed (simp add: enc_ref_no_panic)

text \<open>A struct of an integer, a short and a one-byte string, encoded.\<close>

lemma enc_ref_sample:
  "enc_ref (VStruct [VUint 1024, VBytes [0xAA, 0xBB, 0xCC], VSlice [VBool True]])
    = Ok [0xC9, 0x82, 4, 0, 0x83, 0xAA, 0xBB, 0xCC, 0xC1, 1]"
proof -
  have "be_bytes 1024 = [4, 0]"
    by (simp add: be_bytes_unfold)
  then show ?thesis
    by (simp add: enc_string_def enc_list_def puthead_def)
qed

theorem EncodeToBytes_correct_witness:
  "EncodeToBytes (VStruct [VUint 1024, VBytes [0xAA, 0xBB, 0xCC], VSlice [VBool True]])
    = Ok [0xC9, 0x82, 4, 0, 0x83, 0xAA, 0xBB, 0xCC, 0xC1, 1]"
  using EncodeToBytes_correct [of "VStruct [VUint 1024, VBytes [0xAA, 0xBB, 0xCC], VSlice [VBool True]]" encbuf_reset "[]"]
  unfolding enc_ref_sample by (simp add: encbuf_ok_def encbuf_reset_def)

section \<open>Reading an encoding piecewise\<close>

declare encReader_Read.simps [simp del]

text \<open>What a reader has still to deliver, and that its positions are within the buffer.\<close>

definition encReader_rest :: "encReader \<Rightarrow> bytes" where
  "encReader_rest r = (case er_buf r of None \<Rightarrow> [] | Some buf \<Rightarrow>
     (case er_piece r of None \<Rightarrow> [] | Some p \<Rightarrow> p) @
     weave (eb_str buf) (er_strpos r) (drop (er_lhpos r) (eb_lheads buf)))"

definition encReader_ok :: "encReader \<Rightarrow> bool" where
  "encReader_ok r = (case er_buf r of None \<Rightarrow> True | Some buf \<Rightarrow>
     heads_ok (er_strpos r) (length (eb_str buf)) (drop (er_lhpos r) (eb_lheads buf)))"

lemma encReader_ok_piece [simp]: "encReader_ok (r\<lparr>er_piece := x\<rparr>) = encReader_ok r"
  by (auto simp: encReader_ok_def split: option.splits)

lemma encReader_next_Some:
  assumes "encReader_ok r"
  obtains p r1 where "encReader_next r = Ok (Some p, r1)" "encReader_ok r1"
      "encReader_rest r = p @ encReader_rest (r1\<lparr>er_piece := None\<rparr>)" "er_buf r1 \<noteq> None"
    | "encReader_next r = Ok (None, r)" "encReader_rest r = []"
proof (cases "er_buf r")
  case None
  then show ?thesis using that(2) by (simp add: encReader_next_def encReader_rest_def)
next
  case (Some buf)
  note buf = this
  show ?thesis
  proof (cases "er_piece r")
    case (Some p)
    with buf assms show ?thesis using that(1)
      by (simp add: encReader_next_def encReader_rest_def)
  next
    case None
    show ?thesis
    proof (cases "er_lhpos r < length (eb_lheads buf)")
      case True
      define h where "h = eb_lheads buf ! er_lhpos r"
      have drop: "drop (er_lhpos r) (eb_lheads buf) = h # drop (Suc (er_lhpos r)) (eb_lheads buf)"
        using True by (simp add: h_def Cons_nth_drop_Suc)
      with assms buf have "er_strpos r \<le> lh_offset h" "lh_offset h \<le> length (eb_str buf)"
        and ok: "heads_ok (lh_offset h) (length (eb_str buf)) (drop (Suc (er_lhpos r)) (eb_lheads buf))"
        by (auto simp: encReader_ok_def dest: heads_ok_le)
      then show ?thesis using that(1) True None buf drop
        by (cases "er_strpos r < lh_offset h")
           (auto simp: encReader_next_def encReader_rest_def encReader_ok_def Let_def
              h_def [symmetric])
    next
      case False
      then show ?thesis using that None buf
        by (cases "er_strpos r < length (eb_str buf)")
           (auto simp: encReader_next_def encReader_rest_def encReader_ok_def)
    qed
  qed
qed

lemma encReader_Read_spec:
  "encReader_ok r \<Longrightarrow> \<exists>got eof r'. encReader_Read room out r = Ok (out @ got, eof, r') \<and>
     encReader_ok r' \<and> encReader_rest r = got @ encReader_rest r' \<and>
     length got \<le> room \<and>
     (eof \<longrightarrow> encReader_rest r' = []) \<and> (\<not> eof \<longrightarrow> length got = room)"
proof (induction room out r rule: encReader_Read.induct)
  case (1 room out r)
  note IH = "1.IH"
  from 1(2) show ?case
  proof (cases rule: encReader_next_Some)
    case (1 p r1)
    show ?thesis
    proof (cases "room < length p")
      case True
      have "encReader_rest (r1\<lparr>er_piece := Some (drop room p)\<rparr>)
          = drop room p @ encReader_rest (r1\<lparr>er_piece := None\<rparr>)"
        using 1(4) by (auto simp: encReader_rest_def)
      with True 1 show ?thesis
        by (intro exI [of _ "take room p"] exI [of _ False]
            exI [of _ "r1\<lparr>er_piece := Some (drop room p)\<rparr>"])
           (simp add: encReader_Read.simps [of room out r])
    next
      case False
      then have nn: "min room (length p) = length p" "\<not> min room (length p) < length p" by auto
      have ok: "encReader_ok (r1\<lparr>er_piece := None\<rparr>)" using 1(2) by simp
      obtain got eof r' where
        "encReader_Read (room - length p) (out @ p) (r1\<lparr>er_piece := None\<rparr>) = Ok ((out @ p) @ got, eof, r')"
        "encReader_ok r'" "encReader_rest (r1\<lparr>er_piece := None\<rparr>) = got @ encReader_rest r'"
        "length got \<le> room - length p"
        "eof \<longrightarrow> encReader_rest r' = []" "\<not> eof \<longrightarrow> length got = room - length p"
        using IH [OF 1(1) refl refl refl nn(2) ok] nn(1) by auto
      with 1 False show ?thesis
        by (intro exI [of _ "p @ got"] exI [of _ eof] exI [of _ r'])
           (auto simp: encReader_Read.simps [of room out r] min_def)
    qed
  next
    case 2
    then show ?thesis
      by (auto simp: encReader_Read.simps [of room out r] encReader_rest_def encReader_ok_def)
  qed
qed

text \<open>C2. Reading an encoding in pieces: \<open>EncodeToReader\<close> announces the length of the encoding,
  and a call of \<open>Read\<close> with a destination of any size on a reader that still has \<open>rest\<close> to
  deliver terminates without a panic, delivers a prefix of \<open>rest\<close> that fits the destination, leaves a reader for the
  remainder, fills the destination unless it reports end of file, and reports end of file only
  when everything has been delivered. The first reader has the whole encoding to deliver. The value
  is not the nil interface, on which \<open>EncodeToReader\<close> panics like \<open>EncodeToBytes\<close>.\<close>

theorem EncodeToReader_Read_correct:
  assumes "enc_ref v = Ok b" "length b < 2 ^ 64" "\<not> nil_arg v"
  shows "\<exists>r0. EncodeToReader v = Ok (int (length b), r0) \<and> encReader_ok r0 \<and> encReader_rest r0 = b \<and>
    (\<forall>r room. encReader_ok r \<longrightarrow>
      (\<exists>got eof r'. encReader_Read room [] r = Ok (got, eof, r') \<and> encReader_ok r' \<and>
        encReader_rest r = got @ encReader_rest r' \<and>
        length got \<le> room \<and>
     (eof \<longrightarrow> encReader_rest r' = []) \<and> (\<not> eof \<longrightarrow> length got = room)))"
proof -
  from writer_grows [OF assms(1,2)] obtain w where w: "writer v encbuf_reset = Ok w" "grows encbuf_reset w b"
    by blast
  then have "encbuf_size w = int (length b)"
    using grows_size [OF w(2)] by (simp add: encbuf_size_def encbuf_reset_def)
  moreover from w(2) have "heads_ok 0 (length (eb_str w)) (eb_lheads w)"
    "weave (eb_str w) 0 (eb_lheads w) = b"
    by (auto simp: grows_def encbuf_reset_def)
  moreover define r0 where
    "r0 = \<lparr>er_buf = Some w, er_lhpos = 0, er_strpos = 0, er_piece = None\<rparr>"
  ultimately have "EncodeToReader v = Ok (int (length b), r0)" "encReader_ok r0" "encReader_rest r0 = b"
    using w(1) assms(3) by (simp_all add: EncodeToReader_def encbuf_encode_def encReader_ok_def encReader_rest_def)
  with encReader_Read_spec [of _ _ "[]"] show ?thesis
    by (intro exI [of _ r0]) simp
qed

theorem EncodeToReader_Read_correct_witness:
  "\<exists>r0 r1. EncodeToReader (VStruct [VUint 1024, VBytes [0xAA, 0xBB, 0xCC], VSlice [VBool True]])
      = Ok (10, r0) \<and> encReader_Read 4 [] r0 = Ok ([0xC9, 0x82, 4, 0], False, r1)"
proof -
  from EncodeToReader_Read_correct [OF enc_ref_sample] obtain r0 where
    r0: "EncodeToReader (VStruct [VUint 1024, VBytes [0xAA, 0xBB, 0xCC], VSlice [VBool True]]) = Ok (10, r0)"
      "encReader_rest r0 = [0xC9, 0x82, 4, 0, 0x83, 0xAA, 0xBB, 0xCC, 0xC1, 1]"
    and rd: "\<exists>got eof r'. encReader_Read 4 [] r0 = Ok (got, eof, r') \<and> encReader_ok r' \<and>
      encReader_rest r0 = got @ encReader_rest r' \<and> length got \<le> 4 \<and>
      (eof \<longrightarrow> encReader_rest r' = []) \<and> (\<not> eof \<longrightarrow> length got = 4)"
    by auto
  from rd obtain got eof r' where g: "encReader_Read 4 [] r0 = Ok (got, eof, r')"
    "encReader_rest r0 = got @ encReader_rest r'" "length got \<le> 4"
    "eof \<longrightarrow> encReader_rest r' = []" "\<not> eof \<longrightarrow> length got = 4" by blast
  have "\<not> eof" using g(2-4) r0(2) by (cases eof) auto
  moreover have "got = take 4 (encReader_rest r0)" using g(2,5) calculation by simp
  ultimately show ?thesis using g(1) r0 by simp
qed

end
