(* ===== verification/Rlp_Raw.thy ===== *)
theory Rlp_Raw
  imports Rlp_Encode
begin

unbundle bit_operations_syntax

text \<open>
  The slice-based RLP readers of \<open>rlp/raw.go\<close>: \<open>readSize\<close>, \<open>readKind\<close>, \<open>Split\<close> and its string
  and list variants, \<open>CountValues\<close> and \<open>ListSize\<close>. On an error the Go functions also return
  their argument; the model returns the error alone.
\<close>

section \<open>Definitions\<close>

datatype kind = Byte | String | List

definition ListSize :: "uint64 \<Rightarrow> uint64" where
  "ListSize contentSize = of_nat (headsize contentSize) + contentSize"

text \<open>\<open>w64\<close> is the conversion \<open>uint64(b)\<close>.\<close>

abbreviation w64 :: "byte \<Rightarrow> uint64" where
  "w64 b \<equiv> ucast b"

definition readSize :: "bytes \<Rightarrow> byte \<Rightarrow> (rlp_error, uint64) result" where
  "readSize b slen =
    (if unat slen > length b then Err ErrUnexpectedEOF
     else
       let s =
         (if slen = 1 then w64 (b ! 0)
          else if slen = 2 then push_bit 8 (w64 (b ! 0)) OR w64 (b ! 1)
          else if slen = 3 then
            push_bit 16 (w64 (b ! 0)) OR push_bit 8 (w64 (b ! 1)) OR w64 (b ! 2)
          else if slen = 4 then
            push_bit 24 (w64 (b ! 0)) OR push_bit 16 (w64 (b ! 1)) OR push_bit 8 (w64 (b ! 2))
              OR w64 (b ! 3)
          else if slen = 5 then
            push_bit 32 (w64 (b ! 0)) OR push_bit 24 (w64 (b ! 1)) OR push_bit 16 (w64 (b ! 2))
              OR push_bit 8 (w64 (b ! 3)) OR w64 (b ! 4)
          else if slen = 6 then
            push_bit 40 (w64 (b ! 0)) OR push_bit 32 (w64 (b ! 1)) OR push_bit 24 (w64 (b ! 2))
              OR push_bit 16 (w64 (b ! 3)) OR push_bit 8 (w64 (b ! 4)) OR w64 (b ! 5)
          else if slen = 7 then
            push_bit 48 (w64 (b ! 0)) OR push_bit 40 (w64 (b ! 1)) OR push_bit 32 (w64 (b ! 2))
              OR push_bit 24 (w64 (b ! 3)) OR push_bit 16 (w64 (b ! 4)) OR push_bit 8 (w64 (b ! 5))
              OR w64 (b ! 6)
          else if slen = 8 then
            push_bit 56 (w64 (b ! 0)) OR push_bit 48 (w64 (b ! 1)) OR push_bit 40 (w64 (b ! 2))
              OR push_bit 32 (w64 (b ! 3)) OR push_bit 24 (w64 (b ! 4)) OR push_bit 16 (w64 (b ! 5))
              OR push_bit 8 (w64 (b ! 6)) OR w64 (b ! 7)
          else 0)
       in if s < 56 then Err ErrCanonSize
          else bind_result (index b 0) (\<lambda>b0. if b0 = 0 then Err ErrCanonSize else Ok s))"

definition readKind :: "bytes \<Rightarrow> (rlp_error, kind \<times> uint64 \<times> uint64) result" where
  "readKind buf =
    (if length buf = 0 then Err ErrUnexpectedEOF
     else
       let b = buf ! 0;
           r = (if b < 0x80 then Ok (Byte, 0, 1)
                else if b < 0xB8 then
                  let contentsize = w64 (b - 0x80) in
                  if contentsize = 1 then
                    bind_result (index buf 1) (\<lambda>b1.
                      if b1 < 128 then Err ErrCanonSize else Ok (String, 1, contentsize))
                  else Ok (String, 1, contentsize)
                else if b < 0xC0 then
                  bind_result (readSize (drop 1 buf) (b - 0xB7))
                    (\<lambda>contentsize. Ok (String, w64 (b - 0xB7) + 1, contentsize))
                else if b < 0xF8 then Ok (List, 1, w64 (b - 0xC0))
                else
                  bind_result (readSize (drop 1 buf) (b - 0xF7))
                    (\<lambda>contentsize. Ok (List, w64 (b - 0xF7) + 1, contentsize)))
       in bind_result r (\<lambda>(k, tagsize, contentsize).
            if contentsize > of_nat (length buf) - tagsize then Err ErrValueTooLarge
            else Ok (k, tagsize, contentsize)))"

definition Split :: "bytes \<Rightarrow> (rlp_error, kind \<times> bytes \<times> bytes) result" where
  "Split b =
    bind_result (readKind b) (\<lambda>(k, ts, cs).
    bind_result (slice b (unat ts) (unat (ts + cs))) (\<lambda>content.
    bind_result (slice b (unat (ts + cs)) (length b)) (\<lambda>rest.
    Ok (k, content, rest))))"

definition SplitString :: "bytes \<Rightarrow> (rlp_error, bytes \<times> bytes) result" where
  "SplitString b =
    bind_result (Split b) (\<lambda>(k, content, rest).
      if k = List then Err ErrExpectedString else Ok (content, rest))"

definition SplitList :: "bytes \<Rightarrow> (rlp_error, bytes \<times> bytes) result" where
  "SplitList b =
    bind_result (Split b) (\<lambda>(k, content, rest).
      if k \<noteq> List then Err ErrExpectedList else Ok (content, rest))"

text \<open>
  The loop of \<open>CountValues\<close> on the remaining input. The Go loop advances by \<open>tagsize+size\<close>, a
  machine sum, so that it returns needs an argument (\<open>CountValues_items\<close> below); \<open>None\<close> stands
  for a loop that never returns.
\<close>

partial_function (option) CountValues_loop ::
  "bytes \<Rightarrow> nat \<Rightarrow> (rlp_error, nat) result option" where
  "CountValues_loop b i =
    (if length b > 0 then
       (case readKind b of
          Ok r \<Rightarrow>
            (case slice b (unat (fst (snd r) + snd (snd r))) (length b) of
               Ok b' \<Rightarrow> CountValues_loop b' (i + 1)
             | Err e \<Rightarrow> Some (Err e)
             | Panic p \<Rightarrow> Some (Panic p))
        | Err e \<Rightarrow> Some (Err e)
        | Panic p \<Rightarrow> Some (Panic p))
     else Some (Ok i))"

definition CountValues :: "bytes \<Rightarrow> (rlp_error, nat) result option" where
  "CountValues b = CountValues_loop b 0"

section \<open>Size fields\<close>

text \<open>Horner's scheme on words: the value the shifts and ors of \<open>readSize\<close> compute.\<close>

definition be64 :: "bytes \<Rightarrow> uint64" where
  "be64 bs = foldl (\<lambda>a b. push_bit 8 a OR w64 b) 0 bs"

lemma be64_snoc: "be64 (bs @ [b]) = push_bit 8 (be64 bs) OR w64 b"
  by (simp add: be64_def)

lemma push_or_byte: "push_bit 8 x OR w64 b = 256 * x + w64 b"
proof -
  have "push_bit 8 x AND w64 b = 0"
    by (rule bit_word_eqI) (auto simp: bit_simps dest: bit_imp_le_length)
  then have "push_bit 8 x OR w64 b = push_bit 8 x + w64 b"
    by (simp add: disjunctive_add_eq_or)
  then show ?thesis by (simp add: push_bit_eq_mult mult.commute)
qed

lemma be64_be_val: "be64 bs = of_nat (be_val bs)"
proof (induction bs rule: rev_induct)
  case (snoc b bs)
  then show ?case by (simp add: be64_snoc push_or_byte)
qed (simp add: be64_def)

lemma be64_nth:
  "be64 [a] = w64 a"
  "be64 [a, b] = push_bit 8 (w64 a) OR w64 b"
  "be64 [a, b, c] = push_bit 16 (w64 a) OR push_bit 8 (w64 b) OR w64 c"
  "be64 [a, b, c, d] = push_bit 24 (w64 a) OR push_bit 16 (w64 b) OR push_bit 8 (w64 c) OR w64 d"
  "be64 [a, b, c, d, e] = push_bit 32 (w64 a) OR push_bit 24 (w64 b) OR push_bit 16 (w64 c)
     OR push_bit 8 (w64 d) OR w64 e"
  "be64 [a, b, c, d, e, f] = push_bit 40 (w64 a) OR push_bit 32 (w64 b) OR push_bit 24 (w64 c)
     OR push_bit 16 (w64 d) OR push_bit 8 (w64 e) OR w64 f"
  "be64 [a, b, c, d, e, f, g] = push_bit 48 (w64 a) OR push_bit 40 (w64 b) OR push_bit 32 (w64 c)
     OR push_bit 24 (w64 d) OR push_bit 16 (w64 e) OR push_bit 8 (w64 f) OR w64 g"
  "be64 [a, b, c, d, e, f, g, h] = push_bit 56 (w64 a) OR push_bit 48 (w64 b)
     OR push_bit 40 (w64 c) OR push_bit 32 (w64 d) OR push_bit 24 (w64 e) OR push_bit 16 (w64 f)
     OR push_bit 8 (w64 g) OR w64 h"
  by (simp_all add: be64_def push_bit_or or.assoc)

lemma take_eq_nths: "n \<le> length b \<Longrightarrow> take n b = map (\<lambda>i. b ! i) [0..<n]"
  by (intro nth_equalityI) auto

lemma upt_0_numeral:
  "[0..<1] = [0]" "[0..<2] = [0, 1]" "[0..<3] = [0, 1, 2]" "[0..<4] = [0, 1, 2, 3]"
  "[0..<5] = [0, 1, 2, 3, 4]" "[0..<6] = [0, 1, 2, 3, 4, 5]" "[0..<7] = [0, 1, 2, 3, 4, 5, 6]"
  "[0..<8] = [0, 1, 2, 3, 4, 5, 6, 7]"
  by (simp_all add: upt_rec_numeral upt_conv_Cons eval_nat_numeral)

lemma readSize_value:
  assumes "1 \<le> unat slen" "unat slen \<le> 8" "unat slen \<le> length b"
  shows "readSize b slen =
    (let s = of_nat (be_val (take (unat slen) b))
     in if s < 56 \<or> b ! 0 = 0 then Err ErrCanonSize else Ok s)"
proof -
  have slen: "slen = of_nat (unat slen)" by simp
  have nth: "index b 0 = Ok (b ! 0)" using assms by (intro index_Ok) linarith
  let ?R = "\<lambda>s. if s < 56 \<or> b ! 0 = 0 then Err ErrCanonSize else Ok s"
  have "readSize b slen = ?R (be64 (map (\<lambda>i. b ! i) [0..<unat slen]))"
  proof -
    consider "unat slen = 1" | "unat slen = 2" | "unat slen = 3" | "unat slen = 4"
      | "unat slen = 5" | "unat slen = 6" | "unat slen = 7" | "unat slen = 8"
      using assms(1,2) by linarith
    then show ?thesis
    proof cases
      case 1
      with slen have "slen = 1" by simp
      then show ?thesis using assms(3) by (auto simp: readSize_def be64_nth nth Let_def)
    next
      case 2
      with slen have "slen = 2" by simp
      then show ?thesis using assms(3) by (simp add: readSize_def be64_nth nth Let_def upt_0_numeral)
    next
      case 3
      with slen have "slen = 3" by simp
      then show ?thesis using assms(3) by (simp add: readSize_def be64_nth nth Let_def upt_0_numeral)
    next
      case 4
      with slen have "slen = 4" by simp
      then show ?thesis using assms(3) by (simp add: readSize_def be64_nth nth Let_def upt_0_numeral)
    next
      case 5
      with slen have "slen = 5" by simp
      then show ?thesis using assms(3) by (simp add: readSize_def be64_nth nth Let_def upt_0_numeral)
    next
      case 6
      with slen have "slen = 6" by simp
      then show ?thesis using assms(3) by (simp add: readSize_def be64_nth nth Let_def upt_0_numeral)
    next
      case 7
      with slen have "slen = 7" by simp
      then show ?thesis using assms(3) by (simp add: readSize_def be64_nth nth Let_def upt_0_numeral)
    next
      case 8
      with slen have "slen = 8" by simp
      then show ?thesis using assms(3) by (simp add: readSize_def be64_nth nth Let_def upt_0_numeral)
    qed
  qed
  then show ?thesis
    unfolding be64_be_val [symmetric] take_eq_nths [OF assms(3)] by (simp add: Let_def)
qed

lemma unat_of_nat_64 [simp]: "n < 2 ^ 64 \<Longrightarrow> unat (of_nat n :: uint64) = n"
  by (simp add: unat_of_nat take_bit_nat_eq_self)

lemma length_putint: "1 \<le> length (putint s) \<and> length (putint s) \<le> 8"
proof (cases "s = 0")
  case False
  have "unat s < 256 ^ 8" using unsigned_less [of s] by simp
  then have "length (be_bytes (unat s)) \<le> 8" by (simp only: length_be_bytes_le_iff)
  with False show ?thesis
    by (simp add: putint_be_bytes Suc_le_eq unat_eq_zero)
qed simp

lemma readSize_Ok_iff:
  assumes "1 \<le> unat slen" "unat slen \<le> 8"
  shows "readSize b slen = Ok s \<longleftrightarrow>
    56 \<le> s \<and> unat slen = length (putint s) \<and> (\<exists>rest. b = putint s @ rest)" (is "_ \<longleftrightarrow> ?R")
proof (cases "unat slen \<le> length b")
  case True
  define d where "d = take (unat slen) b"
  have d: "length d = unat slen" "d \<noteq> []" "hd d = b ! 0" "b = d @ drop (unat slen) b"
    using True assms by (cases b; auto simp: d_def)+
  have "be_val d < 256 ^ 8"
    using be_val_less [of d] power_increasing [of "unat slen" 8 "256::nat"] assms d(1) by simp
  then have lt: "be_val d < 2 ^ 64" by simp
  have eq: "readSize b slen = (if of_nat (be_val d) < (56 :: uint64) \<or> hd d = 0 then Err ErrCanonSize
      else Ok (of_nat (be_val d)))"
    using readSize_value [OF assms True] by (simp add: d_def [symmetric] d(3) Let_def)
  show ?thesis
  proof
    assume "readSize b slen = Ok s"
    with eq have s: "s = of_nat (be_val d)" "56 \<le> s" "hd d \<noteq> 0" by (auto split: if_splits)
    then have "unat s = be_val d" "s \<noteq> 0" using lt by auto
    then have "putint s = d" using s(3) by (simp add: putint_be_bytes be_bytes_be_val)
    with s d show ?R by metis
  next
    assume R: ?R
    then have "d = putint s" by (auto simp: d_def)
    moreover have "s \<noteq> 0" using R by auto
    ultimately have "d = be_bytes (unat s)" "hd d \<noteq> 0" "of_nat (be_val d) = s"
      by (simp_all add: putint_be_bytes hd_be_bytes unat_eq_zero)
    with eq R show "readSize b slen = Ok s" by (simp add: not_less)
  qed
next
  case False
  then show ?thesis by (auto simp: readSize_def)
qed

lemma readSize_no_panic:
  assumes "1 \<le> unat slen" "unat slen \<le> 8"
  shows "readSize b slen \<noteq> Panic p"
proof (cases "unat slen \<le> length b")
  case True
  then show ?thesis using readSize_value [OF assms True] by (simp add: Let_def)
qed (simp add: readSize_def)

section \<open>Items\<close>

text \<open>The encoding of an item of kind \<open>k\<close> with content \<open>c\<close>: its tag and its bytes.\<close>

fun item_tag :: "kind \<Rightarrow> bytes \<Rightarrow> bytes" where
  "item_tag Byte c = []"
| "item_tag String c = puthead 0x80 0xB7 (of_nat (length c))"
| "item_tag List c = puthead 0xC0 0xF7 (of_nat (length c))"

fun item_ok :: "kind \<Rightarrow> bytes \<Rightarrow> bool" where
  "item_ok Byte c = (length c = 1 \<and> hd c < 0x80)"
| "item_ok String c = (\<not> (length c = 1 \<and> hd c < 0x80))"
| "item_ok List c = True"

lemma enc_string_item: "enc_string c = item_tag (if length c = 1 \<and> hd c < 0x80 then Byte else String) c @ c"
  by (simp add: enc_string_def)

lemma enc_list_item: "enc_list c = item_tag List c @ c"
  by (simp add: enc_list_def)

text \<open>The tag switch of \<open>readKind\<close>, before the comparison with the input length.\<close>

definition raw_tag :: "bytes \<Rightarrow> (rlp_error, kind \<times> uint64 \<times> uint64) result" where
  "raw_tag buf =
    (let b = hd buf in
     if b < 0x80 then Ok (Byte, 0, 1)
     else if b < 0xB8 then
       if b = 0x81 then
         bind_result (index buf 1) (\<lambda>b1. if b1 < 128 then Err ErrCanonSize else Ok (String, 1, 1))
       else Ok (String, 1, w64 (b - 0x80))
     else if b < 0xC0 then
       bind_result (readSize (tl buf) (b - 0xB7))
         (\<lambda>contentsize. Ok (String, w64 (b - 0xB7) + 1, contentsize))
     else if b < 0xF8 then Ok (List, 1, w64 (b - 0xC0))
     else
       bind_result (readSize (tl buf) (b - 0xF7))
         (\<lambda>contentsize. Ok (List, w64 (b - 0xF7) + 1, contentsize)))"

lemma unat_word_inverse: "of_nat (unat (x :: 'a :: len word)) = x"
  by simp

lemma unat_w64 [simp]: "unat (w64 b) = unat b"
  using unat_byte_less [of b] by (simp add: unsigned_ucast_eq take_bit_nat_eq_self)

lemma unat_ucast_byte: "unat (ucast (i :: uint64) :: byte) = unat i mod 256"
  by (simp add: unsigned_ucast_eq take_bit_eq_mod)

lemma unat_byte_sub: "c \<le> b \<Longrightarrow> unat (b - c :: byte) = unat b - unat c"
  by (simp add: unat_sub word_le_nat_alt)

lemma w64_sub_1: "w64 (b - 0x80) = 1 \<longleftrightarrow> b = 0x81"
proof
  assume "w64 (b - 0x80) = 1"
  then have "unat (b - 0x80) = 1" by (metis unat_w64 unat_1)
  then have "b - 0x80 = 1" by (simp add: word_unat_eq_iff)
  then show "b = 0x81" by (simp add: diff_eq_eq)
qed simp

lemma readKind_raw_tag:
  "buf \<noteq> [] \<Longrightarrow> readKind buf = bind_result (raw_tag buf) (\<lambda>(k, ts, cs).
     if cs > of_nat (length buf) - ts then Err ErrValueTooLarge else Ok (k, ts, cs))"
  by (cases buf; cases "hd buf = 0x81") (simp_all add: readKind_def raw_tag_def Let_def w64_sub_1)

lemma unat_tag:
  assumes "n + unat t < 256"
  shows "unat (t + of_nat n :: byte) = unat t + n"
  using assms by (simp add: unat_word_ariths)

lemma unat_hd_puthead:
  assumes "unat small \<le> 0xC0" "unat large \<le> 0xF7"
  shows "unat (hd (puthead small large sz)) =
    (if sz < 56 then unat small + unat sz else unat large + length (putint sz))"
proof (cases "sz < 56")
  case True
  then have sz: "unat sz < 56" by (simp add: word_less_nat_alt)
  have "unat (ucast sz :: byte) = unat sz" using sz by (simp add: unat_ucast_byte)
  with True sz assms(1) show ?thesis by (simp add: puthead_def unat_word_ariths)
next
  case False
  then show ?thesis
    using assms(2) length_putint [of sz] unat_tag [of "length (putint sz)" large]
    by (simp add: puthead_def Let_def)
qed

lemma unat_hd_tags:
  "unat (hd (puthead 0x80 0xB7 sz)) = (if sz < 56 then 0x80 + unat sz else 0xB7 + length (putint sz))"
  "unat (hd (puthead 0xC0 0xF7 sz)) = (if sz < 56 then 0xC0 + unat sz else 0xF7 + length (putint sz))"
  by (simp_all add: unat_hd_puthead)

lemma tag_small:
  assumes "s \<le> b" "unat b < unat s + 56"
  shows "w64 (b - s) < 56" and "puthead s l (w64 (b - s)) = [b]" and "headsize (w64 (b - s)) = 1"
proof -
  have u: "unat (b - s) = unat b - unat s" using assms(1) by (rule unat_byte_sub)
  then show lt: "w64 (b - s) < 56" using assms by (simp add: word_less_nat_alt word_le_nat_alt)
  have "ucast (w64 (b - s)) = b - s"
    using unat_byte_less [of "b - s"] by (simp add: word_unat_eq_iff unat_ucast_byte)
  with lt show "puthead s l (w64 (b - s)) = [b]" "headsize (w64 (b - s)) = 1"
    by (simp_all add: puthead_def headsize_def)
qed

lemma headsize_large: "56 \<le> sz \<Longrightarrow> headsize sz = 1 + length (putint sz)"
  by (simp add: headsize_def intsize_eq not_less [symmetric])

lemma puthead_large: "56 \<le> sz \<Longrightarrow> puthead s l sz = (l + of_nat (length (putint sz))) # putint sz"
  by (simp add: puthead_def Let_def not_less [symmetric])

lemma tag_large:
  assumes "l < b" "unat b \<le> unat l + 8"
  shows "readSize t (b - l) = Ok cs \<longleftrightarrow> 56 \<le> cs \<and> (\<exists>rest. b # t = puthead s l cs @ rest)"
    and "readSize t (b - l) = Ok cs \<Longrightarrow> w64 (b - l) + 1 = of_nat (headsize cs)"
proof -
  have u: "unat (b - l) = unat b - unat l" using assms(1) by (intro unat_byte_sub) simp
  then have r: "1 \<le> unat (b - l)" "unat (b - l) \<le> 8" using assms by (auto simp: word_less_nat_alt)
  have len: "unat (b - l) = length (putint cs) \<longleftrightarrow> b = l + of_nat (length (putint cs))"
  proof
    assume "unat (b - l) = length (putint cs)"
    then have "of_nat (length (putint cs)) = b - l" by (metis unat_word_inverse)
    then show "b = l + of_nat (length (putint cs))" by simp
  next
    assume "b = l + of_nat (length (putint cs))"
    then show "unat (b - l) = length (putint cs)" using length_putint [of cs] by simp
  qed
  show "readSize t (b - l) = Ok cs \<longleftrightarrow> 56 \<le> cs \<and> (\<exists>rest. b # t = puthead s l cs @ rest)"
    using readSize_Ok_iff [OF r] len by (auto simp: puthead_large)
  assume "readSize t (b - l) = Ok cs"
  then have "56 \<le> cs" "unat (b - l) = length (putint cs)" using readSize_Ok_iff [OF r] by auto
  moreover have "w64 (b - l) = of_nat (unat (b - l))" by (metis unat_w64 unat_word_inverse)
  ultimately show "w64 (b - l) + 1 = of_nat (headsize cs)"
    by (simp add: headsize_large)
qed

lemma raw_tag_Byte:
  assumes "buf \<noteq> []"
  shows "raw_tag buf = Ok (Byte, ts, cs) \<longleftrightarrow> hd buf < 0x80 \<and> ts = 0 \<and> cs = 1"
  using assms by (auto simp: raw_tag_def Let_def bind_result_iffs split: if_splits)

lemma puthead_tag:
  assumes "b # t = puthead s l cs @ tail" "unat s \<le> 0xC0" "unat l \<le> 0xF7"
  shows "cs < 56 \<and> unat b = unat s + unat cs \<and> unat cs < 56 \<or>
    56 \<le> cs \<and> unat l < unat b \<and> unat b \<le> unat l + 8"
proof -
  have "unat b = unat (hd (puthead s l cs))" using assms(1)
    by (metis hd_append2 list.sel(1) puthead_neq_Nil)
  then show ?thesis
    using unat_hd_puthead [OF assms(2,3), of cs] length_putint [of cs]
    by (cases "cs < 56") (auto simp: word_less_nat_alt word_le_nat_alt not_less)
qed

lemma puthead_small_iff:
  assumes "s \<le> b" "unat b < unat s + 56" "unat s + 55 \<le> unat l" "unat l \<le> 0xF7"
  shows "b # t = puthead s l cs @ tail \<longleftrightarrow> cs = w64 (b - s) \<and> tail = t"
proof
  assume eq: "b # t = puthead s l cs @ tail"
  have "unat s \<le> 0xC0" using assms(3,4) by simp
  with puthead_tag [OF eq this assms(4)] assms have "unat cs = unat b - unat s" by auto
  then have "cs = w64 (b - s)" using assms(1) by (simp add: word_unat_eq_iff unat_byte_sub)
  with eq show "cs = w64 (b - s) \<and> tail = t" using tag_small [OF assms(1,2)] by simp
qed (simp add: tag_small [OF assms(1,2)])

text \<open>The bytes below a string tag, of a string tag (short or long), and above.\<close>

lemma raw_tag_String:
  assumes "buf \<noteq> []"
  shows "raw_tag buf = Ok (String, ts, cs) \<longleftrightarrow> (\<exists>tail. buf = puthead 0x80 0xB7 cs @ tail \<and>
    ts = of_nat (headsize cs) \<and> (cs = 1 \<longrightarrow> tail \<noteq> [] \<and> 0x80 \<le> hd tail))" (is "?L \<longleftrightarrow> ?R")
proof -
  obtain b t where buf: "buf = b # t" using assms by (cases buf) auto
  have R: "cs < 56 \<and> unat b = 128 + unat cs \<and> unat cs < 56 \<or> 56 \<le> cs \<and> 183 < unat b \<and> unat b < 192"
    if "buf = puthead 0x80 0xB7 cs @ tail" for tail
    using puthead_tag [OF that [unfolded buf]] by auto
  consider "unat b < 128 \<or> 192 \<le> unat b" | "128 \<le> unat b" "unat b < 184" | "183 < unat b" "unat b < 192"
    by linarith
  then show ?thesis
  proof cases
    case 1
    have "\<not> ?R" using 1 by (auto dest!: R)
    moreover from 1 have "\<not> ?L"
      by (auto simp: buf raw_tag_def word_less_nat_alt Let_def bind_result_iffs split: if_splits)
    ultimately show ?thesis by simp
  next
    case 2
    then have b: "0x80 \<le> b" "b < 0xB8" "unat b < unat (0x80 :: byte) + 56"
      by (simp_all add: word_less_nat_alt word_le_nat_alt)
    have "?R \<longleftrightarrow> cs = w64 (b - 0x80) \<and> ts = 1 \<and> (b = 0x81 \<longrightarrow> t \<noteq> [] \<and> 0x80 \<le> hd t)"
      using b by (auto simp: buf puthead_small_iff tag_small w64_sub_1)
    moreover have "?L \<longleftrightarrow> cs = w64 (b - 0x80) \<and> ts = 1 \<and> (b = 0x81 \<longrightarrow> t \<noteq> [] \<and> 0x80 \<le> hd t)"
      using b by (cases t) (auto simp: buf raw_tag_def Let_def not_less index_def)
    ultimately show ?thesis by simp
  next
    case 3
    then have b: "\<not> b < 0x80" "\<not> b < 0xB8" "b < 0xC0" "0xB7 < b" "unat b \<le> unat (0xB7 :: byte) + 8"
      by (simp_all add: word_less_nat_alt)
    have L: "?L \<longleftrightarrow> readSize t (b - 0xB7) = Ok cs \<and> ts = of_nat (headsize cs)"
      using b tag_large(2) [OF b(4,5), of t cs] by (auto simp: buf raw_tag_def Let_def bind_result_iffs)
    have "?R \<longleftrightarrow> 56 \<le> cs \<and> (\<exists>rest. b # t = puthead 0x80 0xB7 cs @ rest) \<and> ts = of_nat (headsize cs)"
      using 3 by (auto simp: buf word_le_nat_alt dest: R [unfolded buf])
    then show ?thesis unfolding L tag_large(1) [OF b(4,5), where s = "0x80"] by blast
  qed
qed

lemma raw_tag_List:
  assumes "buf \<noteq> []"
  shows "raw_tag buf = Ok (List, ts, cs) \<longleftrightarrow>
    (\<exists>tail. buf = puthead 0xC0 0xF7 cs @ tail \<and> ts = of_nat (headsize cs))" (is "?L \<longleftrightarrow> ?R")
proof -
  obtain b t where buf: "buf = b # t" using assms by (cases buf) auto
  have R: "cs < 56 \<and> unat b = 192 + unat cs \<and> unat cs < 56 \<or> 56 \<le> cs \<and> 247 < unat b"
    if "buf = puthead 0xC0 0xF7 cs @ tail" for tail
    using puthead_tag [OF that [unfolded buf]] by auto
  consider "unat b < 192" | "192 \<le> unat b" "unat b < 248" | "247 < unat b" "unat b < 256"
    using unat_byte_less [of b] by linarith
  then show ?thesis
  proof cases
    case 1
    have "\<not> ?R" using 1 by (auto dest!: R)
    moreover from 1 have "\<not> ?L"
      by (auto simp: buf raw_tag_def word_less_nat_alt Let_def bind_result_iffs split: if_splits)
    ultimately show ?thesis by simp
  next
    case 2
    then have b: "\<not> b < 0x80" "\<not> b < 0xB8" "\<not> b < 0xC0" "0xC0 \<le> b" "b < 0xF8" "unat b < unat (0xC0 :: byte) + 56"
      by (simp_all add: word_less_nat_alt word_le_nat_alt)
    have "?R \<longleftrightarrow> cs = w64 (b - 0xC0) \<and> ts = 1"
      using b by (auto simp: buf puthead_small_iff tag_small)
    then show ?thesis using b by (auto simp: buf raw_tag_def Let_def)
  next
    case 3
    then have b: "\<not> b < 0x80" "\<not> b < 0xB8" "\<not> b < 0xC0" "\<not> b < 0xF8" "0xF7 < b"
      "unat b \<le> unat (0xF7 :: byte) + 8"
      by (simp_all add: word_less_nat_alt)
    have L: "?L \<longleftrightarrow> readSize t (b - 0xF7) = Ok cs \<and> ts = of_nat (headsize cs)"
      using b tag_large(2) [OF b(5,6), of t cs] by (auto simp: buf raw_tag_def Let_def bind_result_iffs)
    have "?R \<longleftrightarrow> 56 \<le> cs \<and> (\<exists>rest. b # t = puthead 0xC0 0xF7 cs @ rest) \<and> ts = of_nat (headsize cs)"
      using 3 by (auto simp: buf word_le_nat_alt dest: R [unfolded buf])
    then show ?thesis unfolding L tag_large(1) [OF b(5,6), where s = "0xC0"] by blast
  qed
qed

lemma raw_tag_Panic:
  assumes "buf \<noteq> []"
  shows "raw_tag buf = Panic p \<longleftrightarrow> buf = [0x81] \<and> p = IndexOutOfRange"
proof -
  obtain b t where buf: "buf = b # t" using assms by (cases buf) auto
  have no: "readSize t (b - 0xB7) \<noteq> Panic p" if "\<not> b < 0xB8" "b < 0xC0"
    using that by (intro readSize_no_panic) (auto simp: unat_byte_sub word_less_nat_alt word_le_nat_alt)
  have no': "readSize t (b - 0xF7) \<noteq> Panic p" if "\<not> b < 0xF8"
    using that unat_byte_less [of b] by (intro readSize_no_panic) (auto simp: unat_byte_sub word_less_nat_alt word_le_nat_alt)
  show ?thesis using no no'
    by (cases t) (auto simp: buf raw_tag_def Let_def bind_result_iffs index_def split: if_splits)
qed

fun tag_cond :: "kind \<Rightarrow> uint64 \<Rightarrow> bytes \<Rightarrow> bool" where
  "tag_cond Byte cs tail = (cs = 1 \<and> tail \<noteq> [] \<and> hd tail < 0x80)"
| "tag_cond String cs tail = (cs = 1 \<longrightarrow> tail \<noteq> [] \<and> 0x80 \<le> hd tail)"
| "tag_cond List cs tail = True"

fun tag_bytes :: "kind \<Rightarrow> uint64 \<Rightarrow> bytes" where
  "tag_bytes Byte cs = []"
| "tag_bytes String cs = puthead 0x80 0xB7 cs"
| "tag_bytes List cs = puthead 0xC0 0xF7 cs"

lemma item_tag_eq: "item_tag k c = tag_bytes k (of_nat (length c))"
  by (cases k) auto

lemma raw_tag_iff:
  "buf \<noteq> [] \<Longrightarrow> raw_tag buf = Ok (k, ts, cs) \<longleftrightarrow>
    (\<exists>tail. buf = tag_bytes k cs @ tail \<and> ts = of_nat (length (tag_bytes k cs)) \<and> tag_cond k cs tail)"
  by (cases k) (auto simp: raw_tag_Byte raw_tag_String raw_tag_List)

lemma item_ok_tag_cond:
  assumes "length c < 2 ^ 64"
  shows "tag_cond k (of_nat (length c)) (c @ rest) \<longleftrightarrow> item_ok k c"
proof -
  have "of_nat (length c) = (1 :: uint64) \<longleftrightarrow> length c = 1"
    using assms by (metis unat_of_nat_64 of_nat_1 unat_1)
  then show ?thesis by (cases k; cases c) (auto simp: not_less)
qed

lemma readKind_Ok_iff:
  assumes len: "length buf < 2 ^ 64"
  shows "readKind buf = Ok (k, ts, cs) \<longleftrightarrow> (\<exists>c rest. buf = item_tag k c @ c @ rest \<and> item_ok k c \<and>
    ts = of_nat (length (item_tag k c)) \<and> cs = of_nat (length c))" (is "?L \<longleftrightarrow> ?R")
proof (cases "buf = []")
  case True
  then show ?thesis by (cases k) (auto simp: readKind_def)
next
  case False
  have room: "of_nat (length buf) - ts = of_nat (length tail)"
    if "buf = tag_bytes k cs @ tail" "ts = of_nat (length (tag_bytes k cs))" for tail
    using that by simp
  show ?thesis
  proof
    assume ?L
    with False obtain tail where t: "buf = tag_bytes k cs @ tail" "ts = of_nat (length (tag_bytes k cs))"
      "tag_cond k cs tail" "\<not> cs > of_nat (length buf) - ts"
      by (auto simp: readKind_raw_tag bind_result_iffs raw_tag_iff split: if_splits)
    have "length tail < 2 ^ 64" using len t(1) by simp
    with t(4) have "unat cs \<le> length tail" by (simp add: room [OF t(1,2)] word_less_nat_alt not_less)
    define c where "c = take (unat cs) tail"
    have c: "length c = unat cs" using \<open>unat cs \<le> _\<close> by (simp add: c_def)
    then have cs: "cs = of_nat (length c)" by simp
    have tl: "tail = c @ drop (unat cs) tail" by (simp add: c_def)
    have "length c < 2 ^ 64" using c unsigned_less [of cs] by simp
    then have "item_ok k c" using t(3) item_ok_tag_cond cs tl by metis
    then show ?R using t(1,2) tl cs item_tag_eq by metis
  next
    assume ?R
    then obtain c rest where c: "buf = item_tag k c @ c @ rest" "item_ok k c"
      "ts = of_nat (length (item_tag k c))" "cs = of_nat (length c)" by blast
    have lt: "length c < 2 ^ 64" "length (c @ rest) < 2 ^ 64" using len c(1) by auto
    have t: "buf = tag_bytes k cs @ c @ rest" "ts = of_nat (length (tag_bytes k cs))"
      using c by (simp_all add: item_tag_eq)
    have "tag_cond k cs (c @ rest)" using item_ok_tag_cond [OF lt(1)] c(2,4) by simp
    then have "raw_tag buf = Ok (k, ts, cs)" using False t by (auto simp: raw_tag_iff)
    moreover have "\<not> cs > of_nat (length buf) - ts"
      using lt unfolding room [OF t] c(4) by (simp add: word_less_nat_alt not_less del: of_nat_add)
    ultimately show ?L using False by (simp add: readKind_raw_tag)
  qed
qed

lemma readKind_Panic_iff: "readKind buf = Panic p \<longleftrightarrow> buf = [0x81] \<and> p = IndexOutOfRange"
proof (cases "buf = []")
  case False
  then show ?thesis
    by (auto simp: readKind_raw_tag bind_result_iffs raw_tag_Panic split: if_splits)
qed (simp add: readKind_def)

lemma item_length:
  assumes "length (item_tag k c @ c @ rest) < 2 ^ 64"
  shows "unat (of_nat (length (item_tag k c)) :: uint64) = length (item_tag k c)"
    and "unat (of_nat (length (item_tag k c)) + of_nat (length c) :: uint64) = length (item_tag k c) + length c"
  using assms unat_of_nat_64 [of "length (item_tag k c) + length c"] by (simp_all)

lemma Split_items:
  assumes "length (item_tag k c @ c @ rest) < 2 ^ 64" "item_ok k c"
  shows "Split (item_tag k c @ c @ rest) = Ok (k, c, rest)"
proof -
  have "readKind (item_tag k c @ c @ rest)
      = Ok (k, of_nat (length (item_tag k c)), of_nat (length c))"
    using readKind_Ok_iff [OF assms(1)] assms(2) by blast
  with item_length [OF assms(1)] show ?thesis by (simp add: Split_def)
qed

lemma Split_Ok_iff:
  assumes "length b < 2 ^ 64"
  shows "Split b = Ok (k, c, rest) \<longleftrightarrow> b = item_tag k c @ c @ rest \<and> item_ok k c" (is "?L \<longleftrightarrow> ?R")
proof
  assume ?L
  then obtain k' ts cs where rk: "readKind b = Ok (k', ts, cs)"
    by (auto simp: Split_def bind_result_iffs)
  from readKind_Ok_iff [OF assms, THEN iffD1, OF rk] obtain c' rest' where
    "b = item_tag k' c' @ c' @ rest'" "item_ok k' c'" by blast
  with Split_items [of k' c' rest'] assms \<open>?L\<close> show ?R by simp
next
  assume ?R
  with Split_items assms show ?L by simp
qed

lemma Split_Panic_iff:
  assumes "length b < 2 ^ 64"
  shows "Split b = Panic p \<longleftrightarrow> b = [0x81] \<and> p = IndexOutOfRange"
proof (cases "readKind b")
  case (Ok r)
  obtain k ts cs where r: "r = (k, ts, cs)" by (cases r) auto
  from readKind_Ok_iff [OF assms, THEN iffD1, OF Ok [unfolded r]] obtain c rest where
    b: "b = item_tag k c @ c @ rest" "item_ok k c" by blast
  with Split_items [of k c rest] assms readKind_Panic_iff [of b] Ok show ?thesis by auto
qed (auto simp: Split_def readKind_Panic_iff [symmetric])

section \<open>Properties\<close>

lemma kind_neq_List: "k \<noteq> List \<longleftrightarrow> k = Byte \<or> k = String"
  by (cases k) auto

lemma SplitString_Ok_iff:
  assumes "length b < 2 ^ 64"
  shows "SplitString b = Ok (c, rest) \<longleftrightarrow> b = enc_string c @ rest"
proof -
  have "SplitString b = Ok (c, rest) \<longleftrightarrow> (\<exists>k. k \<noteq> List \<and> Split b = Ok (k, c, rest))"
    by (auto simp: SplitString_def bind_result_iffs split: if_splits)
  also have "\<dots> \<longleftrightarrow> Split b = Ok (Byte, c, rest) \<or> Split b = Ok (String, c, rest)"
    by (auto simp: kind_neq_List)
  finally show ?thesis
    unfolding Split_Ok_iff [OF assms] enc_string_item by (cases "length c = 1 \<and> hd c < 0x80") auto
qed

lemma SplitList_Ok_iff:
  assumes "length b < 2 ^ 64"
  shows "SplitList b = Ok (c, rest) \<longleftrightarrow> b = enc_list c @ rest"
proof -
  have "SplitList b = Ok (c, rest) \<longleftrightarrow> Split b = Ok (List, c, rest)"
    by (auto simp: SplitList_def bind_result_iffs split: if_splits)
  then show ?thesis by (simp add: Split_Ok_iff [OF assms] enc_list_item)
qed

text \<open>C5. \<open>SplitString\<close> and \<open>SplitList\<close> are the exact inverses of the string and list encodings:
  they succeed on precisely the inputs that start with the (canonical) encoding of a string,
  respectively of a list payload, and return that content and the bytes after it.\<close>

theorem Split_exact:
  assumes "length b < 2 ^ 64"
  shows "(SplitString b = Ok (c, rest) \<longleftrightarrow> b = enc_string c @ rest) \<and>
    (SplitList b = Ok (c, rest) \<longleftrightarrow> b = enc_list c @ rest)"
  using SplitString_Ok_iff [OF assms] SplitList_Ok_iff [OF assms] by blast

theorem Split_exact_witness:
  "SplitString [0x83, 1, 2, 3, 0xC0] = Ok ([1, 2, 3], [0xC0]) \<and>
   SplitList [0x83, 1, 2, 3, 0xC0] \<noteq> Ok ([1, 2, 3], [0xC0])"
  using Split_exact [of "[0x83, 1, 2, 3, 0xC0]" "[1, 2, 3]" "[0xC0]"]
  by (simp add: enc_string_def enc_list_def puthead_def)

text \<open>C7. The slice readers panic on exactly one input: the single byte \<open>0x81\<close>, a string tag
  that announces one content byte, at the end of the slice. \<open>readKind\<close> reads \<open>buf[1]\<close> for the
  canonicity test before it compares the announced size with the length of the slice.\<close>

theorem Split_panics_only_on_81:
  assumes "length b < 2 ^ 64"
  shows "(\<exists>p. Split b = Panic p) \<longleftrightarrow> b = [0x81]"
  using Split_Panic_iff [OF assms] by auto

theorem Split_panics_only_on_81_witness:
  "(\<exists>p. Split [0x81] = Panic p) \<and> (\<forall>p. Split [0x82] \<noteq> Panic p)"
  using Split_panics_only_on_81 [of "[0x81]"] Split_panics_only_on_81 [of "[0x82]"] by simp

lemma item_nonempty: "item_ok k c \<Longrightarrow> 0 < length (item_tag k c) + length c"
  by (cases k; cases c) (auto simp: headsize_def)

text \<open>\<open>b\<close> is the concatenation of the encodings of \<open>n\<close> items.\<close>

definition item_enc :: "kind \<times> bytes \<Rightarrow> bytes" where
  "item_enc kc = item_tag (fst kc) (snd kc) @ snd kc"

definition is_items :: "bytes \<Rightarrow> nat \<Rightarrow> bool" where
  "is_items b n \<longleftrightarrow> (\<exists>items. length items = n \<and> b = concat (map item_enc items) \<and>
     (\<forall>kc \<in> set items. item_ok (fst kc) (snd kc)))"

lemma is_items_Nil [simp]: "is_items [] n \<longleftrightarrow> n = 0"
proof
  assume "is_items [] n"
  then obtain items where i: "length items = n" "concat (map item_enc items) = []"
    "\<forall>kc \<in> set items. item_ok (fst kc) (snd kc)" by (auto simp: is_items_def)
  then show "n = 0" by (cases items) (auto simp: item_enc_def dest!: item_nonempty)
qed (simp add: is_items_def)

lemma is_items_step:
  assumes "length b < 2 ^ 64" "b \<noteq> []"
  shows "is_items b n \<longleftrightarrow> (\<exists>k c rest n'. Split b = Ok (k, c, rest) \<and> n = Suc n' \<and> is_items rest n')"
proof
  assume "is_items b n"
  then obtain items where i: "length items = n" "b = concat (map item_enc items)"
    "\<forall>kc \<in> set items. item_ok (fst kc) (snd kc)" by (auto simp: is_items_def)
  with assms(2) obtain k c rest where "items = (k, c) # rest" by (cases items) auto
  with i have "Split b = Ok (k, c, concat (map item_enc rest))" "n = Suc (length rest)"
    "is_items (concat (map item_enc rest)) (length rest)"
    unfolding Split_Ok_iff [OF assms(1)] by (auto simp: item_enc_def is_items_def)
  then show "\<exists>k c rest n'. Split b = Ok (k, c, rest) \<and> n = Suc n' \<and> is_items rest n'" by blast
next
  assume "\<exists>k c rest n'. Split b = Ok (k, c, rest) \<and> n = Suc n' \<and> is_items rest n'"
  then obtain k c rest items where "b = item_tag k c @ c @ rest" "item_ok k c" "n = Suc (length items)"
    "rest = concat (map item_enc items)" "\<forall>kc \<in> set items. item_ok (fst kc) (snd kc)"
    by (auto simp: Split_Ok_iff [OF assms(1)] is_items_def)
  then show "is_items b n" unfolding is_items_def
    by (intro exI [of _ "(k, c) # items"]) (simp add: item_enc_def)
qed

lemma CountValues_loop_item:
  assumes "length b < 2 ^ 64" "Split b = Ok (k, c, rest)"
  shows "CountValues_loop b i = CountValues_loop rest (i + 1)"
proof -
  have b: "b = item_tag k c @ c @ rest" "item_ok k c" using assms(2) Split_Ok_iff [OF assms(1)] by auto
  then have "readKind b = Ok (k, of_nat (length (item_tag k c)), of_nat (length c))"
    using readKind_Ok_iff [OF assms(1)] by blast
  moreover have "b \<noteq> []" using b item_nonempty by fastforce
  moreover have "slice b (length (item_tag k c) + length c) (length b) = (Ok rest :: (rlp_error, bytes) result)"
    using b(1) by simp
  moreover have "unat (of_nat (length (item_tag k c)) + of_nat (length c) :: uint64)
      = length (item_tag k c) + length c"
    using item_length(2) [of k c rest] assms(1) b(1) by simp
  ultimately show ?thesis
    by (simp add: CountValues_loop.simps [of b i])
qed

lemma CountValues_loop_stop:
  assumes "length b < 2 ^ 64" "b \<noteq> []" "\<And>k c rest. Split b \<noteq> Ok (k, c, rest)"
  shows "\<exists>r. CountValues_loop b i = Some r \<and> (\<forall>n. r \<noteq> Ok n)"
proof (cases "readKind b")
  case (Ok r)
  obtain k ts cs where r: "r = (k, ts, cs)" by (cases r) auto
  from readKind_Ok_iff [OF assms(1), THEN iffD1, OF Ok [unfolded r]] obtain c rest where
    "b = item_tag k c @ c @ rest" "item_ok k c" by blast
  with assms(3) [of k c rest] show ?thesis unfolding Split_Ok_iff [OF assms(1)] by blast
qed (use assms(2) in \<open>simp_all add: CountValues_loop.simps [of b i]\<close>)

lemma CountValues_loop_spec:
  "length b < 2 ^ 64 \<Longrightarrow> \<exists>r. CountValues_loop b i = Some r \<and>
    (\<forall>n. r = Ok n \<longleftrightarrow> (\<exists>n'. n = i + n' \<and> is_items b n'))"
proof (induction b arbitrary: i rule: length_induct)
  case (1 b)
  note len = 1(2)
  show ?case
  proof (cases "\<exists>k c rest. Split b = Ok (k, c, rest)")
    case True
    then obtain k c rest where sp: "Split b = Ok (k, c, rest)" by blast
    then have b: "b = item_tag k c @ c @ rest" "item_ok k c" using Split_Ok_iff [OF len] by auto
    then have short: "length rest < length b" "b \<noteq> []" using item_nonempty [of k c] by auto
    obtain r where r: "CountValues_loop rest (i + 1) = Some r"
      "\<forall>n. r = Ok n \<longleftrightarrow> (\<exists>n'. n = i + 1 + n' \<and> is_items rest n')"
      using 1(1) [rule_format, OF short(1), of "i + 1"] short(1) len by (meson less_trans)
    have "is_items b n' \<longleftrightarrow> (\<exists>m. n' = Suc m \<and> is_items rest m)" for n'
      using is_items_step [OF len short(2)] sp by simp
    with r show ?thesis unfolding CountValues_loop_item [OF len sp] by auto
  next
    case False
    show ?thesis
    proof (cases "b = []")
      case True
      then show ?thesis by (auto simp: CountValues_loop.simps [of "[]"])
    next
      case nonempty: False
      obtain r where "CountValues_loop b i = Some r" "\<forall>n. r \<noteq> Ok n"
        using CountValues_loop_stop [OF len nonempty, of i] False by blast
      moreover have "\<not> is_items b n'" for n'
        using is_items_step [OF len nonempty] False by simp
      ultimately show ?thesis by simp
    qed
  qed
qed

text \<open>C6. \<open>CountValues\<close> always returns, and it returns the count \<open>n\<close> exactly on the inputs that
  are a concatenation of \<open>n\<close> canonical encodings.\<close>

theorem CountValues_items:
  assumes "length b < 2 ^ 64"
  shows "\<exists>r. CountValues b = Some r \<and> (\<forall>n. r = Ok n \<longleftrightarrow> is_items b n)"
  using CountValues_loop_spec [OF assms, of 0] by (simp add: CountValues_def)

theorem CountValues_items_witness:
  "CountValues [0x83, 1, 2, 3, 0xC0, 7] = Some (Ok 3)"
proof -
  have "is_items [0x83, 1, 2, 3, 0xC0, 7] 3"
    unfolding is_items_def
    by (intro exI [of _ "[(String, [1, 2, 3]), (List, []), (Byte, [7])]"])
       (simp add: item_enc_def puthead_def)
  moreover obtain r where "CountValues [0x83, 1, 2, 3, 0xC0, 7] = Some r"
    "r = Ok 3 \<longleftrightarrow> is_items [0x83, 1, 2, 3, 0xC0, 7] 3"
    using CountValues_items [of "[0x83, 1, 2, 3, 0xC0, 7]"] by auto
  ultimately show ?thesis by simp
qed

end
