(* ===== verification/Rlp_Stream.thy ===== *)
theory Rlp_Stream
  imports Rlp_Raw
begin

unbundle bit_operations_syntax

text \<open>
  The stream decoder of \<open>rlp/decode.go\<close>: the \<open>Stream\<close> with its cached kind, list stack and
  input limit, its read operations, and the typed decoders of \<open>makeDecoder\<close>. An operation takes
  the stream and returns its result with the stream afterwards, on errors too. Error wrapping
  (\<open>wrapStreamError\<close>, \<open>addErrorContext\<close>) adds text to an error and keeps which error it is; the
  model keeps the error. Allocation of a buffer for an announced size always succeeds.
\<close>

section \<open>The stream\<close>

text \<open>
  \<open>st_input\<close> is what the reader has not delivered yet; \<open>st_kind\<close> is \<open>None\<close> where the Go field is
  \<open>-1\<close>; the stack of open lists has its top first, each entry the position and the size. The
  integer buffer is written in full before it is read, so it is local to \<open>readUint\<close>.
\<close>

record stream =
  st_input :: bytes
  st_remaining :: uint64
  st_limited :: bool
  st_kind :: "kind option"
  st_size :: uint64
  st_byteval :: byte
  st_kinderr :: "rlp_error option"
  st_stack :: "(uint64 \<times> uint64) list"

type_synonym 'a smon = "stream \<Rightarrow> (rlp_error, 'a) result \<times> stream"

definition sbind :: "'a smon \<Rightarrow> ('a \<Rightarrow> 'b smon) \<Rightarrow> 'b smon" where
  "sbind m f s = (case m s of
     (Ok a, s') \<Rightarrow> f a s' | (Err e, s') \<Rightarrow> (Err e, s') | (Panic p, s') \<Rightarrow> (Panic p, s'))"

definition Reset :: "bytes \<Rightarrow> uint64 \<Rightarrow> bool \<Rightarrow> stream \<Rightarrow> stream" where
  "Reset r inputLimit isBytesReader s =
    (let s1 = (if inputLimit > 0 then s\<lparr>st_remaining := inputLimit, st_limited := True\<rparr>
               else if isBytesReader then s\<lparr>st_remaining := of_nat (length r), st_limited := True\<rparr>
               else s\<lparr>st_limited := False\<rparr>)
     in s1\<lparr>st_input := r, st_stack := [], st_size := 0, st_kind := None, st_kinderr := None\<rparr>)"

text \<open>\<open>new(Stream)\<close>: every field is zero, so the kind is \<open>Byte\<close> until \<open>Reset\<close>.\<close>

definition zero_stream :: stream where
  "zero_stream = \<lparr>st_input = [], st_remaining = 0, st_limited = False, st_kind = Some Byte, st_size = 0,
     st_byteval = 0, st_kinderr = None, st_stack = []\<rparr>"

definition NewStream :: "bytes \<Rightarrow> uint64 \<Rightarrow> bool \<Rightarrow> stream" where
  "NewStream r inputLimit isBytesReader = Reset r inputLimit isBytesReader zero_stream"

definition NewListStream :: "bytes \<Rightarrow> uint64 \<Rightarrow> bool \<Rightarrow> stream" where
  "NewListStream r len isBytesReader =
    (Reset r len isBytesReader zero_stream)\<lparr>st_kind := Some List, st_size := len\<rparr>"

definition willRead :: "uint64 \<Rightarrow> unit smon" where
  "willRead n s =
    (let s0 = s\<lparr>st_kind := None\<rparr>;
         limit = (\<lambda>s1. if st_limited s1 then
                    if n > st_remaining s1 then (Err ErrValueTooLarge, s1)
                    else (Ok (), s1\<lparr>st_remaining := st_remaining s1 - n\<rparr>)
                  else (Ok (), s1))
     in case st_stack s0 of
          [] \<Rightarrow> limit s0
        | (pos, sz) # rest \<Rightarrow>
            if n > sz - pos then (Err ErrElemTooLarge, s0)
            else limit (s0\<lparr>st_stack := (pos + n, sz) # rest\<rparr>))"

definition readByte :: "byte smon" where
  "readByte = sbind (willRead 1) (\<lambda>_ s.
     case st_input s of
       [] \<Rightarrow> (Err ErrUnexpectedEOF, s)
     | b # r \<Rightarrow> (Ok b, s\<lparr>st_input := r\<rparr>))"

text \<open>\<open>readFull\<close> into a buffer of \<open>n\<close> bytes: the reads are repeated until the buffer is full or
  the reader is at its end.\<close>

definition readFull :: "nat \<Rightarrow> bytes smon" where
  "readFull n = sbind (willRead (of_nat n)) (\<lambda>_ s.
     if n \<le> length (st_input s) then
       (Ok (take n (st_input s)), s\<lparr>st_input := drop n (st_input s)\<rparr>)
     else (Err ErrUnexpectedEOF, s\<lparr>st_input := []\<rparr>))"

definition readUint :: "byte \<Rightarrow> uint64 smon" where
  "readUint sz =
    (if sz = 0 then (\<lambda>s. (Ok 0, s\<lparr>st_kind := None\<rparr>))
     else if sz = 1 then sbind readByte (\<lambda>b s. (Ok (w64 b), s))
     else
       let start = unat (8 - sz) in
       if start > 8 then (\<lambda>s. (Panic IndexOutOfRange, s))
       else sbind (readFull (8 - start)) (\<lambda>b s.
         let uintbuf = replicate start 0 @ b in
         if uintbuf ! start = 0 then (Err ErrCanonSize, s)
         else (Ok (be64 uintbuf), s)))"

text \<open>The method \<open>Stream.readKind\<close>. On an error it returns a kind and a size as well, which
  \<open>Kind\<close> stores.\<close>

definition stream_readKind :: "stream \<Rightarrow> (kind \<times> uint64 \<times> (rlp_error, unit) result) \<times> stream" where
  "stream_readKind s =
    (case readByte s of
       (Err e, s1) \<Rightarrow>
         ((Byte, 0, Err (if st_stack s1 = [] \<and> (e = ErrUnexpectedEOF \<or> e = ErrValueTooLarge)
                         then EOF else e)), s1)
     | (Panic p, s1) \<Rightarrow> ((Byte, 0, Panic p), s1)
     | (Ok b, s1) \<Rightarrow>
         let s2 = s1\<lparr>st_byteval := 0\<rparr>;
             large = (\<lambda>k tag.
               case readUint (b - tag) s2 of
                 (Ok sz, s3) \<Rightarrow> ((k, sz, if sz < 56 then Err ErrCanonSize else Ok ()), s3)
               | (Err e, s3) \<Rightarrow> ((k, 0, Err e), s3)
               | (Panic p, s3) \<Rightarrow> ((k, 0, Panic p), s3))
         in if b < 0x80 then ((Byte, 0, Ok ()), s2\<lparr>st_byteval := b\<rparr>)
            else if b < 0xB8 then ((String, w64 (b - 0x80), Ok ()), s2)
            else if b < 0xC0 then large String 0xB7
            else if b < 0xF8 then ((List, w64 (b - 0xC0), Ok ()), s2)
            else large List 0xF7)"

text \<open>\<open>readUint\<close> of a one-byte size field returns the byte with its error, so a failed read
  there stores size 0 as well.\<close>

definition Kind :: "(kind \<times> uint64) smon" where
  "Kind s =
    (case st_kind s of
       Some k \<Rightarrow> (case st_kinderr s of
                    Some e \<Rightarrow> (Err e, s) | None \<Rightarrow> (Ok (k, st_size s), s))
     | None \<Rightarrow>
       let s0 = s\<lparr>st_kinderr := None\<rparr> in
       if (case st_stack s0 of [] \<Rightarrow> False | (pos, sz) # _ \<Rightarrow> pos = sz) then (Err EOL, s0)
       else
         case stream_readKind s0 of
           ((k, sz, Panic p), s1) \<Rightarrow> (Panic p, s1)
         | ((k, sz, Err e), s1) \<Rightarrow>
             (Err e, s1\<lparr>st_kind := Some k, st_size := sz, st_kinderr := Some e\<rparr>)
         | ((k, sz, Ok _), s1) \<Rightarrow>
             let s2 = s1\<lparr>st_kind := Some k, st_size := sz\<rparr>;
                 err = (case st_stack s2 of
                          [] \<Rightarrow> if st_limited s2 \<and> sz > st_remaining s2 then Some ErrValueTooLarge else None
                        | (pos, lsz) # _ \<Rightarrow> if sz > lsz - pos then Some ErrElemTooLarge else None)
             in (case err of
                   Some e \<Rightarrow> (Err e, s2\<lparr>st_kinderr := Some e\<rparr>)
                 | None \<Rightarrow> (Ok (k, sz), s2)))"

definition Bytes :: "bytes smon" where
  "Bytes = sbind Kind (\<lambda>(k, sz) s.
     case k of
       Byte \<Rightarrow> (Ok [st_byteval s], s\<lparr>st_kind := None\<rparr>)
     | String \<Rightarrow> sbind (readFull (unat sz)) (\<lambda>b s1.
         if sz = 1 \<and> b ! 0 < 128 then (Err ErrCanonSize, s1) else (Ok b, s1)) s
     | List \<Rightarrow> (Err ErrExpectedString, s))"

definition Raw :: "bytes smon" where
  "Raw = sbind Kind (\<lambda>(k, sz) s.
     if k = Byte then (Ok [st_byteval s], s\<lparr>st_kind := None\<rparr>)
     else sbind (readFull (unat sz)) (\<lambda>b s1.
       if k = String then (Ok (puthead 0x80 0xB8 sz @ b), s1)
       else (Ok (puthead 0xC0 0xF7 sz @ b), s1)) s)"

definition stream_uint :: "nat \<Rightarrow> uint64 smon" where
  "stream_uint maxbits = sbind Kind (\<lambda>(k, sz) s.
     case k of
       Byte \<Rightarrow> if st_byteval s = 0 then (Err ErrCanonInt, s)
               else (Ok (w64 (st_byteval s)), s\<lparr>st_kind := None\<rparr>)
     | String \<Rightarrow>
         if sz > of_nat (maxbits div 8) then (Err ErrUintOverflow, s)
         else (case readUint (ucast sz) s of
             (Err e, s1) \<Rightarrow> (Err (if e = ErrCanonSize then ErrCanonInt else e), s1)
           | (Panic p, s1) \<Rightarrow> (Panic p, s1)
           | (Ok v, s1) \<Rightarrow> if sz > 0 \<and> v < 128 then (Err ErrCanonSize, s1) else (Ok v, s1))
     | List \<Rightarrow> (Err ErrExpectedString, s))"

definition Uint :: "uint64 smon" where
  "Uint = stream_uint 64"

definition Bool :: "bool smon" where
  "Bool = sbind (stream_uint 8) (\<lambda>num s.
     if num = 0 then (Ok False, s) else if num = 1 then (Ok True, s) else (Err ErrInvalidBool, s))"

definition stream_List :: "uint64 smon" where
  "stream_List = sbind Kind (\<lambda>(k, sz) s.
     if k \<noteq> List then (Err ErrExpectedList, s)
     else (Ok sz, s\<lparr>st_stack := (0, sz) # st_stack s, st_kind := None, st_size := 0\<rparr>))"

definition ListEnd :: "unit smon" where
  "ListEnd s =
    (case st_stack s of
       [] \<Rightarrow> (Err ErrNotInList, s)
     | (pos, sz) # rest \<Rightarrow>
         if pos \<noteq> sz then (Err ErrNotAtEOL, s)
         else (Ok (), s\<lparr>st_stack := (case rest of [] \<Rightarrow> [] | (p, z) # r \<Rightarrow> (p + sz, z) # r),
                        st_kind := None, st_size := 0\<rparr>))"

section \<open>Typed decoders\<close>

text \<open>
  The types \<open>makeDecoder\<close> distinguishes; \<open>TTail\<close> and \<open>TOptPtr\<close> are the struct fields with the
  tags \<open>tail\<close> and \<open>nil\<close>. The decoded values are those the encoder writes.
\<close>

datatype gtype =
    TRaw
  | TBigInt
  | TUint nat
  | TBool
  | TString
  | TBytes
  | TByteArray nat
  | TSlice gtype
  | TTail gtype
  | TArray nat gtype
  | TStruct "gtype list"
  | TPtr gtype
  | TOptPtr gtype
  | TInterface

definition decodeRawValue :: "gval smon" where
  "decodeRawValue = sbind Raw (\<lambda>r s. (Ok (VRaw r), s))"

definition decodeUint :: "nat \<Rightarrow> gval smon" where
  "decodeUint bits = sbind (stream_uint bits) (\<lambda>num s. (Ok (VUint num), s))"

definition decodeBool :: "gval smon" where
  "decodeBool = sbind Bool (\<lambda>b s. (Ok (VBool b), s))"

definition decodeString :: "gval smon" where
  "decodeString = sbind Bytes (\<lambda>b s. (Ok (VString b), s))"

definition decodeBigInt :: "gval smon" where
  "decodeBigInt = sbind Bytes (\<lambda>b s.
     if length b > 0 \<and> b ! 0 = 0 then (Err ErrCanonInt, s)
     else (Ok (VBigInt (int (be_val b))), s))"

definition decodeByteSlice :: "gval smon" where
  "decodeByteSlice = sbind Bytes (\<lambda>b s. (Ok (VBytes b), s))"

text \<open>In the \<open>Byte\<close> case the error of \<open>Uint\<close> is discarded.\<close>

definition decodeByteArray :: "nat \<Rightarrow> gval smon" where
  "decodeByteArray vlen = sbind Kind (\<lambda>(k, sz) s.
     case k of
       Byte \<Rightarrow>
         if vlen = 0 then (Err ErrInputTooLong, s)
         else if vlen > 1 then (Err ErrInputTooShort, s)
         else (case Uint s of
             (Ok bv, s1) \<Rightarrow> (Ok (VByteArray [ucast bv]), s1)
           | (Err e, s1) \<Rightarrow> (Ok (VByteArray [0]), s1)
           | (Panic p, s1) \<Rightarrow> (Panic p, s1))
     | String \<Rightarrow>
         if of_nat vlen < sz then (Err ErrInputTooLong, s)
         else if of_nat vlen > sz then (Err ErrInputTooShort, s)
         else sbind (readFull vlen) (\<lambda>b s1.
           if sz = 1 \<and> b ! 0 < 128 then (Err ErrCanonSize, s1) else (Ok (VByteArray b), s1)) s
     | List \<Rightarrow> (Err ErrExpectedString, s))"

text \<open>
  The value of a nil pointer by its element type, as \<open>makePtrWriter\<close> picks it.
\<close>

fun zero_of :: "gtype \<Rightarrow> gval" and nil_of :: "gtype \<Rightarrow> gval" where
  "zero_of TRaw = VRaw []"
| "zero_of TBigInt = VNilBigInt"
| "zero_of (TUint n) = VUint 0"
| "zero_of TBool = VBool False"
| "zero_of TString = VString []"
| "zero_of TBytes = VBytes []"
| "zero_of (TByteArray n) = VByteArray (replicate n 0)"
| "zero_of (TSlice t) = VSlice []"
| "zero_of (TTail t) = VTail []"
| "zero_of (TArray n t) = VSlice (replicate n (zero_of t))"
| "zero_of (TStruct ts) = VStruct (map zero_of ts)"
| "zero_of (TPtr t) = nil_of t"
| "zero_of (TOptPtr t) = nil_of t"
| "zero_of TInterface = VNilInterface"
| "nil_of (TByteArray n) = VNilPtrByteArray"
| "nil_of (TArray n t) = VNilPtrStruct"
| "nil_of (TStruct ts) = VNilPtrStruct"
| "nil_of TRaw = VNilPtr (VRaw [])"
| "nil_of TBigInt = VNilPtr VNilBigInt"
| "nil_of (TUint n) = VNilPtr (VUint 0)"
| "nil_of TBool = VNilPtr (VBool False)"
| "nil_of TString = VNilPtr (VString [])"
| "nil_of TBytes = VNilPtr (VBytes [])"
| "nil_of (TSlice t) = VNilPtr (VSlice [])"
| "nil_of (TTail t) = VNilPtr (VTail [])"
| "nil_of (TPtr t) = VNilPtr (nil_of t)"
| "nil_of (TOptPtr t) = VNilPtr (nil_of t)"
| "nil_of TInterface = VNilPtr VNilInterface"

text \<open>
  The decoders that call other decoders. The element loops are not bounded by the input (an
  element decoder may succeed without consuming anything), so each call takes one unit of fuel
  and \<open>None\<close> means that the fuel has run out.
\<close>

type_synonym 'a dmon = "stream \<Rightarrow> ((rlp_error, 'a) result \<times> stream) option"

definition dlift :: "'a smon \<Rightarrow> 'a dmon" where
  "dlift m s = Some (m s)"

definition dbind :: "'a dmon \<Rightarrow> ('a \<Rightarrow> 'b dmon) \<Rightarrow> 'b dmon" where
  "dbind m f s = (case m s of
     None \<Rightarrow> None
   | Some (Ok a, s') \<Rightarrow> f a s'
   | Some (Err e, s') \<Rightarrow> Some (Err e, s')
   | Some (Panic p, s') \<Rightarrow> Some (Panic p, s'))"

definition dret :: "'a \<Rightarrow> 'a dmon" where
  "dret a s = Some (Ok a, s)"

definition derr :: "rlp_error \<Rightarrow> 'a dmon" where
  "derr e s = Some (Err e, s)"

lemma dbind_cong [fundef_cong]:
  "m s = m' s \<Longrightarrow> (\<And>a s'. m' s = Some (Ok a, s') \<Longrightarrow> f a s' = f' a s') \<Longrightarrow> s = t \<Longrightarrow>
    dbind m f s = dbind m' f' t"
  by (auto simp: dbind_def split: option.splits result.splits)

fun decode :: "nat \<Rightarrow> gtype \<Rightarrow> gval dmon"
and decodeListSlice :: "nat \<Rightarrow> gtype \<Rightarrow> gval dmon"
and decodeSliceElems :: "nat \<Rightarrow> gtype \<Rightarrow> gval list dmon"
and decodeListArray :: "nat \<Rightarrow> gtype \<Rightarrow> nat \<Rightarrow> gval list dmon"
and decodeFields :: "nat \<Rightarrow> gtype list \<Rightarrow> gval list dmon" where
  "decode 0 t s = None"
| "decode (Suc n) t s =
    (case t of
       TRaw \<Rightarrow> dlift decodeRawValue s
     | TBigInt \<Rightarrow> dlift decodeBigInt s
     | TUint bits \<Rightarrow> dlift (decodeUint bits) s
     | TBool \<Rightarrow> dlift decodeBool s
     | TString \<Rightarrow> dlift decodeString s
     | TBytes \<Rightarrow> dlift decodeByteSlice s
     | TByteArray vlen \<Rightarrow> dlift (decodeByteArray vlen) s
     | TSlice e \<Rightarrow> decodeListSlice n e s
     | TTail e \<Rightarrow> dbind (decodeSliceElems n e) (\<lambda>vs. dret (VTail vs)) s
     | TArray vlen e \<Rightarrow>
         dbind (dlift stream_List) (\<lambda>_.
         dbind (decodeListArray n e vlen) (\<lambda>vs.
         dbind (dlift ListEnd) (\<lambda>_. dret (VSlice vs)))) s
     | TStruct flds \<Rightarrow>
         dbind (dlift stream_List) (\<lambda>_.
         dbind (decodeFields n flds) (\<lambda>vs.
         dbind (dlift ListEnd) (\<lambda>_. dret (VStruct vs)))) s
     | TPtr e \<Rightarrow> dbind (decode n e) (\<lambda>v. dret (VPtr v)) s
     | TOptPtr e \<Rightarrow>
         (case Kind s of
            (Err err, s1) \<Rightarrow> Some (Err err, s1\<lparr>st_kind := None\<rparr>)
          | (Panic p, s1) \<Rightarrow> Some (Panic p, s1)
          | (Ok (k, sz), s1) \<Rightarrow>
              if sz = 0 \<and> k \<noteq> Byte then Some (Ok (nil_of e), s1\<lparr>st_kind := None\<rparr>)
              else dbind (decode n e) (\<lambda>v. dret (VPtr v)) s1)
     | TInterface \<Rightarrow>
         dbind (dlift Kind) (\<lambda>(k, _).
           if k = List then dbind (decodeListSlice n TInterface) (\<lambda>v. dret (VInterface v))
           else dbind (dlift Bytes) (\<lambda>b. dret (VInterface (VBytes b)))) s)"
| "decodeListSlice 0 e s = None"
| "decodeListSlice (Suc n) e s =
    dbind (dlift stream_List) (\<lambda>sz.
      if sz = 0 then dbind (dlift ListEnd) (\<lambda>_. dret (VSlice []))
      else dbind (decodeSliceElems n e) (\<lambda>vs.
           dbind (dlift ListEnd) (\<lambda>_. dret (VSlice vs)))) s"
| "decodeSliceElems 0 e s = None"
| "decodeSliceElems (Suc n) e s =
    (case decode n e s of
       None \<Rightarrow> None
     | Some (Err err, s1) \<Rightarrow> if err = EOL then Some (Ok [], s1) else Some (Err err, s1)
     | Some (Panic p, s1) \<Rightarrow> Some (Panic p, s1)
     | Some (Ok v, s1) \<Rightarrow> dbind (decodeSliceElems n e) (\<lambda>vs. dret (v # vs)) s1)"
| "decodeListArray 0 e vlen s = None"
| "decodeListArray (Suc n) e vlen s =
    (if vlen = 0 then dret [] s
     else case decode n e s of
       None \<Rightarrow> None
     | Some (Err err, s1) \<Rightarrow>
         if err = EOL then Some (Err ErrTooFewElements, s1) else Some (Err err, s1)
     | Some (Panic p, s1) \<Rightarrow> Some (Panic p, s1)
     | Some (Ok v, s1) \<Rightarrow> dbind (decodeListArray n e (vlen - 1)) (\<lambda>vs. dret (v # vs)) s1)"
| "decodeFields 0 flds s = None"
| "decodeFields (Suc n) [] s = dret [] s"
| "decodeFields (Suc n) (f # flds) s =
    (case decode n f s of
       None \<Rightarrow> None
     | Some (Err err, s1) \<Rightarrow>
         if err = EOL then Some (Err ErrTooFewElements, s1) else Some (Err err, s1)
     | Some (Panic p, s1) \<Rightarrow> Some (Panic p, s1)
     | Some (Ok v, s1) \<Rightarrow> dbind (decodeFields n flds) (\<lambda>vs. dret (v # vs)) s1)"

text \<open>\<open>DecodeBytes\<close>: the input must hold exactly one value. The reader is a \<open>bytes.Reader\<close>.\<close>

definition DecodeBytes :: "nat \<Rightarrow> bytes \<Rightarrow> gtype \<Rightarrow> (rlp_error, gval) result option" where
  "DecodeBytes fuel b t =
    (case decode fuel t (NewStream b (of_nat (length b)) True) of
       None \<Rightarrow> None
     | Some (Ok v, s) \<Rightarrow> Some (if length (st_input s) > 0 then Err ErrMoreThanOneValue else Ok v)
     | Some (Err e, s) \<Rightarrow> Some (Err e)
     | Some (Panic p, s) \<Rightarrow> Some (Panic p))"

end
