(* ===== verification/Rlp_Decode.thy ===== *)
theory Rlp_Decode
  imports Rlp_Stream
begin

unbundle bit_operations_syntax

text \<open>
  Correctness of the stream decoder: what each operation of \<open>Rlp_Stream\<close> consumes, the round
  trip through the encoder of \<open>Rlp_Encode\<close> for every type, and that decoding accepts only
  canonical encodings.
\<close>

section \<open>Consuming input\<close>

text \<open>
  \<open>fits n s\<close>: a read of \<open>n\<close> bytes passes the checks of \<open>willRead\<close>; \<open>moved n s s'\<close>: \<open>s'\<close> is \<open>s\<close> with
  \<open>n\<close> bytes consumed and accounted for, ready for the next value.
\<close>

definition fits :: "nat \<Rightarrow> stream \<Rightarrow> bool" where
  "fits n s \<longleftrightarrow> n \<le> length (st_input s) \<and> (st_limited s \<longrightarrow> n \<le> unat (st_remaining s)) \<and>
     (case st_stack s of [] \<Rightarrow> True | (pos, sz) # _ \<Rightarrow> unat pos + n \<le> unat sz)"

definition moved :: "nat \<Rightarrow> stream \<Rightarrow> stream \<Rightarrow> bool" where
  "moved n s s' \<longleftrightarrow> fits n s \<and> st_kind s' = None \<and> st_input s' = drop n (st_input s) \<and>
     st_limited s' = st_limited s \<and>
     (st_limited s \<longrightarrow> st_remaining s' = st_remaining s - of_nat n) \<and>
     st_stack s' = (case st_stack s of [] \<Rightarrow> [] | (pos, sz) # r \<Rightarrow> (pos + of_nat n, sz) # r)"

definition top_ok :: "stream \<Rightarrow> bool" where
  "top_ok s = (case st_stack s of [] \<Rightarrow> True | (pos, sz) # _ \<Rightarrow> pos \<le> sz)"

named_theorems stream_simps

lemma unat_add_le:
  fixes a z :: uint64
  assumes "unat a + n \<le> unat z"
  shows "unat (a + of_nat n) = unat a + n" and "n < 2 ^ 64"
proof -
  have z: "unat z < 2 ^ 64" using unsigned_less [of z] by simp
  then show n: "n < 2 ^ 64" using assms by linarith
  show "unat (a + of_nat n) = unat a + n"
    using assms z n by (simp add: unat_word_ariths)
qed

lemma unat_sub_of_nat:
  fixes a :: uint64
  assumes "n \<le> unat a"
  shows "unat (a - of_nat n) = unat a - n"
proof -
  have "unat a < 2 ^ 64" using unsigned_less [of a] by simp
  then have "unat (of_nat n :: uint64) = n" using assms by simp
  with assms show ?thesis by (simp add: unat_sub word_le_nat_alt)
qed

lemma fits_0 [simp]: "top_ok s \<Longrightarrow> fits 0 s"
  by (auto simp: fits_def top_ok_def word_le_nat_alt split: list.splits)

lemma fits_mono: "fits n s \<Longrightarrow> m \<le> n \<Longrightarrow> fits m s"
  by (auto simp: fits_def split: list.splits)

lemma moved_fits: "moved n s s' \<Longrightarrow> fits n s"
  by (simp add: moved_def)

lemma moved_kind: "moved n s s' \<Longrightarrow> st_kind s' = None"
  by (simp add: moved_def)

lemma moved_top_ok: "moved n s s' \<Longrightarrow> top_ok s'"
  by (auto simp: moved_def fits_def top_ok_def word_le_nat_alt unat_add_le split: list.splits)

lemma moved_top_ok0: "moved n s s' \<Longrightarrow> top_ok s"
  by (auto simp: moved_def fits_def top_ok_def word_le_nat_alt split: list.splits)

lemma unat_moved:
  assumes "moved m s s'"
  shows "st_limited s \<Longrightarrow> unat (st_remaining s') = unat (st_remaining s) - m"
    and "st_stack s = (pos, sz) # r \<Longrightarrow> unat (pos + of_nat m) = unat pos + m"
  using assms by (auto simp: moved_def fits_def unat_sub_of_nat unat_add_le)

lemma fits_moved:
  assumes "moved m s s'"
  shows "fits n s' \<longleftrightarrow> fits (m + n) s"
proof -
  have f: "m \<le> length (st_input s)" "st_limited s \<Longrightarrow> m \<le> unat (st_remaining s)"
    "st_input s' = drop m (st_input s)" "st_limited s' = st_limited s"
    using assms by (auto simp: moved_def fits_def)
  show ?thesis
  proof (cases "st_stack s")
    case Nil
    then have "st_stack s' = []" using assms by (simp add: moved_def)
    then show ?thesis using Nil f unat_moved(1) [OF assms] by (auto simp: fits_def)
  next
    case (Cons p r)
    obtain pos sz where p: "p = (pos, sz)" by (cases p)
    then have "st_stack s' = (pos + of_nat m, sz) # r" using assms Cons by (simp add: moved_def)
    moreover note unat_moved(2) [OF assms Cons [unfolded p]]
    ultimately show ?thesis using Cons p f unat_moved(1) [OF assms] by (auto simp: fits_def)
  qed
qed

lemma moved_trans:
  assumes "moved m s s1" "moved n s1 s2"
  shows "moved (m + n) s s2"
proof -
  have "fits (m + n) s"
    using fits_moved [OF assms(1), of n] moved_fits [OF assms(2)] by simp
  with assms(1,2) show ?thesis
    by (auto simp: moved_def add.commute split: list.splits)
qed

lemma moved_0: "top_ok s \<Longrightarrow> st_kind s = None \<Longrightarrow> moved 0 s s"
  by (auto simp: moved_def split: list.splits)

lemma sbind_Ok_iff:
  "sbind m f s = (Ok a, s') \<longleftrightarrow> (\<exists>b s1. m s = (Ok b, s1) \<and> f b s1 = (Ok a, s'))"
  by (auto simp: sbind_def split: prod.splits result.splits)

lemma sbind_Ok [simp]: "m s = (Ok b, s1) \<Longrightarrow> sbind m f s = f b s1"
  by (simp add: sbind_def)

lemma willRead_Ok:
  assumes "willRead (of_nat n) s = (Ok u, s1)" "top_ok s" "n < 2 ^ 64" "n \<le> length (st_input s)"
  shows "moved n s (s1\<lparr>st_input := drop n (st_input s)\<rparr>)" and "st_input s1 = st_input s"
    and "st_kinderr s1 = st_kinderr s" and "st_byteval s1 = st_byteval s"
proof -
  have un: "unat (of_nat n :: uint64) = n" using assms(3) by simp
  have room: "unat pos + n \<le> unat sz" if "\<not> of_nat n > sz - pos" "pos \<le> sz" for pos sz :: uint64
    using that un by (simp add: word_less_nat_alt word_le_nat_alt unat_sub)
  have "\<not> of_nat n > st_remaining s \<Longrightarrow> n \<le> unat (st_remaining s)"
    using un by (simp add: word_less_nat_alt)
  with assms room show "moved n s (s1\<lparr>st_input := drop n (st_input s)\<rparr>)" and "st_input s1 = st_input s"
    and "st_kinderr s1 = st_kinderr s" and "st_byteval s1 = st_byteval s"
    by (auto simp: willRead_def Let_def moved_def fits_def top_ok_def split: list.splits if_splits)
qed

lemma willRead_fits:
  assumes "fits n s" "n < 2 ^ 64"
  shows "\<exists>s1. willRead (of_nat n) s = (Ok (), s1)"
proof -
  have un: "unat (of_nat n :: uint64) = n" using assms(2) by simp
  have "\<not> of_nat n > sz - pos" if "unat pos + n \<le> unat sz" for pos sz :: uint64
    using that un by (simp add: word_less_nat_alt word_le_nat_alt unat_sub)
  moreover have "n \<le> unat (st_remaining s) \<Longrightarrow> \<not> of_nat n > st_remaining s"
    using un by (simp add: word_less_nat_alt)
  ultimately show ?thesis using assms(1)
    by (auto simp: willRead_def Let_def fits_def split: list.splits)
qed

lemma readFull_Ok:
  assumes "readFull n s = (Ok b, s')" "top_ok s" "n < 2 ^ 64"
  shows "moved n s s'" "b = take n (st_input s)" "length b = n"
    "st_kinderr s' = st_kinderr s" "st_byteval s' = st_byteval s"
proof -
  from assms(1) obtain s1 where w: "willRead (of_nat n) s = (Ok (), s1)" "n \<le> length (st_input s1)"
    and b: "b = take n (st_input s1)" "s' = s1\<lparr>st_input := drop n (st_input s1)\<rparr>"
    by (auto simp: readFull_def sbind_Ok_iff split: if_splits)
  have i: "st_input s1 = st_input s" using w(1)
    by (auto simp: willRead_def Let_def split: list.splits if_splits)
  with w willRead_Ok [OF w(1) assms(2,3)] b
  show "moved n s s'" "b = take n (st_input s)" "length b = n"
    "st_kinderr s' = st_kinderr s" "st_byteval s' = st_byteval s" by auto
qed

lemma readFull_fits:
  assumes "fits n s" "n < 2 ^ 64"
  obtains s' where "readFull n s = (Ok (take n (st_input s)), s')"
proof -
  from willRead_fits [OF assms] obtain s1 where w: "willRead (of_nat n) s = (Ok (), s1)" by blast
  then have "st_input s1 = st_input s"
    by (auto simp: willRead_def Let_def split: list.splits if_splits)
  with w assms(1) that show thesis by (simp add: readFull_def fits_def)
qed

lemma readByte_readFull: "readByte = sbind (readFull 1) (\<lambda>b s. (Ok (b ! 0), s))"
  by (rule ext) (auto simp: readByte_def readFull_def sbind_def neq_Nil_conv split: prod.splits result.splits list.splits)

lemma be_val_zeros [simp]: "be_val (replicate n 0 @ bs) = be_val bs"
  by (induction n) (simp_all add: be_val_Cons)

lemma readUint_cases:
  assumes "1 \<le> unat sz" "unat sz \<le> 8"
  shows "readUint sz = sbind (readFull (unat sz)) (\<lambda>b s.
    if unat sz \<noteq> 1 \<and> b ! 0 = 0 then (Err ErrCanonSize, s) else (Ok (of_nat (be_val b)), s))"
proof (cases "unat sz = 1")
  case True
  then have [simp]: "sz = 1" by (simp add: word_unat_eq_iff)
  have "w64 (b ! 0) = of_nat (be_val (take 1 b))" if "1 \<le> length b" for b
    using that by (cases b) (auto simp: be_val_Cons)
  then show ?thesis
    by (auto simp: readUint_def readByte_readFull sbind_def readFull_def fun_eq_iff split: result.splits prod.splits)
next
  case False
  then have nz: "sz \<noteq> 0" "sz \<noteq> 1" "sz \<le> 8" using assms by (auto simp: word_le_nat_alt)
  then have "unat (8 - sz) = 8 - unat sz" by (simp add: unat_sub)
  moreover from this have "8 - unat (8 - sz) = unat sz" using assms by simp
  moreover have "\<not> 8 < unat (8 - sz)" using calculation(1) by simp
  ultimately show ?thesis using nz False
    by (simp add: readUint_def Let_def be64_be_val nth_append cong: if_cong)
qed

lemma putint_be_val:
  assumes "bs \<noteq> []" "length bs \<le> 8" "hd bs \<noteq> 0"
  shows "putint (of_nat (be_val bs)) = bs" "of_nat (be_val bs) \<noteq> (0 :: uint64)"
proof -
  have "be_val bs < 256 ^ 8"
    using be_val_less [of bs] power_increasing [of "length bs" 8 "256::nat"] assms(2) by simp
  then have lt: "unat (of_nat (be_val bs) :: uint64) = be_val bs" by simp
  have "1 \<le> be_val bs" using be_val_ge [OF assms(1,3)] one_le_power [of "256::nat" "length bs - 1"] by linarith
  then show nz: "of_nat (be_val bs) \<noteq> (0 :: uint64)" using lt by (metis not_one_le_zero unat_0)
  then show "putint (of_nat (be_val bs)) = bs"
    using lt assms(3) by (simp add: putint_be_bytes be_bytes_be_val)
qed

lemma readUint_Ok:
  assumes "readUint sz s = (Ok v, s')" "1 \<le> unat sz" "unat sz \<le> 8" "top_ok s" "v \<noteq> 0"
  shows "moved (unat sz) s s'" "take (unat sz) (st_input s) = putint v" "length (putint v) = unat sz"
    "st_kinderr s' = st_kinderr s" "st_byteval s' = st_byteval s"
proof -
  from assms(1) obtain b where r: "readFull (unat sz) s = (Ok b, s')" "\<not> (unat sz \<noteq> 1 \<and> b ! 0 = 0)"
    "v = of_nat (be_val b)"
    by (auto simp: readUint_cases [OF assms(2,3)] sbind_Ok_iff split: if_splits)
  note rf = readFull_Ok [OF r(1) assms(4)]
  have sz: "unat sz < 2 ^ 64" using assms(3) by simp
  have len: "length b = unat sz" using rf(3) [OF sz] .
  have "hd b \<noteq> 0"
  proof (cases "unat sz = 1")
    case True
    with len obtain x where b: "b = [x]" by (cases b) auto
    then show ?thesis using r(3) assms(5) by (auto simp: be_val_Cons)
  next
    case False
    moreover have "b \<noteq> []" using len assms(2) by auto
    ultimately show ?thesis using r(2) by (simp add: hd_conv_nth)
  qed
  then have "putint v = b" unfolding r(3) using len assms(2,3) by (intro putint_be_val) auto
  with rf sz len show "moved (unat sz) s s'" "take (unat sz) (st_input s) = putint v"
    "length (putint v) = unat sz" "st_kinderr s' = st_kinderr s" "st_byteval s' = st_byteval s"
    by auto
qed

lemma readUint_fits:
  assumes "fits (unat sz) s" "take (unat sz) (st_input s) = putint v" "unat sz = length (putint v)" "v \<noteq> 0"
  obtains s' where "readUint sz s = (Ok v, s')"
proof -
  have sz: "1 \<le> unat sz" "unat sz \<le> 8" using length_putint [of v] assms(3) by auto
  obtain s' where "readFull (unat sz) s = (Ok (putint v), s')"
    using readFull_fits [OF assms(1)] sz(2) assms(2) by fastforce
  moreover have "putint v ! 0 \<noteq> 0"
    using assms(4) hd_be_bytes [of "unat v"] by (simp add: putint_be_bytes hd_conv_nth unat_eq_zero)
  moreover have "of_nat (be_val (putint v)) = v" using assms(4) by (simp add: putint_be_bytes)
  ultimately show thesis using that by (simp add: readUint_cases [OF sz])
qed

text \<open>
  \<open>peeked k sz s s1\<close>: \<open>Kind\<close> has read the header of a value of kind \<open>k\<close> and content size \<open>sz\<close>.
\<close>

definition hdr :: "kind \<Rightarrow> uint64 \<Rightarrow> byte \<Rightarrow> bytes" where
  "hdr k sz b = (if k = Byte then [b] else tag_bytes k sz)"

definition peeked :: "kind \<Rightarrow> uint64 \<Rightarrow> stream \<Rightarrow> stream \<Rightarrow> bool" where
  "peeked k sz s s1 \<longleftrightarrow> st_kind s1 = Some k \<and> st_size s1 = sz \<and> st_kinderr s1 = None \<and>
     st_input s = hdr k sz (st_byteval s1) @ st_input s1 \<and>
     moved (length (hdr k sz (st_byteval s1))) s (s1\<lparr>st_kind := None\<rparr>) \<and>
     (k = Byte \<longrightarrow> st_byteval s1 < 0x80 \<and> sz = 0) \<and>
     (case st_stack s1 of [] \<Rightarrow> st_limited s1 \<longrightarrow> sz \<le> st_remaining s1
        | (pos, lsz) # _ \<Rightarrow> sz \<le> lsz - pos)"

lemma peeked_cached: "peeked k sz s s1 \<Longrightarrow> Kind s1 = (Ok (k, sz), s1)"
  by (simp add: peeked_def Kind_def)

lemma junk_simps [simp]:
  "fits n (s\<lparr>st_byteval := x\<rparr>) = fits n s" "fits n (s\<lparr>st_size := z\<rparr>) = fits n s"
  "fits n (s\<lparr>st_kinderr := e\<rparr>) = fits n s" "fits n (s\<lparr>st_kind := k\<rparr>) = fits n s"
  "top_ok (s\<lparr>st_byteval := x\<rparr>) = top_ok s" "top_ok (s\<lparr>st_size := z\<rparr>) = top_ok s"
  "top_ok (s\<lparr>st_kinderr := e\<rparr>) = top_ok s" "top_ok (s\<lparr>st_kind := k\<rparr>) = top_ok s"
  "moved n (s\<lparr>st_byteval := x\<rparr>) s' = moved n s s'" "moved n (s\<lparr>st_size := z\<rparr>) s' = moved n s s'"
  "moved n (s\<lparr>st_kinderr := e\<rparr>) s' = moved n s s'" "moved n (s\<lparr>st_kind := k\<rparr>) s' = moved n s s'"
  "moved n s (s'\<lparr>st_byteval := x\<rparr>) = moved n s s'" "moved n s (s'\<lparr>st_size := z\<rparr>) = moved n s s'"
  "moved n s (s'\<lparr>st_kinderr := e\<rparr>) = moved n s s'"
  by (simp_all add: fits_def top_ok_def moved_def)

lemma moved_kind_None [simp]: "moved n s s' \<Longrightarrow> moved n s (s'\<lparr>st_kind := None\<rparr>)"
  by (simp add: moved_def)

lemma readByte_Ok:
  assumes "readByte s = (Ok b, s')" "top_ok s"
  shows "moved 1 s s'" "st_input s = b # st_input s'" "st_kinderr s' = st_kinderr s" "st_byteval s' = st_byteval s"
proof -
  from assms(1) obtain bs where "readFull 1 s = (Ok bs, s')" "b = bs ! 0"
    by (auto simp: readByte_readFull sbind_Ok_iff)
  with readFull_Ok [OF this(1) assms(2)] show "moved 1 s s'" "st_input s = b # st_input s'"
    "st_kinderr s' = st_kinderr s" "st_byteval s' = st_byteval s"
    by (cases "st_input s"; auto simp: moved_def)+
qed

lemma readByte_fits:
  assumes "fits 1 s"
  obtains s' where "readByte s = (Ok (hd (st_input s)), s')"
proof -
  obtain s' where "readFull 1 s = (Ok (take 1 (st_input s)), s')" using readFull_fits [OF assms] by fastforce
  moreover have "take 1 (st_input s) ! 0 = hd (st_input s)" using assms
    by (cases "st_input s") (auto simp: fits_def)
  ultimately show thesis using that by (simp add: readByte_readFull)
qed

lemma tag_len:
  fixes b l :: byte
  assumes "l < b" "unat b \<le> unat l + 8"
  shows "1 \<le> unat (b - l)" "unat (b - l) \<le> 8"
    "unat (b - l) = length (putint cs) \<longleftrightarrow> b = l + of_nat (length (putint cs))"
proof -
  have u: "unat (b - l) = unat b - unat l" using assms(1) by (intro unat_byte_sub) simp
  then show "1 \<le> unat (b - l)" "unat (b - l) \<le> 8" using assms by (auto simp: word_less_nat_alt)
  show "unat (b - l) = length (putint cs) \<longleftrightarrow> b = l + of_nat (length (putint cs))"
  proof
    assume "unat (b - l) = length (putint cs)"
    then have "of_nat (length (putint cs)) = b - l" by (metis unat_word_inverse)
    then show "b = l + of_nat (length (putint cs))" by simp
  next
    assume "b = l + of_nat (length (putint cs))"
    then show "unat (b - l) = length (putint cs)" using length_putint [of cs] by simp
  qed
qed

text \<open>The five ranges of a type tag, with what the switch tests of them.\<close>

lemma tag_ranges:
  fixes b :: byte
  obtains (byte) "b < 0x80"
  | (short_string) "\<not> b < 0x80" "b < 0xB8" "0x80 \<le> b" "unat b < unat (0x80 :: byte) + 56"
  | (long_string) "\<not> b < 0x80" "\<not> b < 0xB8" "b < 0xC0" "0xB7 < b" "unat b \<le> unat (0xB7 :: byte) + 8"
  | (short_list) "\<not> b < 0x80" "\<not> b < 0xB8" "\<not> b < 0xC0" "b < 0xF8" "0xC0 \<le> b"
      "unat b < unat (0xC0 :: byte) + 56"
  | (long_list) "\<not> b < 0x80" "\<not> b < 0xB8" "\<not> b < 0xC0" "\<not> b < 0xF8" "0xF7 < b"
      "unat b \<le> unat (0xF7 :: byte) + 8"
proof -
  consider "unat b < 128" | "128 \<le> unat b" "unat b < 184" | "184 \<le> unat b" "unat b < 192"
    | "192 \<le> unat b" "unat b < 248" | "248 \<le> unat b" "unat b < 256"
    using unat_byte_less [of b] by linarith
  then show thesis
    by cases (rule that; simp add: word_less_nat_alt word_le_nat_alt)+
qed

lemma stream_readKind_Ok:
  assumes "stream_readKind s = ((k, sz, Ok u), s1)" "top_ok s"
  shows "st_input s = hdr k sz (st_byteval s1) @ st_input s1"
    "moved (length (hdr k sz (st_byteval s1))) s s1" "st_kinderr s1 = st_kinderr s"
    "k = Byte \<longrightarrow> st_byteval s1 < 0x80 \<and> sz = 0"
proof -
  from assms(1) obtain b s2 where rb: "readByte s = (Ok b, s2)"
    by (auto simp: stream_readKind_def split: prod.splits result.splits)
  note b = readByte_Ok [OF rb assms(2)]
  have large: "st_input s = hdr k sz (st_byteval s1) @ st_input s1 \<and>
    moved (length (hdr k sz (st_byteval s1))) s s1 \<and> st_kinderr s1 = st_kinderr s \<and> k \<noteq> Byte"
    if ru: "readUint (b - tag) (s2\<lparr>st_byteval := 0\<rparr>) = (Ok sz, s1)" and sz: "\<not> sz < 56"
      and tag: "tag < b" "unat b \<le> unat tag + 8" and k: "k \<noteq> Byte" "tag_bytes k sz = puthead small tag sz"
    for tag small
  proof -
    have "sz \<noteq> 0" "56 \<le> sz" using sz by auto
    note r = readUint_Ok [OF ru tag_len(1,2) [OF tag] _ this(1)]
    have ok: "top_ok (s2\<lparr>st_byteval := 0\<rparr>)" using moved_top_ok [OF b(1)] by simp
    have tb: "tag_bytes k sz = b # putint sz"
      using k(2) puthead_large [OF \<open>56 \<le> sz\<close>] tag_len(3) [OF tag, of sz] r(3) [OF ok] by simp
    have "st_input s2 = putint sz @ st_input s1"
      using r(1,2) [OF ok] by (simp add: moved_def) (metis append_take_drop_id)
    moreover have "moved (1 + length (putint sz)) s s1"
      using moved_trans [OF b(1), of "length (putint sz)" s1] r(1,3) [OF ok] by simp
    ultimately show ?thesis using b r(4) [OF ok] k(1) tb by (simp add: hdr_def)
  qed
  have "st_input s = hdr k sz (st_byteval s1) @ st_input s1 \<and>
    moved (length (hdr k sz (st_byteval s1))) s s1 \<and> st_kinderr s1 = st_kinderr s \<and>
    (k = Byte \<longrightarrow> st_byteval s1 < 0x80 \<and> sz = 0)"
  proof (cases b rule: tag_ranges)
    case byte
    with assms(1) rb b show ?thesis by (auto simp: stream_readKind_def Let_def hdr_def)
  next
    case short_string
    with assms(1) rb b tag_small [OF short_string(3,4)] show ?thesis
      by (auto simp: stream_readKind_def Let_def hdr_def)
  next
    case long_string
    then have "readUint (b - 0xB7) (s2\<lparr>st_byteval := 0\<rparr>) = (Ok sz, s1)" "\<not> sz < 56" "k = String"
      using assms(1) rb
      by (auto simp: stream_readKind_def Let_def split: prod.splits result.splits if_splits)
    with large [OF this(1,2) long_string(4,5), of "0x80"] show ?thesis by simp
  next
    case short_list
    with assms(1) rb b tag_small [OF short_list(5,6)] show ?thesis
      by (auto simp: stream_readKind_def Let_def hdr_def)
  next
    case long_list
    then have "readUint (b - 0xF7) (s2\<lparr>st_byteval := 0\<rparr>) = (Ok sz, s1)" "\<not> sz < 56" "k = List"
      using assms(1) rb
      by (auto simp: stream_readKind_def Let_def split: prod.splits result.splits if_splits)
    with large [OF this(1,2) long_list(5,6), of "0xC0"] show ?thesis by simp
  qed
  then show "st_input s = hdr k sz (st_byteval s1) @ st_input s1"
    "moved (length (hdr k sz (st_byteval s1))) s s1" "st_kinderr s1 = st_kinderr s"
    "k = Byte \<longrightarrow> st_byteval s1 < 0x80 \<and> sz = 0"
    by blast+
qed

lemma stream_readKind_fits:
  assumes "st_input s = hdr k sz b @ rest" "fits (length (hdr k sz b)) s" "k = Byte \<longrightarrow> b < 0x80 \<and> sz = 0"
  obtains s1 where "stream_readKind s = ((k, sz, Ok ()), s1)" "st_byteval s1 = (if k = Byte then b else 0)"
proof -
  have ne: "1 \<le> length (hdr k sz b)" by (cases k) (auto simp: hdr_def headsize_def)
  have "hdr k sz b \<noteq> []" using ne by auto
  then have "hd (st_input s) = hd (hdr k sz b)" using assms(1) by simp
  then obtain s2 where rb: "readByte s = (Ok (hd (hdr k sz b)), s2)"
    using readByte_fits [OF fits_mono [OF assms(2) ne]] by metis
  define c where "c = hd (hdr k sz b)"
  note rb = rb [folded c_def]
  have "top_ok s" using assms(2) by (auto simp: fits_def top_ok_def word_le_nat_alt split: list.splits)
  note m1 = readByte_Ok [OF rb this]
  show thesis
  proof (cases "k = Byte")
    case True
    then have "c = b" "b < 0x80" "sz = 0" using assms(3) by (simp_all add: c_def hdr_def)
    then show thesis using that True rb by (simp add: stream_readKind_def Let_def)
  next
    case False
    define small large where "small = (if k = String then 0x80 else 0xC0 :: byte)"
      and "large = (if k = String then 0xB7 else 0xF7 :: byte)"
    have h: "hdr k sz b = puthead small large sz"
      using False by (cases k) (auto simp: hdr_def small_def large_def)
    have c: "unat c = (if sz < 56 then unat small + unat sz else unat large + length (putint sz))"
      unfolding c_def h by (rule unat_hd_puthead) (auto simp: small_def large_def)
    show thesis
    proof (cases "sz < 56")
      case True
      then have sz: "unat sz < 56" by (simp add: word_less_nat_alt)
      have uc: "unat c = unat small + unat sz" using True c by simp
      have "unat (c - small) = unat c - unat small"
        using uc by (intro unat_byte_sub) (simp add: word_le_nat_alt)
      then have "w64 (c - small) = sz" using uc by (simp add: word_unat_eq_iff)
      with that False rb uc sz show thesis
        by (cases k) (auto simp: stream_readKind_def Let_def word_less_nat_alt small_def)
    next
      case big: False
      then have sz: "56 \<le> sz" "sz \<noteq> 0" by auto
      have u: "unat (c - large) = length (putint sz)" using c big
        by (subst unat_byte_sub) (auto simp: word_le_nat_alt)
      have len: "length (hdr k sz b) = 1 + length (putint sz)" using h puthead_large [OF sz(1)] by simp
      have "st_input s2 = putint sz @ rest" using m1(2) assms(1) h puthead_large [OF sz(1)] by simp
      moreover have "fits (unat (c - large)) s2" using fits_moved [OF m1(1)] assms(2) len u by simp
      ultimately obtain s3 where ru: "readUint (c - large) (s2\<lparr>st_byteval := 0\<rparr>) = (Ok sz, s3)"
        using readUint_fits [of "c - large" "s2\<lparr>st_byteval := 0\<rparr>" sz] u sz by auto
      have bv: "st_byteval s3 = 0"
        using readUint_Ok(5) [OF ru] u sz length_putint [of sz] moved_top_ok [OF m1(1)] by simp
      have "stream_readKind s = ((k, sz, Ok ()), s3)"
        using ru rb big c False length_putint [of sz]
        by (cases k) (auto simp: stream_readKind_def Let_def word_less_nat_alt large_def)
      with that bv False show thesis by simp
    qed
  qed
qed

lemma Kind_Ok:
  assumes "Kind s = (Ok (k, sz), s1)" "st_kind s = None" "top_ok s"
  shows "peeked k sz s s1"
proof -
  from assms(1,2) obtain s2 where rk: "stream_readKind (s\<lparr>st_kinderr := None\<rparr>) = ((k, sz, Ok ()), s2)"
    and s1: "s1 = s2\<lparr>st_kind := Some k, st_size := sz\<rparr>"
    and fit: "case st_stack s2 of [] \<Rightarrow> \<not> (st_limited s2 \<and> sz > st_remaining s2) | (pos, lsz) # _ \<Rightarrow> \<not> sz > lsz - pos"
    by (auto simp: Kind_def Let_def split: if_splits prod.splits result.splits list.splits option.splits)
  note r = stream_readKind_Ok [OF rk]
  have "moved n s s2 \<Longrightarrow> moved n s (s1\<lparr>st_kind := None\<rparr>)" for n
    unfolding s1 by (simp add: moved_def)
  with r assms(3) s1 fit show ?thesis
    by (auto simp: peeked_def not_less split: list.splits)
qed

lemma Kind_fits:
  assumes "st_input s = hdr k sz b @ rest" "fits (length (hdr k sz b) + unat sz) s"
    "k = Byte \<longrightarrow> b < 0x80 \<and> sz = 0" "st_kind s = None"
  obtains s1 where "Kind s = (Ok (k, sz), s1)" "peeked k sz s s1" "k = Byte \<longrightarrow> st_byteval s1 = b"
proof -
  let ?s0 = "s\<lparr>st_kinderr := None\<rparr>"
  have f: "fits (length (hdr k sz b)) ?s0" using fits_mono [OF assms(2)] by simp
  from stream_readKind_fits [of ?s0 k sz b rest, OF _ f assms(3)] assms(1) obtain s1 where
    rk: "stream_readKind ?s0 = ((k, sz, Ok ()), s1)" "st_byteval s1 = (if k = Byte then b else 0)"
    by auto
  have ok: "top_ok s" using fits_mono [OF assms(2), of 0] by (auto simp: fits_def top_ok_def word_le_nat_alt split: list.splits)
  have ne: "1 \<le> length (hdr k sz b)" by (cases k) (auto simp: hdr_def headsize_def)
  have eq: "hdr k sz (st_byteval s1) = hdr k sz b" using rk(2) by (simp add: hdr_def)
  from stream_readKind_Ok [OF rk(1)] ok eq have m: "moved (length (hdr k sz b)) s s1" by simp
  have f1: "fits (unat sz) s1" using fits_moved [OF m] assms(2) by simp
  have noteol: "\<not> (case st_stack s of [] \<Rightarrow> False | (pos, z) # _ \<Rightarrow> pos = z)"
    using assms(2) ne by (auto simp: fits_def split: list.splits)
  have fit: "case st_stack s1 of [] \<Rightarrow> \<not> (st_limited s1 \<and> sz > st_remaining s1) | (pos, lsz) # _ \<Rightarrow> \<not> sz > lsz - pos"
    using f1 by (auto simp: fits_def word_less_nat_alt word_le_nat_alt unat_sub split: list.splits)
  have "Kind s = (Ok (k, sz), s1\<lparr>st_kind := Some k, st_size := sz\<rparr>)"
    using noteol rk(1) fit assms(4)
    by (auto simp: Kind_def Let_def split: list.splits option.splits if_splits)
  with that Kind_Ok [OF this assms(4) ok] rk(2) show thesis by auto
qed

section \<open>Strings, integers and lists\<close>

definition consumed :: "bytes \<Rightarrow> stream \<Rightarrow> stream \<Rightarrow> bool" where
  "consumed e s s' \<longleftrightarrow> moved (length e) s s' \<and> st_input s = e @ st_input s'"

lemma fits_top_ok: "fits n s \<Longrightarrow> top_ok s"
  by (auto simp: fits_def top_ok_def word_le_nat_alt split: list.splits)

lemma moved_consumed: "moved n s s' \<Longrightarrow> consumed (take n (st_input s)) s s'"
proof -
  assume m: "moved n s s'"
  then have "n \<le> length (st_input s)" "st_input s' = drop n (st_input s)"
    by (auto simp: moved_def fits_def)
  with m show ?thesis by (simp add: consumed_def min_absorb2)
qed

lemma consumed_trans: "consumed a s s1 \<Longrightarrow> consumed b s1 s2 \<Longrightarrow> consumed (a @ b) s s2"
  by (auto simp: consumed_def intro: moved_trans)

text \<open>A value is a header and a content; reading the content after the header consumes it.\<close>

lemma peeked_consumed:
  assumes "peeked k sz s s1" "moved (unat sz) (s1\<lparr>st_kind := None\<rparr>) s'" "k \<noteq> Byte"
  shows "consumed (tag_bytes k sz @ take (unat sz) (st_input s1)) s s'"
proof (rule consumed_trans)
  show "consumed (tag_bytes k sz) s (s1\<lparr>st_kind := None\<rparr>)"
    using assms(1,3) by (simp add: peeked_def consumed_def hdr_def)
  show "consumed (take (unat sz) (st_input s1)) (s1\<lparr>st_kind := None\<rparr>) s'"
    using moved_consumed [OF assms(2)] by simp
qed

lemma peeked_Byte: "peeked Byte sz s s1 \<Longrightarrow> consumed [st_byteval s1] s (s1\<lparr>st_kind := None\<rparr>)"
  by (simp add: peeked_def consumed_def hdr_def)

lemma readFull_kind: "readFull n (s\<lparr>st_kind := k\<rparr>) = readFull n s"
  by (simp add: readFull_def sbind_def willRead_def Let_def)

lemma peeked_top_ok: "peeked k sz s s1 \<Longrightarrow> top_ok s1"
  by (auto simp: peeked_def dest: moved_top_ok)

lemma readFull_peeked:
  assumes "peeked k sz s s1" "readFull (unat sz) s1 = (Ok b, s')" "k \<noteq> Byte"
  shows "consumed (tag_bytes k sz @ b) s s'" "length b = unat sz"
proof -
  have lt: "unat sz < 2 ^ 64" using unsigned_less [of sz] by simp
  note r = readFull_Ok [OF assms(2) peeked_top_ok [OF assms(1)] lt]
  have "moved (unat sz) (s1\<lparr>st_kind := None\<rparr>) s'" using r(1) by simp
  with peeked_consumed [OF assms(1) this assms(3)] r show "consumed (tag_bytes k sz @ b) s s'" "length b = unat sz"
    by simp_all
qed

lemma readFull_peeked_fits:
  assumes "peeked k sz s s1" "fits (length (tag_bytes k sz) + unat sz) s" "k \<noteq> Byte"
  obtains s' where "readFull (unat sz) s1 = (Ok (take (unat sz) (st_input s1)), s')"
proof -
  have lt: "unat sz < 2 ^ 64" using unsigned_less [of sz] by simp
  have "moved (length (tag_bytes k sz)) s (s1\<lparr>st_kind := None\<rparr>)"
    using assms(1,3) by (simp add: peeked_def hdr_def)
  from fits_moved [OF this] assms(2) have "fits (unat sz) s1" by simp
  from readFull_fits [OF this lt] that show thesis by blast
qed

text \<open>Byte strings.\<close>

lemma enc_string_byte: "x < 0x80 \<Longrightarrow> enc_string [x] = [x]"
  by (simp add: enc_string_def)

lemma enc_string_long:
  assumes "length b = unat sz" "\<not> (sz = 1 \<and> b ! 0 < 128)"
  shows "enc_string b = tag_bytes String sz @ b"
proof -
  have "length b = 1 \<longleftrightarrow> sz = 1" using assms(1) by (auto simp: word_unat_eq_iff)
  moreover have "of_nat (length b) = sz" using assms(1) by simp
  ultimately show ?thesis using assms(2) by (cases b) (auto simp: enc_string_def)
qed

lemma Bytes_Ok:
  assumes "Bytes s = (Ok b, s')" "st_kind s = None" "top_ok s"
  shows "consumed (enc_string b) s s'"
proof -
  from assms(1) obtain k sz s1 where K: "Kind s = (Ok (k, sz), s1)"
    and B: "(case k of Byte \<Rightarrow> (Ok [st_byteval s1], s1\<lparr>st_kind := None\<rparr>)
     | String \<Rightarrow> sbind (readFull (unat sz)) (\<lambda>b s1.
         if sz = 1 \<and> b ! 0 < 128 then (Err ErrCanonSize, s1) else (Ok b, s1)) s1
     | List \<Rightarrow> (Err ErrExpectedString, s1)) = (Ok b, s')"
    by (auto simp: Bytes_def sbind_Ok_iff)
  have pk: "peeked k sz s s1" using Kind_Ok [OF K assms(2,3)] .
  show ?thesis
  proof (cases k)
    case Byte
    with B have "b = [st_byteval s1]" "s' = s1\<lparr>st_kind := None\<rparr>" by auto
    moreover from pk Byte have "st_byteval s1 < 0x80" by (simp add: peeked_def)
    ultimately show ?thesis using peeked_Byte [of sz s s1] pk Byte by (simp add: enc_string_byte)
  next
    case String
    with B have rf: "readFull (unat sz) s1 = (Ok b, s')" "\<not> (sz = 1 \<and> b ! 0 < 128)"
      by (auto simp: sbind_Ok_iff split: if_splits)
    from readFull_peeked [OF pk rf(1)] String show ?thesis
      by (simp add: enc_string_long [OF _ rf(2)])
  qed (use B in simp)
qed

lemma string_Kind:
  assumes "st_input s = enc_string b @ rest" "fits (length (enc_string b)) s" "st_kind s = None" "length b < 2 ^ 64"
  obtains (single) x s1 where "b = [x]" "x < 0x80" "Kind s = (Ok (Byte, 0), s1)" "peeked Byte 0 s s1" "st_byteval s1 = x"
  | (string) s1 s2 where "\<not> (of_nat (length b) = (1 :: uint64) \<and> b ! 0 < 128)"
      "Kind s = (Ok (String, of_nat (length b)), s1)" "peeked String (of_nat (length b)) s s1"
      "readFull (length b) s1 = (Ok b, s2)" "st_input s1 = b @ rest"
proof (cases "length b = 1 \<and> hd b < 0x80")
  case True
  then obtain x where x: "b = [x]" "x < 0x80" by (cases b) auto
  then have e: "enc_string b = hdr Byte 0 x" by (simp add: enc_string_byte hdr_def)
  obtain s1 where "Kind s = (Ok (Byte, 0), s1)" "peeked Byte 0 s s1" "st_byteval s1 = x"
    using Kind_fits [of s Byte 0 x rest] assms e x by auto
  with single x show thesis by blast
next
  case False
  let ?sz = "of_nat (length b) :: uint64"
  have e: "enc_string b = tag_bytes String ?sz @ b" using False by (auto simp: enc_string_def)
  have un: "unat ?sz = length b" using assms(4) by simp
  have h: "hdr String ?sz 0 = tag_bytes String ?sz" by (simp add: hdr_def)
  obtain s1 where K: "Kind s = (Ok (String, ?sz), s1)" "peeked String ?sz s s1"
    using Kind_fits [of s String ?sz 0 "b @ rest", unfolded h un] assms(1-3) e by auto
  have inp: "st_input s1 = b @ rest"
    using K(2) assms(1) e by (simp add: peeked_def hdr_def)
  obtain s2 where "readFull (length b) s1 = (Ok b, s2)"
    using readFull_peeked_fits [OF K(2)] assms(2) e un inp by auto
  moreover have "\<not> (?sz = 1 \<and> b ! 0 < 128)"
  proof
    assume A: "?sz = 1 \<and> b ! 0 < 128"
    then have "length b = 1" using un by simp
    with A False show False by (cases b) auto
  qed
  ultimately show thesis using string K inp by blast
qed

lemma Bytes_fits:
  assumes "st_input s = enc_string b @ rest" "fits (length (enc_string b)) s" "st_kind s = None" "length b < 2 ^ 64"
  obtains s' where "Bytes s = (Ok b, s')" "consumed (enc_string b) s s'"
proof -
  have "\<exists>s'. Bytes s = (Ok b, s')"
    using assms
  proof (cases rule: string_Kind)
    case (single x s1)
    then show ?thesis by (simp add: Bytes_def)
  next
    case (string s1 s2)
    then show ?thesis using assms(4) by (simp add: Bytes_def)
  qed
  with that Bytes_Ok assms(3) fits_top_ok [OF assms(2)] show thesis by blast
qed

text \<open>Unsigned integers.\<close>

lemma length_be_bytes_unat: "length (be_bytes (unat (v :: uint64))) \<le> 8"
  using unsigned_less [of v] by (simp add: length_be_bytes_le_iff)

lemma readUint_kind [simp]: "readUint sz (s\<lparr>st_kind := k\<rparr>) =
   (if sz \<noteq> 0 \<and> sz \<noteq> 1 \<and> unat (8 - sz) > 8 then (Panic IndexOutOfRange, s\<lparr>st_kind := k\<rparr>) else readUint sz s)"
  by (auto simp: readUint_def Let_def readByte_readFull sbind_def readFull_kind)

lemma stream_uint_Ok:
  assumes "stream_uint bits s = (Ok v, s')" "st_kind s = None" "top_ok s" "bits \<le> 64"
  shows "consumed (enc_string (be_bytes (unat v))) s s'" "length (be_bytes (unat v)) \<le> bits div 8 \<or> unat v < 128"
proof -
  have "consumed (enc_string (be_bytes (unat v))) s s' \<and> (length (be_bytes (unat v)) \<le> bits div 8 \<or> unat v < 128)"
  proof -
    from assms(1) obtain k sz s1 where K: "Kind s = (Ok (k, sz), s1)"
      by (auto simp: stream_uint_def sbind_Ok_iff)
    have pk: "peeked k sz s s1" using Kind_Ok [OF K assms(2,3)] .
    show ?thesis
    proof (cases k)
      case Byte
      with assms(1) K have v: "v = w64 (st_byteval s1)" "st_byteval s1 \<noteq> 0" "s' = s1\<lparr>st_kind := None\<rparr>"
        by (auto simp: stream_uint_def split: if_splits)
      then have "be_bytes (unat v) = [st_byteval s1]"
        using be_bytes_be_val [of "[st_byteval s1]"] by (simp add: be_val_Cons)
      moreover from pk Byte have "st_byteval s1 < 0x80" by (simp add: peeked_def)
      ultimately show ?thesis using peeked_Byte [of sz s s1] pk Byte v
        by (simp add: enc_string_byte word_less_nat_alt)
    next
      case String
      with assms(1) K have r: "\<not> sz > of_nat (bits div 8)" "readUint (ucast sz) s1 = (Ok v, s')" "\<not> (sz > 0 \<and> v < 128)"
        by (auto simp: stream_uint_def split: if_splits prod.splits result.splits)
      have "unat (of_nat (bits div 8) :: uint64) = bits div 8" using assms(4) by simp
      then have sz: "unat sz \<le> bits div 8" "unat sz \<le> 8" using r(1) assms(4) by (auto simp: word_less_nat_alt)
      then have uc: "unat (ucast sz :: byte) = unat sz" by (simp add: unat_ucast_byte)
      show ?thesis
      proof (cases "sz = 0")
        case True
        then have v: "v = 0" "s' = s1\<lparr>st_kind := None\<rparr>" using r(2) by (auto simp: readUint_def)
        have "consumed (tag_bytes k 0) s (s1\<lparr>st_kind := None\<rparr>)"
          using pk String True by (simp add: peeked_def consumed_def hdr_def)
        then show ?thesis using v String by (simp add: enc_string_def)
      next
        case False
        then have v: "128 \<le> v" using r(3) by (auto simp: word_neq_0_conv not_less)
        then have v0: "v \<noteq> 0" by (auto simp: word_le_nat_alt)
        have b: "1 \<le> unat (ucast sz :: byte)" "unat (ucast sz :: byte) \<le> 8"
          using False sz uc unat_gt_0 [of sz] by (auto simp: Suc_le_eq)
        note ru = readUint_Ok [OF r(2) b peeked_top_ok [OF pk] v0, unfolded uc]
        have be: "be_bytes (unat v) = putint v" using v0 by (simp add: putint_be_bytes)
        have "moved (unat sz) (s1\<lparr>st_kind := None\<rparr>) s'" using ru(1) by simp
        from peeked_consumed [OF pk this] String ru(2) have "consumed (tag_bytes String sz @ putint v) s s'" by simp
        moreover have "\<not> (sz = 1 \<and> putint v ! 0 < 128)"
        proof
          assume A: "sz = 1 \<and> putint v ! 0 < 128"
          then obtain x where x: "putint v = [x]" using ru(3) by (auto simp: length_Suc_conv)
          then have "unat v = unat x" using be be_val_be_bytes [of "unat v"] by (simp add: be_val_Cons)
          with A x v show False by (simp add: word_less_nat_alt word_le_nat_alt)
        qed
        ultimately show ?thesis using ru(3) sz be by (simp add: enc_string_long)
      qed
    next
      case List
      with assms(1) K show ?thesis by (simp add: stream_uint_def)
    qed
  qed
  then show "consumed (enc_string (be_bytes (unat v))) s s'" "length (be_bytes (unat v)) \<le> bits div 8 \<or> unat v < 128"
    by blast+
qed

lemma stream_uint_fits:
  assumes "st_input s = enc_string (be_bytes (unat v)) @ rest"
    "fits (length (enc_string (be_bytes (unat v)))) s" "st_kind s = None"
    "length (be_bytes (unat v)) \<le> bits div 8" "bits \<le> 64"
  obtains s' where "stream_uint bits s = (Ok v, s')" "consumed (enc_string (be_bytes (unat v))) s s'"
proof -
  have len: "length (be_bytes (unat v)) \<le> 8" by (rule length_be_bytes_unat)
  then have lt: "length (be_bytes (unat v)) < 2 ^ 64" by simp
  have "\<exists>s'. stream_uint bits s = (Ok v, s')"
    using assms(1-3) lt
  proof (cases rule: string_Kind)
    case (single x s1)
    from single(1) have "unat v \<noteq> 0" by (metis be_bytes_0 list.distinct(1))
    with single(1) have v: "unat v = unat x" "unat x \<noteq> 0"
      using be_val_be_bytes [of "unat v"] by (auto simp: be_val_Cons)
    then have "v = w64 x" "x \<noteq> 0" by (auto simp: word_unat_eq_iff)
    with single show ?thesis by (simp add: stream_uint_def)
  next
    case (string s1 s2)
    let ?sz = "of_nat (length (be_bytes (unat v))) :: uint64"
    have un: "unat ?sz = length (be_bytes (unat v))" using lt by simp
    have uc: "unat (ucast ?sz :: byte) = length (be_bytes (unat v))" using un len by (simp add: unat_ucast_byte)
    have "unat (of_nat (bits div 8) :: uint64) = bits div 8" using assms(5) by simp
    then have ov: "\<not> ?sz > of_nat (bits div 8)" using assms(4) un by (simp add: word_less_nat_alt)
    show ?thesis
    proof (cases "v = 0")
      case True
      with string show ?thesis by (simp add: stream_uint_def readUint_def)
    next
      case False
      then have be: "be_bytes (unat v) = putint v" by (simp add: putint_be_bytes)
      have "moved (length (be_bytes (unat v))) s1 s2"
        using readFull_Ok [OF string(4) peeked_top_ok [OF string(3)] lt] by simp
      then have "fits (unat (ucast ?sz :: byte)) s1" using uc moved_fits by simp
      from readUint_fits [OF this _ _ False] uc be string(5) obtain s3 where
        ru: "readUint (ucast ?sz) s1 = (Ok v, s3)" by auto
      have "v < 128 \<Longrightarrow> ?sz = 1 \<and> be_bytes (unat v) ! 0 < 128"
      proof -
        assume "v < 128"
        then have "unat v < 128" by (simp add: word_less_nat_alt)
        then have "be_bytes (unat v) = [of_nat (unat v)]" using False
          be_bytes_unfold [of "unat v"] unat_gt_0 [of v] by simp
        then show ?thesis using \<open>unat v < 128\<close> by (simp add: word_less_nat_alt del: of_nat_unat)
      qed
      with ov ru string(1,2) show ?thesis by (auto simp: stream_uint_def)
    qed
  qed
  then obtain s' where ok: "stream_uint bits s = (Ok v, s')" by blast
  with stream_uint_Ok [OF ok assms(3) fits_top_ok [OF assms(2)] assms(5)] that show thesis by blast
qed

text \<open>
  Lists. \<open>opened sz s s1\<close>: \<open>List\<close> has read the header of a list of \<open>sz\<close> payload bytes and has
  pushed it.
\<close>

definition opened :: "uint64 \<Rightarrow> stream \<Rightarrow> stream \<Rightarrow> bool" where
  "opened sz s s1 \<longleftrightarrow> (\<exists>s0. moved (headsize sz) s s0 \<and> st_input s = puthead 0xC0 0xF7 sz @ st_input s1 \<and>
     st_kind s1 = None \<and> st_input s1 = st_input s0 \<and> st_limited s1 = st_limited s0 \<and>
     st_remaining s1 = st_remaining s0 \<and> st_stack s1 = (0, sz) # st_stack s0 \<and>
     (case st_stack s0 of [] \<Rightarrow> True | (pos, lsz) # _ \<Rightarrow> unat pos + unat sz \<le> unat lsz))"

lemma opened_top_ok: "opened sz s s1 \<Longrightarrow> top_ok s1"
  by (auto simp: opened_def top_ok_def)

lemma opened_kind: "opened sz s s1 \<Longrightarrow> st_kind s1 = None"
  by (auto simp: opened_def)

lemma stream_List_Ok:
  assumes "stream_List s = (Ok sz, s1)" "st_kind s = None" "top_ok s"
  shows "opened sz s s1"
proof -
  from assms(1) obtain s0 where K: "Kind s = (Ok (List, sz), s0)"
    and s1: "s1 = s0\<lparr>st_stack := (0, sz) # st_stack s0, st_kind := None, st_size := 0\<rparr>"
    by (auto simp: stream_List_def sbind_Ok_iff split: if_splits)
  have pk: "peeked List sz s s0" using Kind_Ok [OF K assms(2,3)] .
  then have m: "moved (headsize sz) s (s0\<lparr>st_kind := None\<rparr>)" and i: "st_input s = puthead 0xC0 0xF7 sz @ st_input s0"
    by (simp_all add: peeked_def hdr_def)
  have "unat pos + unat sz \<le> unat lsz" if "st_stack s0 = (pos, lsz) # r" for pos lsz r
    using pk that moved_top_ok [OF m] by (auto simp: peeked_def top_ok_def word_le_nat_alt unat_sub)
  with m i s1 show ?thesis
    unfolding opened_def by (intro exI [of _ "s0\<lparr>st_kind := None\<rparr>"]) (auto split: list.splits)
qed

lemma stream_List_fits:
  assumes "st_input s = enc_list p @ rest" "fits (length (enc_list p)) s" "st_kind s = None" "length p < 2 ^ 64"
  obtains s1 where "stream_List s = (Ok (of_nat (length p)), s1)" "opened (of_nat (length p)) s s1"
    "st_input s1 = p @ rest" "fits (length p) s1"
proof -
  let ?sz = "of_nat (length p) :: uint64"
  have un: "unat ?sz = length p" using assms(4) by simp
  have h: "hdr List ?sz 0 = puthead 0xC0 0xF7 ?sz" by (simp add: hdr_def)
  have e: "enc_list p = hdr List ?sz 0 @ p" by (simp add: enc_list_def h)
  obtain s0 where K: "Kind s = (Ok (List, ?sz), s0)"
    using Kind_fits [of s List ?sz 0 "p @ rest", unfolded un] assms(1-3) e by auto
  let ?s1 = "s0\<lparr>st_stack := (0, ?sz) # st_stack s0, st_kind := None, st_size := 0\<rparr>"
  have L: "stream_List s = (Ok ?sz, ?s1)" using K by (simp add: stream_List_def)
  have op: "opened ?sz s ?s1" using stream_List_Ok [OF L assms(3) fits_top_ok [OF assms(2)]] .
  then have inp: "st_input ?s1 = p @ rest" using assms(1) by (auto simp: opened_def enc_list_def)
  obtain t where t: "moved (headsize ?sz) s t" "st_limited ?s1 = st_limited t" "st_remaining ?s1 = st_remaining t"
    using op unfolding opened_def by blast
  have "fits (length p) t" using fits_moved [OF t(1)] assms(2) by (simp add: enc_list_def)
  then have "fits (length p) ?s1" using inp t(2,3) un by (simp add: fits_def)
  with that L op inp show thesis by blast
qed

lemma ListEnd_Ok:
  assumes "opened sz s s1" "moved n s1 s2" "ListEnd s2 = (Ok (), s3)"
  shows "n = unat sz" "moved (headsize sz + unat sz) s s3"
proof -
  from assms(1) obtain s0 where o: "moved (headsize sz) s s0" "st_input s1 = st_input s0"
    "st_limited s1 = st_limited s0" "st_remaining s1 = st_remaining s0" "st_stack s1 = (0, sz) # st_stack s0"
    "case st_stack s0 of [] \<Rightarrow> True | (pos, lsz) # _ \<Rightarrow> unat pos + unat sz \<le> unat lsz"
    unfolding opened_def by blast
  from assms(2) o(5) have st: "st_stack s2 = (of_nat n, sz) # st_stack s0" and n: "n \<le> unat sz"
    by (auto simp: moved_def fits_def)
  from assms(3) st have e: "of_nat n = sz"
    and s3: "s3 = s2\<lparr>st_stack := (case st_stack s0 of [] \<Rightarrow> [] | (p, z) # r \<Rightarrow> (p + sz, z) # r), st_kind := None, st_size := 0\<rparr>"
    by (auto simp: ListEnd_def split: if_splits)
  have "n < 2 ^ 64" using n unsigned_less [of sz, where ?'a = nat] by simp
  then show n: "n = unat sz" using e by auto
  have "fits n s0" using assms(2) o n by (auto simp: moved_def fits_def split: list.splits)
  then have "moved n s0 s3" using assms(2) o s3 e by (auto simp: moved_def split: list.splits)
  from moved_trans [OF o(1) this] n show "moved (headsize sz + unat sz) s s3" by simp
qed

lemma ListEnd_fits:
  assumes "opened sz s s1" "moved (unat sz) s1 s2"
  obtains s3 where "ListEnd s2 = (Ok (), s3)"
proof -
  have "\<exists>r. st_stack s2 = (sz, sz) # r" using assms by (auto simp: opened_def moved_def)
  with that show thesis by (auto simp: ListEnd_def)
qed

section \<open>Round trip\<close>

text \<open>
  The values of a type that survive a round trip. Excluded are: the one-byte array holding zero
  and raw strings of more than 55 bytes (see \<open>byte_array_zero_not_consumed\<close> and
  \<open>Raw_long_string\<close> below), pointers with the \<open>nil\<close> tag whose target encodes like a nil pointer,
  and nil pointers without that tag, which decode to a pointer to a zero value.
\<close>

fun spine :: "gtype \<Rightarrow> bool" where
  "spine (TTail e) = False"
| "spine (TPtr e) = spine e"
| "spine _ = True"

inductive typed :: "gtype \<Rightarrow> gval \<Rightarrow> bool"
  and typed_elems :: "gtype \<Rightarrow> gval list \<Rightarrow> bool"
  and typed_fields :: "gtype list \<Rightarrow> gval list \<Rightarrow> bool" where
  Raw: "item_ok k c \<Longrightarrow> (k = String \<longrightarrow> length c < 56) \<Longrightarrow> typed TRaw (VRaw (item_tag k c @ c))"
| BigInt: "0 \<le> i \<Longrightarrow> typed TBigInt (VBigInt i)"
| UInt: "bits \<in> {8, 16, 32, 64} \<Longrightarrow> unat i < 2 ^ bits \<Longrightarrow> typed (TUint bits) (VUint i)"
| Bool: "typed TBool (VBool b)"
| Str: "typed TString (VString b)"
| Bytes: "typed TBytes (VBytes b)"
| ByteArray: "length b = n \<Longrightarrow> b \<noteq> [0] \<Longrightarrow> typed (TByteArray n) (VByteArray b)"
| Slice: "typed_elems e vs \<Longrightarrow> typed (TSlice e) (VSlice vs)"
| Array: "typed_elems e vs \<Longrightarrow> length vs = n \<Longrightarrow> typed (TArray n e) (VSlice vs)"
| Struct: "typed_fields ts vs \<Longrightarrow> typed (TStruct ts) (VStruct vs)"
| Ptr: "typed e x \<Longrightarrow> typed (TPtr e) (VPtr x)"
| OptPtr: "typed e x \<Longrightarrow> enc_ref x \<noteq> Ok [0x80] \<Longrightarrow> enc_ref x \<noteq> Ok [0xC0] \<Longrightarrow> spine e \<Longrightarrow>
    typed (TOptPtr e) (VPtr x)"
| NilPtr: "enc_ref (nil_of e) = Ok [0x80] \<or> enc_ref (nil_of e) = Ok [0xC0] \<Longrightarrow>
    typed (TOptPtr e) (nil_of e)"
| IfBytes: "typed TInterface (VInterface (VBytes b))"
| IfList: "typed_elems TInterface vs \<Longrightarrow> typed TInterface (VInterface (VSlice vs))"
| ElemsNil: "typed_elems e []"
| ElemsCons: "typed e v \<Longrightarrow> typed_elems e vs \<Longrightarrow> typed_elems e (v # vs)"
| FieldsNil: "typed_fields [] []"
| FieldsTail: "spine e \<Longrightarrow> typed_elems e xs \<Longrightarrow> typed_fields [TTail e] [VTail xs]"
| FieldsCons: "typed t v \<Longrightarrow> typed_fields ts vs \<Longrightarrow> typed_fields (t # ts) (v # vs)"

text \<open>The end of the innermost list: every element decoder reports it and consumes nothing.\<close>

definition at_end :: "stream \<Rightarrow> bool" where
  "at_end s = (case st_stack s of [] \<Rightarrow> False | (pos, sz) # _ \<Rightarrow> pos = sz)"

lemma Kind_at_end: "at_end s \<Longrightarrow> st_kind s = None \<Longrightarrow> Kind s = (Err EOL, s\<lparr>st_kinderr := None\<rparr>)"
  by (auto simp: at_end_def Kind_def Let_def split: list.splits)

lemma sbind_Err [simp]: "m s = (Err e, s1) \<Longrightarrow> sbind m f s = (Err e, s1)"
  by (simp add: sbind_def)

lemma dbind_simps [simp]:
  "m s = Some (Ok a, s1) \<Longrightarrow> dbind m f s = f a s1"
  "m s = Some (Err e, s1) \<Longrightarrow> dbind m f s = Some (Err e, s1)"
  "dlift c s = Some (c s)" "dret a s = Some (Ok a, s)"
  by (simp_all add: dbind_def dlift_def dret_def)

lemma Kind_Err_decoders:
  assumes "Kind s = (Err e, s1)"
  shows "decodeRawValue s = (Err e, s1)" "decodeBigInt s = (Err e, s1)" "decodeUint bits s = (Err e, s1)"
    "decodeBool s = (Err e, s1)" "decodeString s = (Err e, s1)" "decodeByteSlice s = (Err e, s1)"
    "decodeByteArray vlen s = (Err e, s1)" "stream_List s = (Err e, s1)"
  using assms by (simp_all add: decodeRawValue_def decodeBigInt_def decodeUint_def decodeBool_def
      decodeString_def decodeByteSlice_def decodeByteArray_def Raw_def Bytes_def Bool_def stream_uint_def stream_List_def)

lemma decode_Kind_Err:
  assumes "Kind s = (Err err, s1)" "st_kind s1 = None"
  shows "spine e \<Longrightarrow> size e + 1 < n \<Longrightarrow> decode n e s = Some (Err err, s1)"
proof (induction e arbitrary: n)
  case (TOptPtr e)
  then obtain m where n: "n = Suc m" by (cases n) auto
  have "s1\<lparr>st_kind := None\<rparr> = s1" using assms(2) by simp
  with n assms(1) show ?case by simp
next
  case (TSlice e)
  then obtain m where n: "n = Suc (Suc m)" by (cases n; cases "n - 1") auto
  then show ?case using Kind_Err_decoders [OF assms(1)] by simp
next
  case (TPtr e)
  then obtain m where "n = Suc m" by (cases n) auto
  with TPtr show ?case by simp
qed (auto simp: Kind_Err_decoders [OF assms(1)] assms(1) gr0_conv_Suc less_iff_Suc_add)

lemma decode_at_end:
  assumes "spine e" "at_end s" "st_kind s = None" "size e + 1 < n"
  shows "\<exists>s'. decode n e s = Some (Err EOL, s') \<and> moved 0 s s'"
proof -
  have "top_ok s" using assms(2) by (auto simp: at_end_def top_ok_def split: list.splits)
  then show ?thesis
    using decode_Kind_Err [OF Kind_at_end [OF assms(2,3)]] assms by (simp add: moved_0)
qed

lemma dbind_arg: "m s1 = m s \<Longrightarrow> dbind m f s1 = dbind m f s" for s s1
  by (simp add: dbind_def)

text \<open>A decoder gives the same result after a call of \<open>Kind\<close>.\<close>

lemma cached_decoders:
  assumes "Kind s1 = Kind s"
  shows "decodeRawValue s1 = decodeRawValue s" "decodeBigInt s1 = decodeBigInt s" "decodeUint bits s1 = decodeUint bits s"
    "decodeBool s1 = decodeBool s" "decodeString s1 = decodeString s" "decodeByteSlice s1 = decodeByteSlice s"
    "decodeByteArray vlen s1 = decodeByteArray vlen s" "stream_List s1 = stream_List s" "Bytes s1 = Bytes s"
  using assms by (simp_all add: sbind_def decodeRawValue_def decodeBigInt_def decodeUint_def decodeBool_def
      decodeString_def decodeByteSlice_def decodeByteArray_def Raw_def Bytes_def Bool_def stream_uint_def stream_List_def)

lemma decodeListSlice_cached:
  assumes "Kind s1 = Kind s"
  shows "decodeListSlice n e s1 = decodeListSlice n e s"
  by (cases n) (simp_all add: dbind_arg [of _ s1 s] cached_decoders [OF assms])

lemma decode_cached:
  assumes "Kind s1 = Kind s"
  shows "spine e \<Longrightarrow> decode n e s1 = decode n e s"
proof (induction e arbitrary: n)
  case (TPtr e)
  then show ?case by (cases n) (simp_all add: dbind_arg [of _ s1 s])
next
  case (TSlice e)
  then show ?case by (cases n) (simp_all add: decodeListSlice_cached [OF assms])
next
  case (TStruct ts)
  then show ?case by (cases n) (simp_all add: dbind_arg [of _ s1 s] cached_decoders [OF assms])
next
  case (TArray x e)
  then show ?case by (cases n) (simp_all add: dbind_arg [of _ s1 s] cached_decoders [OF assms])
next
  case (TOptPtr e)
  then show ?case by (cases n) (simp_all add: assms)
next
  case TInterface
  then show ?case by (cases n) (simp_all add: assms dbind_arg [of _ s1 s])
qed (case_tac n; simp add: cached_decoders [OF assms])+

text \<open>\<open>reads D v e\<close>: on a stream that holds \<open>e\<close> next, with room for it, \<open>D\<close> returns \<open>v\<close> and has
  consumed \<open>e\<close>.\<close>

definition reads :: "'a smon \<Rightarrow> 'a \<Rightarrow> bytes \<Rightarrow> bool" where
  "reads D v e \<longleftrightarrow> (\<forall>s rest. st_kind s = None \<longrightarrow> st_input s = e @ rest \<longrightarrow> fits (length e) s \<longrightarrow>
     (\<exists>s'. D s = (Ok v, s') \<and> consumed e s s'))"

lemma readsI:
  "(\<And>s rest. st_kind s = None \<Longrightarrow> st_input s = e @ rest \<Longrightarrow> fits (length e) s \<Longrightarrow>
     \<exists>s'. D s = (Ok v, s') \<and> consumed e s s') \<Longrightarrow> reads D v e"
  by (simp add: reads_def)

lemma reads_bind: "reads D v e \<Longrightarrow> (\<And>s. g v s = (Ok w, s)) \<Longrightarrow> reads (sbind D g) w e"
proof (rule readsI)
  fix s rest
  assume a: "reads D v e" "\<And>s. g v s = (Ok w, s)" "st_kind s = None" "st_input s = e @ rest" "fits (length e) s"
  then obtain s' where "D s = (Ok v, s')" "consumed e s s'" unfolding reads_def by blast
  with a(2) show "\<exists>s'. sbind D g s = (Ok w, s') \<and> consumed e s s'" by simp
qed

lemma reads_Bytes:
  assumes "length b < 2 ^ 64"
  shows "reads Bytes b (enc_string b)"
proof (rule readsI)
  fix s rest
  assume a: "st_kind s = None" "st_input s = enc_string b @ rest" "fits (length (enc_string b)) s"
  show "\<exists>s'. Bytes s = (Ok b, s') \<and> consumed (enc_string b) s s'"
    using Bytes_fits [OF a(2,3,1) assms] by blast
qed

lemma reads_uint:
  assumes "bits \<in> {8, 16, 32, 64}" "unat i < 2 ^ bits"
  shows "reads (stream_uint bits) i (enc_string (be_bytes (unat i)))"
proof (rule readsI)
  have "bits = 8 * (bits div 8)" and b: "bits \<le> 64" using assms(1) by auto
  then have "unat i < 256 ^ (bits div 8)" using assms(2) power_mult [of "2::nat" 8 "bits div 8"] by simp
  then have len: "length (be_bytes (unat i)) \<le> bits div 8" by (simp add: length_be_bytes_le_iff)
  fix s rest
  assume a: "st_kind s = None" "st_input s = enc_string (be_bytes (unat i)) @ rest"
    "fits (length (enc_string (be_bytes (unat i)))) s"
  show "\<exists>s'. stream_uint bits s = (Ok i, s') \<and> consumed (enc_string (be_bytes (unat i))) s s'"
    using stream_uint_fits [OF a(2,3,1) len b] by blast
qed

lemma reads_leaf:
  assumes "length b < 2 ^ 64"
  shows "reads decodeString (VString b) (enc_string b)" "reads decodeByteSlice (VBytes b) (enc_string b)"
    "\<not> (length b > 0 \<and> b ! 0 = 0) \<Longrightarrow> reads decodeBigInt (VBigInt (int (be_val b))) (enc_string b)"
proof -
  show "reads decodeString (VString b) (enc_string b)"
    unfolding decodeString_def by (rule reads_bind [OF reads_Bytes [OF assms]]) simp
  show "reads decodeByteSlice (VBytes b) (enc_string b)"
    unfolding decodeByteSlice_def by (rule reads_bind [OF reads_Bytes [OF assms]]) simp
  assume "\<not> (length b > 0 \<and> b ! 0 = 0)"
  then show "reads decodeBigInt (VBigInt (int (be_val b))) (enc_string b)"
    unfolding decodeBigInt_def by (intro reads_bind [OF reads_Bytes [OF assms]]) auto
qed

lemma reads_bigint:
  assumes "0 \<le> i" "length (be_bytes (nat i)) < 2 ^ 64"
  shows "reads decodeBigInt (VBigInt i) (enc_string (be_bytes (nat i)))"
proof -
  have "\<not> (length (be_bytes (nat i)) > 0 \<and> be_bytes (nat i) ! 0 = 0)"
    using hd_be_bytes [of "nat i"] by (auto simp: hd_conv_nth)
  from reads_leaf(3) [OF assms(2) this] assms(1) show ?thesis by simp
qed

lemma reads_bool: "reads decodeBool (VBool b) (enc_string (if b then [1] else []))"
proof -
  have "reads (stream_uint 8) (if b then 1 else 0) (enc_string (if b then [1] else []))"
    using reads_uint [of 8 1] reads_uint [of 8 0] by (simp add: be_bytes_unfold)
  then have "reads Bool b (enc_string (if b then [1] else []))"
    unfolding Bool_def by (rule reads_bind) (simp split: if_splits)
  then show ?thesis unfolding decodeBool_def by (rule reads_bind) simp
qed

lemma consumed_string:
  assumes "peeked String (of_nat (length b)) s s1" "readFull (length b) s1 = (Ok b, s2)" "length b < 2 ^ 64"
    "\<not> (of_nat (length b) = (1 :: uint64) \<and> b ! 0 < 128)"
  shows "consumed (enc_string b) s s2"
proof -
  have un: "unat (of_nat (length b) :: uint64) = length b" using assms(3) by simp
  show ?thesis using readFull_peeked(1) [OF assms(1), unfolded un, OF assms(2)] assms(4)
    by (simp add: enc_string_long [of b "of_nat (length b)"] un)
qed

lemma ucast_w64: "ucast (w64 x) = (x :: byte)"
  using unat_byte_less [of x] by (simp add: word_unat_eq_iff unat_ucast_byte)

lemma reads_byte_array:
  assumes "length b < 2 ^ 64" "b \<noteq> [0]"
  shows "reads (decodeByteArray (length b)) (VByteArray b) (enc_string b)"
proof (rule readsI)
  fix s rest
  assume a: "st_kind s = None" "st_input s = enc_string b @ rest" "fits (length (enc_string b)) s"
  from a(2,3,1) assms(1) show "\<exists>s'. decodeByteArray (length b) s = (Ok (VByteArray b), s') \<and> consumed (enc_string b) s s'"
  proof (cases rule: string_Kind)
    case (single x s1)
    then have "Uint s1 = (Ok (w64 x), s1\<lparr>st_kind := None\<rparr>)" using assms(2) peeked_cached [OF single(4)]
      by (simp add: Uint_def stream_uint_def)
    then show ?thesis using single peeked_Byte [OF single(4)]
      by (simp add: decodeByteArray_def ucast_w64 enc_string_byte)
  next
    case (string s1 s2)
    then show ?thesis using consumed_string [OF string(3,4) assms(1)]
      by (auto simp: decodeByteArray_def)
  qed
qed

lemma enc_item:
  "item_ok Byte c \<Longrightarrow> item_tag Byte c @ c = enc_string c"
  "item_ok String c \<Longrightarrow> item_tag String c @ c = enc_string c"
  "item_tag List c @ c = enc_list c"
  by (auto simp: enc_string_def enc_list_def)

lemma reads_raw:
  assumes "item_ok k c" "k = String \<longrightarrow> length c < 56" "length c < 2 ^ 64"
  shows "reads decodeRawValue (VRaw (item_tag k c @ c)) (item_tag k c @ c)"
proof -
  have "reads Raw (item_tag k c @ c) (item_tag k c @ c)"
  proof (rule readsI)
    fix s rest
    assume a: "st_kind s = None" "st_input s = (item_tag k c @ c) @ rest" "fits (length (item_tag k c @ c)) s"
    show "\<exists>s'. Raw s = (Ok (item_tag k c @ c), s') \<and> consumed (item_tag k c @ c) s s'"
    proof (cases k)
      case List
      let ?sz = "of_nat (length c) :: uint64"
      have un: "unat ?sz = length c" using assms(3) by simp
      have h: "hdr List ?sz 0 = tag_bytes List ?sz" by (simp add: hdr_def)
      obtain s1 where K: "Kind s = (Ok (List, ?sz), s1)" "peeked List ?sz s s1"
        using Kind_fits [of s List ?sz 0 "c @ rest", unfolded h un] a List by auto
      have inp: "st_input s1 = c @ rest" using K(2) a(2) List by (simp add: peeked_def hdr_def)
      obtain s2 where rf: "readFull (length c) s1 = (Ok c, s2)"
        using readFull_peeked_fits [OF K(2)] a(3) List un inp by auto
      from readFull_peeked(1) [OF K(2), unfolded un, OF rf] K(1) rf un List show ?thesis
        by (simp add: Raw_def)
    next
      case Byte
      with assms(1) have e: "item_tag k c @ c = enc_string c" using enc_item by blast
      from a(2,3,1) [unfolded e] assms(3) show ?thesis
      proof (cases rule: string_Kind)
        case (single x s1)
        then show ?thesis using peeked_Byte [OF single(4)] Byte by (simp add: Raw_def)
      next
        case (string s1 s2)
        with assms(1) Byte show ?thesis by (cases c) auto
      qed
    next
      case String
      with assms(1) have e: "item_tag k c @ c = enc_string c" using enc_item by blast
      from a(2,3,1) [unfolded e] assms(3) show ?thesis
      proof (cases rule: string_Kind)
        case (single x s1)
        with assms(1) String show ?thesis by simp
      next
        case (string s1 s2)
        have "of_nat (length c) < (56 :: uint64)" using assms(2) String by (simp add: word_less_nat_alt)
        then have "puthead 0x80 0xB8 (of_nat (length c)) @ c = enc_string c"
          using e String by (simp add: puthead_def)
        then show ?thesis unfolding e using string consumed_string [OF string(3,4) assms(3)] assms(3)
          by (auto simp: Raw_def)
      qed
    qed
  qed
  then show ?thesis unfolding decodeRawValue_def by (rule reads_bind) simp
qed

text \<open>The same for the decoders with fuel; with \<open>x\<close> the value also fills the innermost list.\<close>

definition fills :: "nat \<Rightarrow> stream \<Rightarrow> bool" where
  "fills n s = (case st_stack s of [] \<Rightarrow> False | (pos, sz) # _ \<Rightarrow> unat pos + n = unat sz)"

definition dreads :: "bool \<Rightarrow> 'a dmon \<Rightarrow> 'a \<Rightarrow> bytes \<Rightarrow> bool" where
  "dreads x D v e \<longleftrightarrow> (\<forall>s rest. st_kind s = None \<longrightarrow> st_input s = e @ rest \<longrightarrow> fits (length e) s \<longrightarrow>
     (x \<longrightarrow> fills (length e) s) \<longrightarrow> (\<exists>s'. D s = Some (Ok v, s') \<and> consumed e s s'))"

lemma dreadsI:
  "(\<And>s rest. st_kind s = None \<Longrightarrow> st_input s = e @ rest \<Longrightarrow> fits (length e) s \<Longrightarrow>
     (x \<Longrightarrow> fills (length e) s) \<Longrightarrow> \<exists>s'. D s = Some (Ok v, s') \<and> consumed e s s') \<Longrightarrow> dreads x D v e"
  by (simp add: dreads_def)

lemma dreadsD:
  "dreads x D v e \<Longrightarrow> st_kind s = None \<Longrightarrow> st_input s = e @ rest \<Longrightarrow> fits (length e) s \<Longrightarrow>
    (x \<Longrightarrow> fills (length e) s) \<Longrightarrow> \<exists>s'. D s = Some (Ok v, s') \<and> consumed e s s'"
  by (simp add: dreads_def)

lemma dreads_weaken: "dreads False D v e \<Longrightarrow> dreads x D v e"
  by (simp add: dreads_def)

lemma dreads_lift:
  assumes "reads D v e"
  shows "dreads x (dlift D) v e"
proof (rule dreadsI)
  fix s rest
  assume "st_kind s = None" "st_input s = e @ rest" "fits (length e) s"
  with assms obtain s' where "D s = (Ok v, s')" "consumed e s s'" unfolding reads_def by blast
  then show "\<exists>s'. dlift D s = Some (Ok v, s') \<and> consumed e s s'" by simp
qed

lemma consumed_0: "st_kind s = None \<Longrightarrow> top_ok s \<Longrightarrow> consumed [] s s"
  by (simp add: consumed_def moved_0)

lemma dreads_ret: "dreads x (dret v) v []"
  by (rule dreadsI) (auto intro!: consumed_0 fits_top_ok)

lemma consumed_props:
  assumes "consumed e s s1"
  shows "st_kind s1 = None" "fits (length e + n) s \<longleftrightarrow> fits n s1" "fills (length e + n) s \<longleftrightarrow> fills n s1"
proof -
  have m: "moved (length e) s s1" using assms by (simp add: consumed_def)
  show "st_kind s1 = None" using m by (simp add: moved_def)
  show "fits (length e + n) s \<longleftrightarrow> fits n s1" using fits_moved [OF m] by simp
  show "fills (length e + n) s \<longleftrightarrow> fills n s1"
  proof (cases "st_stack s")
    case Nil
    with m show ?thesis by (simp add: moved_def fills_def)
  next
    case (Cons p r)
    obtain pos sz where p: "p = (pos, sz)" by (cases p)
    show ?thesis using m Cons p unat_moved(2) [OF m Cons [unfolded p]] by (auto simp: moved_def fills_def)
  qed
qed

lemma dreads_bind:
  assumes "dreads False m a e1" "dreads x (f a) v e2"
  shows "dreads x (dbind m f) v (e1 @ e2)"
proof (rule dreadsI)
  fix s rest
  assume s: "st_kind s = None" "st_input s = (e1 @ e2) @ rest" "fits (length (e1 @ e2)) s"
    "x \<Longrightarrow> fills (length (e1 @ e2)) s"
  have f1: "fits (length e1) s" using fits_mono [OF s(3)] by simp
  obtain s1 where s1: "m s = Some (Ok a, s1)" "consumed e1 s s1"
    using dreadsD [OF assms(1) s(1) _ f1, of "e2 @ rest"] s(2) by auto
  have "st_input s1 = e2 @ rest" using s1(2) s(2) by (simp add: consumed_def)
  then obtain s2 where s2: "f a s1 = Some (Ok v, s2)" "consumed e2 s1 s2"
    using dreadsD [OF assms(2) consumed_props(1) [OF s1(2)]] consumed_props(2,3) [OF s1(2), of "length e2"] s(3,4) by auto
  with s1 show "\<exists>s'. dbind m f s = Some (Ok v, s') \<and> consumed (e1 @ e2) s s'"
    using consumed_trans by fastforce
qed

lemma dreads_map:
  assumes "dreads x m a e" "f a = dret v"
  shows "dreads x (dbind m f) v e"
proof (rule dreadsI)
  fix s rest
  assume "st_kind s = None" "st_input s = e @ rest" "fits (length e) s" "x \<Longrightarrow> fills (length e) s"
  from dreadsD [OF assms(1) this] assms(2) show "\<exists>s'. dbind m f s = Some (Ok v, s') \<and> consumed e s s'"
    by auto
qed

lemma dreads_list:
  assumes m: "dreads True m a p" and len: "length p < 2 ^ 64"
    and f: "\<And>s. f (of_nat (length p)) s = dbind m (\<lambda>vs. dbind (dlift ListEnd) (\<lambda>_. dret (F vs))) s"
  shows "dreads x (dbind (dlift stream_List) f) (F a) (enc_list p)"
proof (rule dreadsI)
  fix s rest
  assume s: "st_kind s = None" "st_input s = enc_list p @ rest" "fits (length (enc_list p)) s"
  let ?sz = "of_nat (length p) :: uint64"
  have un: "unat ?sz = length p" using len by simp
  obtain s1 where s1: "stream_List s = (Ok ?sz, s1)" "opened ?sz s s1" "st_input s1 = p @ rest" "fits (length p) s1"
    using stream_List_fits [OF s(2,3,1) len] by blast
  have "fills (length p) s1" using s1(2) un by (auto simp: opened_def fills_def)
  then obtain s2 where s2: "m s1 = Some (Ok a, s2)" "consumed p s1 s2"
    using dreadsD [OF m opened_kind [OF s1(2)] s1(3,4)] by blast
  have mv: "moved (unat ?sz) s1 s2" using s2(2) un by (simp add: consumed_def)
  obtain s3 where s3: "ListEnd s2 = (Ok (), s3)" using ListEnd_fits [OF s1(2) mv] by blast
  have "moved (headsize ?sz + unat ?sz) s s3" using ListEnd_Ok [OF s1(2) mv s3] by simp
  then have "consumed (enc_list p) s s3"
    using s(2) un moved_consumed [of "length (enc_list p)" s s3] by (simp add: enc_list_def)
  with s1(1) s2(1) s3 f
  show "\<exists>s'. dbind (dlift stream_List) f s = Some (Ok (F a), s') \<and> consumed (enc_list p) s s'"
    by simp
qed

text \<open>The encoding of a typed value is one item.\<close>

lemma item_hd:
  assumes "item_ok k c" "length c < 2 ^ 64"
  shows "hd (item_tag k c @ c) = 0x80 \<Longrightarrow> item_tag k c @ c = [0x80]"
    and "hd (item_tag k c @ c) = 0xC0 \<Longrightarrow> item_tag k c @ c = [0xC0]"
proof -
  let ?sz = "of_nat (length c) :: uint64"
  have un: "unat ?sz = length c" using assms(2) by simp
  have lp: "1 \<le> length (putint ?sz)" "length (putint ?sz) \<le> 8" using length_putint by auto
  have small: "?sz < 56 \<Longrightarrow> length c < 56" using un by (simp add: word_less_nat_alt)
  have h: "unat (hd (item_tag k c @ c)) = (case k of Byte \<Rightarrow> unat (hd c)
      | String \<Rightarrow> (if ?sz < 56 then 0x80 + length c else 0xB7 + length (putint ?sz))
      | List \<Rightarrow> (if ?sz < 56 then 0xC0 + length c else 0xF7 + length (putint ?sz)))"
    using un by (cases k) (simp_all add: unat_hd_tags)
  { assume "hd (item_tag k c @ c) = 0x80"
    with h have "k = String \<and> c = []" using assms(1) lp small
      by (cases k) (auto simp: word_less_nat_alt split: if_splits)
    then show "item_tag k c @ c = [0x80]" by (simp add: puthead_def) }
  { assume "hd (item_tag k c @ c) = 0xC0"
    with h have "k = List \<and> c = []" using assms(1) lp small
      by (cases k) (auto simp: word_less_nat_alt split: if_splits)
    then show "item_tag k c @ c = [0xC0]" by (simp add: puthead_def) }
qed

definition is_item :: "bytes \<Rightarrow> bool" where
  "is_item e \<longleftrightarrow> (\<exists>k c. item_ok k c \<and> e = item_tag k c @ c)"

lemma is_item_enc: "is_item (enc_string b)" "is_item (enc_list p)"
proof -
  show "is_item (enc_string b)" unfolding is_item_def
    by (intro exI [of _ "if length b = 1 \<and> hd b < 0x80 then Byte else String"] exI [of _ b])
       (simp add: enc_string_item)
  show "is_item (enc_list p)" unfolding is_item_def
    by (intro exI [of _ List] exI [of _ p]) (simp add: enc_list_item)
qed

lemma is_item_nil: "is_item [0x80]" "is_item [0xC0]"
  using is_item_enc(1) [of "[]"] is_item_enc(2) [of "[]"] by simp_all

lemma typed_item:
  "typed t v \<Longrightarrow> enc_ref v = Ok e \<Longrightarrow> is_item e"
  "typed_elems e' vs \<Longrightarrow> True" "typed_fields ts vs \<Longrightarrow> True"
proof (induction arbitrary: e rule: typed_typed_elems_typed_fields.inducts)
  case (Raw k c)
  then show ?case by (auto simp: is_item_def)
qed (auto simp: is_item_enc is_item_nil bind_result_iffs split: if_splits)

lemma typed_spine:
  "typed t v \<Longrightarrow> spine t" "typed_elems e' vs \<Longrightarrow> True" "typed_fields ts vs \<Longrightarrow> True"
  by (induction rule: typed_typed_elems_typed_fields.inducts) auto

lemma decode_Kind_Ok:
  assumes "decode n e s = Some (Ok v, s')" "spine e"
  obtains k sz s1 where "Kind s = (Ok (k, sz), s1)"
proof (cases "Kind s")
  case (Pair r s1)
  have "\<not> (\<exists>err. r = Err err) \<and> \<not> (\<exists>p. r = Panic p)" using assms Pair
  proof (induction e arbitrary: n v)
    case (TPtr e)
    then show ?case by (cases n) (auto simp: dbind_def split: option.splits prod.splits result.splits)
  next
    case (TSlice e)
    then show ?case
      by (cases n; cases "n - 1") (auto simp: dbind_def stream_List_def sbind_def split: option.splits prod.splits result.splits)
  qed (case_tac n; auto simp: dbind_def stream_List_def sbind_def decodeRawValue_def decodeBigInt_def decodeUint_def decodeBool_def
      decodeString_def decodeByteSlice_def decodeByteArray_def Raw_def Bytes_def Bool_def stream_uint_def split: option.splits prod.splits result.splits)+
  with Pair that show thesis by (cases r) auto
qed

text \<open>One step of each decoder, for enough fuel.\<close>

lemma eventually_Suc: "eventually (\<lambda>n. P (Suc n)) sequentially \<Longrightarrow> eventually P sequentially"
  using eventually_sequentially_Suc [of P] by simp

lemma eventually_leaf:
  assumes "\<And>n s. decode (Suc n) t s = dlift D s" "reads D v e"
  shows "eventually (\<lambda>n. dreads False (decode n t) v e) sequentially"
proof (rule eventually_Suc, rule always_eventually, rule allI)
  fix n
  have "decode (Suc n) t = dlift D" using assms(1) by (intro ext)
  then show "dreads False (decode (Suc n) t) v e" using dreads_lift [OF assms(2)] by simp
qed

lemma enc_refs_parts:
  assumes "enc_refs (v # vs) = Ok p" "length p < 2 ^ 64"
  obtains b q where "enc_ref v = Ok b" "enc_refs vs = Ok q" "p = b @ q" "length b < 2 ^ 64" "length q < 2 ^ 64"
  using assms by (auto simp: bind_result_iffs)

definition elems_ok :: "gtype \<Rightarrow> gval list \<Rightarrow> bytes \<Rightarrow> bool" where
  "elems_ok e vs p \<longleftrightarrow>
     (spine e \<longrightarrow> eventually (\<lambda>n. dreads True (decodeSliceElems n e) vs p) sequentially) \<and>
     eventually (\<lambda>n. dreads False (decodeListArray n e (length vs)) vs p) sequentially"

lemma dreads_agree:
  assumes "dreads x D v e" "\<And>s r. D s = Some (Ok v, r) \<Longrightarrow> D' s = Some (Ok v, r)"
  shows "dreads x D' v e"
proof (rule dreadsI)
  fix s rest
  assume "st_kind s = None" "st_input s = e @ rest" "fits (length e) s" "x \<Longrightarrow> fills (length e) s"
  from dreadsD [OF assms(1) this] assms(2) show "\<exists>s'. D' s = Some (Ok v, s') \<and> consumed e s s'" by blast
qed

lemma elems_Nil: "elems_ok e [] []"
proof -
  have N: "dreads True (decodeSliceElems (Suc n) e) [] []" if "spine e" "size e + 1 < n" for n
  proof (rule dreadsI)
    fix s rest
    assume s: "st_kind s = None" "fits (length ([] :: bytes)) s" "True \<Longrightarrow> fills (length ([] :: bytes)) s"
    have "at_end s" using s(3) by (auto simp: fills_def at_end_def word_unat_eq_iff split: list.splits)
    from decode_at_end [OF that(1) this s(1) that(2)] obtain s' where
      "decode n e s = Some (Err EOL, s')" "moved 0 s s'" by blast
    then show "\<exists>s'. decodeSliceElems (Suc n) e s = Some (Ok [], s') \<and> consumed [] s s'"
      using moved_consumed [of 0 s s'] by simp
  qed
  have 1: "eventually (\<lambda>n. dreads True (decodeSliceElems n e) [] []) sequentially" if "spine e"
    by (rule eventually_Suc, rule eventually_sequentiallyI [of "size e + 2"]) (rule N [OF that], simp)
  have "dreads False (decodeListArray (Suc n) e 0) [] []" for n
    by (rule dreads_agree [OF dreads_ret]) simp
  then have "eventually (\<lambda>n. dreads False (decodeListArray n e 0) [] []) sequentially"
    by (intro eventually_Suc [OF always_eventually]) simp
  with 1 show ?thesis unfolding elems_ok_def by simp
qed

lemma dbind_Ok_iff:
  "dbind m f s = Some (Ok v, s') \<longleftrightarrow> (\<exists>a s1. m s = Some (Ok a, s1) \<and> f a s1 = Some (Ok v, s'))"
  by (auto simp: dbind_def split: option.splits prod.splits result.splits)

lemma dreads_cons:
  assumes "dreads False m v b" "dreads x r vs p"
  shows "dreads x (dbind m (\<lambda>v. dbind r (\<lambda>vs. dret (v # vs)))) (v # vs) (b @ p)"
  by (rule dreads_bind [OF assms(1) dreads_map [OF assms(2) refl]])

lemma eventually_Suc2:
  assumes "eventually P sequentially" "eventually Q sequentially" "\<And>n. P n \<Longrightarrow> Q n \<Longrightarrow> R (Suc n)"
  shows "eventually R sequentially"
  by (rule eventually_Suc, rule eventually_elim2 [OF assms(1,2)]) (rule assms(3))

lemma eventually_Suc1:
  assumes "eventually P sequentially" "\<And>n. P n \<Longrightarrow> R (Suc n)"
  shows "eventually R sequentially"
  by (rule eventually_Suc, rule eventually_mono [OF assms(1)]) (rule assms(2))

lemma elems_Cons:
  assumes "eventually (\<lambda>n. dreads False (decode n e) v b) sequentially" "elems_ok e vs p"
  shows "elems_ok e (v # vs) (b @ p)"
proof -
  have 1: "dreads True (decodeSliceElems (Suc n) e) (v # vs) (b @ p)"
    if "dreads False (decode n e) v b" "dreads True (decodeSliceElems n e) vs p" for n
    by (rule dreads_agree [OF dreads_cons [OF that]]) (auto simp: dbind_Ok_iff)
  have 2: "dreads False (decodeListArray (Suc n) e (length (v # vs))) (v # vs) (b @ p)"
    if "dreads False (decode n e) v b" "dreads False (decodeListArray n e (length vs)) vs p" for n
    by (rule dreads_agree [OF dreads_cons [OF that]]) (auto simp: dbind_Ok_iff)
  have "eventually (\<lambda>n. dreads True (decodeSliceElems n e) (v # vs) (b @ p)) sequentially" if "spine e"
  proof (rule eventually_Suc2 [OF assms(1)])
    show "eventually (\<lambda>n. dreads True (decodeSliceElems n e) vs p) sequentially"
      using assms(2) that by (simp add: elems_ok_def)
  qed (rule 1)
  moreover have "eventually (\<lambda>n. dreads False (decodeListArray n e (length (v # vs))) (v # vs) (b @ p)) sequentially"
  proof (rule eventually_Suc2 [OF assms(1)])
    show "eventually (\<lambda>n. dreads False (decodeListArray n e (length vs)) vs p) sequentially"
      using assms(2) by (simp add: elems_ok_def)
  qed (rule 2)
  ultimately show ?thesis unfolding elems_ok_def by blast
qed

lemma fields_Cons:
  assumes "dreads False (decode n t) v b" "dreads True (decodeFields n ts) vs p"
  shows "dreads True (decodeFields (Suc n) (t # ts)) (v # vs) (b @ p)"
  by (rule dreads_agree [OF dreads_cons [OF assms]]) (auto simp: dbind_Ok_iff)

lemma fields_last:
  assumes "dreads True (decode n t) v b" "1 \<le> n"
  shows "dreads True (decodeFields (Suc n) [t]) [v] b"
proof (rule dreads_agree [OF dreads_map [OF assms(1), of "\<lambda>v. dret [v]", OF refl]])
  obtain m where "n = Suc m" using assms(2) by (cases n) auto
  fix s r
  assume "dbind (decode n t) (\<lambda>v. dret [v]) s = Some (Ok [v], r)"
  with \<open>n = Suc m\<close> show "decodeFields (Suc n) [t] s = Some (Ok [v], r)"
    by (auto simp: dbind_Ok_iff simp del: decode.simps)
qed

lemma decode_slice:
  assumes "elems_ok e vs p" "vs \<noteq> [] \<Longrightarrow> spine e" "vs = [] \<longleftrightarrow> p = []" "length p < 2 ^ 64"
  shows "eventually (\<lambda>n. dreads False (decodeListSlice n e) (VSlice vs) (enc_list p)) sequentially"
proof -
  have eq: "decodeListSlice (Suc n) e = dbind (dlift stream_List) (\<lambda>sz.
      if sz = 0 then dbind (dlift ListEnd) (\<lambda>_. dret (VSlice []))
      else dbind (decodeSliceElems n e) (\<lambda>vs. dbind (dlift ListEnd) (\<lambda>_. dret (VSlice vs))))" for n
    by (rule ext) (rule decodeListSlice.simps)
  show ?thesis
  proof (cases "vs = []")
    case True
    have "dreads False (decodeListSlice (Suc n) e) (VSlice []) (enc_list [])" for n
      unfolding eq by (rule dreads_list [where F = VSlice, OF dreads_ret]) simp_all
    then show ?thesis using True assms(3) by (intro eventually_Suc [OF always_eventually]) simp
  next
    case False
    then have nz: "of_nat (length p) \<noteq> (0 :: uint64)" using assms(3,4) by (metis length_0_conv unat_0 unat_of_nat_64)
    have "eventually (\<lambda>n. dreads True (decodeSliceElems n e) vs p) sequentially"
      using False assms(1,2) by (simp add: elems_ok_def)
    then show ?thesis
    proof (rule eventually_Suc1)
      fix n
      assume m: "dreads True (decodeSliceElems n e) vs p"
      show "dreads False (decodeListSlice (Suc n) e) (VSlice vs) (enc_list p)"
        unfolding eq by (rule dreads_list [where F = VSlice, OF m assms(4)]) (simp add: nz)
    qed
  qed
qed

lemma decode_optptr:
  assumes "dreads False (decode n e) v b" "spine e" "is_item b" "b \<noteq> [0x80]" "b \<noteq> [0xC0]" "length b < 2 ^ 64"
  shows "dreads False (decode (Suc n) (TOptPtr e)) (VPtr v) b"
proof (rule dreadsI)
  fix s rest
  assume s: "st_kind s = None" "st_input s = b @ rest" "fits (length b) s"
  obtain s' where d: "decode n e s = Some (Ok v, s')" "consumed b s s'"
    using dreadsD [OF assms(1) s] by auto
  obtain k sz s1 where K: "Kind s = (Ok (k, sz), s1)" using decode_Kind_Ok [OF d(1) assms(2)] .
  have pk: "peeked k sz s s1" using Kind_Ok [OF K s(1) fits_top_ok [OF s(3)]] .
  have same: "decode n e s1 = decode n e s"
    using decode_cached [of s1 s, OF _ assms(2)] K peeked_cached [OF pk] by simp
  obtain k' c where b: "item_ok k' c" "b = item_tag k' c @ c" using assms(3) by (auto simp: is_item_def)
  have ne: "b \<noteq> []" using item_nonempty [OF b(1)] b(2) by auto
  have "\<not> (sz = 0 \<and> k \<noteq> Byte)"
  proof
    assume A: "sz = 0 \<and> k \<noteq> Byte"
    then have "hd b = 0x80 \<or> hd b = 0xC0"
      using pk s(2) ne by (cases k; cases b) (auto simp: peeked_def hdr_def puthead_def)
    with item_hd [OF b(1)] b(2) assms(4-6) show False by auto
  qed
  with K same d show "\<exists>s'. decode (Suc n) (TOptPtr e) s = Some (Ok (VPtr v), s') \<and> consumed b s s'" by auto
qed

lemma decode_nilptr:
  assumes "b = [0x80] \<or> b = [0xC0]"
  shows "dreads False (decode (Suc n) (TOptPtr e)) (nil_of e) b"
proof (rule dreadsI)
  fix s rest
  assume s: "st_kind s = None" "st_input s = b @ rest" "fits (length b) s"
  define k where "k = (if b = [0x80] then String else List)"
  have b: "b = hdr k 0 0" using assms by (auto simp: k_def hdr_def puthead_def)
  have h: "st_input s = hdr k 0 0 @ rest" "fits (length (hdr k 0 0) + unat (0 :: uint64)) s"
    using s(2,3) b by simp_all
  have "k = Byte \<longrightarrow> (0 :: byte) < 0x80 \<and> (0 :: uint64) = 0" by simp
  from Kind_fits [OF h this s(1)] obtain s1 where K: "Kind s = (Ok (k, 0), s1)" "peeked k 0 s s1" by blast
  have kn: "k \<noteq> Byte" by (simp add: k_def)
  have "consumed (hdr k 0 0) s (s1\<lparr>st_kind := None\<rparr>)"
    using K(2) kn unfolding peeked_def consumed_def hdr_def by simp
  then have "consumed b s (s1\<lparr>st_kind := None\<rparr>)" by (simp only: b)
  then show "\<exists>s'. decode (Suc n) (TOptPtr e) s = Some (Ok (nil_of e), s') \<and> consumed b s s'"
    using K(1) kn by auto
qed

lemma decode_interface_list:
  assumes "dreads False (decodeListSlice n TInterface) v (enc_list p)" "length p < 2 ^ 64"
  shows "dreads False (decode (Suc n) TInterface) (VInterface v) (enc_list p)"
proof (rule dreadsI)
  fix s rest
  assume s: "st_kind s = None" "st_input s = enc_list p @ rest" "fits (length (enc_list p)) s"
  let ?sz = "of_nat (length p) :: uint64"
  have "unat ?sz = length p" using assms(2) by simp
  then obtain s1 where K: "Kind s = (Ok (List, ?sz), s1)" "peeked List ?sz s s1"
    using Kind_fits [of s List ?sz 0 "p @ rest"] s by (auto simp: hdr_def enc_list_def)
  have "decodeListSlice n TInterface s1 = decodeListSlice n TInterface s"
    using decodeListSlice_cached [of s1 s] K(1) peeked_cached [OF K(2)] by simp
  moreover obtain s' where "decodeListSlice n TInterface s = Some (Ok v, s')" "consumed (enc_list p) s s'"
    using dreadsD [OF assms(1) s] by auto
  ultimately show "\<exists>s'. decode (Suc n) TInterface s = Some (Ok (VInterface v), s') \<and> consumed (enc_list p) s s'"
    using K(1) by simp
qed

lemma decode_interface_bytes:
  assumes "length b < 2 ^ 64"
  shows "dreads False (decode (Suc n) TInterface) (VInterface (VBytes b)) (enc_string b)"
proof (rule dreadsI)
  fix s rest
  assume s: "st_kind s = None" "st_input s = enc_string b @ rest" "fits (length (enc_string b)) s"
  obtain s' where B: "Bytes s = (Ok b, s')" "consumed (enc_string b) s s'"
    using reads_Bytes [OF assms] s unfolding reads_def by blast
  obtain k sz s1 where K: "Kind s = (Ok (k, sz), s1)" "k \<noteq> List"
  proof -
    from B(1) obtain k sz s1 where K: "Kind s = (Ok (k, sz), s1)" by (auto simp: Bytes_def sbind_Ok_iff)
    with B(1) have "k \<noteq> List" by (auto simp: Bytes_def)
    with K that show thesis by blast
  qed
  have "Kind s1 = Kind s" using peeked_cached [OF Kind_Ok [OF K(1) s(1) fits_top_ok [OF s(3)]]] K(1) by simp
  from cached_decoders(9) [OF this] B K
  show "\<exists>s'. decode (Suc n) TInterface s = Some (Ok (VInterface (VBytes b)), s') \<and> consumed (enc_string b) s s'"
    by simp
qed

lemma enc_refs_Nil_iff:
  assumes "typed_elems e vs" "enc_refs vs = Ok p"
  shows "vs = [] \<longleftrightarrow> p = []"
proof (cases vs)
  case (Cons v vs')
  with assms obtain b q where b: "typed e v" "enc_ref v = Ok b" "p = b @ q"
    by (auto simp: bind_result_iffs elim: typed_elems.cases)
  then obtain k c where "item_ok k c" "b = item_tag k c @ c" using typed_item(1) [OF b(1,2)] by (auto simp: is_item_def)
  then have "b \<noteq> []" using item_nonempty [of k c] by auto
  with b Cons show ?thesis by simp
qed (use assms in simp)

lemma typed_elems_spine: "typed_elems e vs \<Longrightarrow> vs \<noteq> [] \<Longrightarrow> spine e"
  by (auto elim: typed_elems.cases dest: typed_spine(1))

lemma typed_enc_Ok:
  "typed t v \<Longrightarrow> \<exists>b. enc_ref v = Ok b" "typed_elems e vs \<Longrightarrow> \<exists>b. enc_refs vs = Ok b"
  "typed_fields ts vs \<Longrightarrow> \<exists>b. enc_refs vs = Ok b"
  by (induction rule: typed_typed_elems_typed_fields.inducts) (auto simp: bind_result_iffs)

definition decodes :: "gtype \<Rightarrow> gval \<Rightarrow> bytes \<Rightarrow> bool" where
  "decodes t v b \<longleftrightarrow> eventually (\<lambda>n. dreads False (decode n t) v b) sequentially"

lemma enc_list_short: "length (enc_list p) < 2 ^ 64 \<Longrightarrow> length p < 2 ^ 64"
  using length_le_enc_list [of p] by linarith

lemma enc_string_short: "length (enc_string p) < 2 ^ 64 \<Longrightarrow> length p < 2 ^ 64"
  using length_le_enc_string [of p] by linarith

lemma decode_complete:
  "typed t v \<Longrightarrow> enc_ref v = Ok b \<Longrightarrow> length b < 2 ^ 64 \<Longrightarrow> decodes t v b"
  "typed_elems e vs \<Longrightarrow> enc_refs vs = Ok p \<Longrightarrow> length p < 2 ^ 64 \<Longrightarrow> elems_ok e vs p"
  "typed_fields ts vs' \<Longrightarrow> enc_refs vs' = Ok p' \<Longrightarrow> length p' < 2 ^ 64 \<Longrightarrow>
     eventually (\<lambda>n. dreads True (decodeFields n ts) vs' p') sequentially"
proof (induction arbitrary: b and p and p' rule: typed_typed_elems_typed_fields.inducts)
  case (Raw k c)
  then have "length c < 2 ^ 64" by auto
  with Raw show ?case unfolding decodes_def
    by (auto intro!: eventually_leaf [OF _ reads_raw])
next
  case (BigInt i)
  then have "b = enc_string (be_bytes (nat i))" by simp
  with BigInt show ?case unfolding decodes_def
    using enc_string_short [of "be_bytes (nat i)"] by (auto intro!: eventually_leaf [OF _ reads_bigint])
next
  case (UInt bits i)
  then show ?case unfolding decodes_def decodeUint_def
    by (auto intro!: eventually_leaf [OF _ reads_bind [OF reads_uint]] simp: decodeUint_def)
next
  case (Bool b')
  then show ?case unfolding decodes_def by (auto intro!: eventually_leaf [OF _ reads_bool])
next
  case (Str s)
  then show ?case unfolding decodes_def using enc_string_short [of s]
    by (auto intro!: eventually_leaf [OF _ reads_leaf(1)])
next
  case (Bytes s)
  then show ?case unfolding decodes_def using enc_string_short [of s]
    by (auto intro!: eventually_leaf [OF _ reads_leaf(2)])
next
  case (ByteArray s n)
  then show ?case unfolding decodes_def using enc_string_short [of s]
    by (auto intro!: eventually_leaf [OF _ reads_byte_array])
next
  case (Slice e vs)
  then obtain p where p: "enc_refs vs = Ok p" "b = enc_list p" by (auto simp: bind_result_iffs)
  note len = enc_list_short [OF Slice(4) [unfolded p(2)]]
  have "eventually (\<lambda>n. dreads False (decodeListSlice n e) (VSlice vs) b) sequentially"
    unfolding p(2) using Slice(2) [OF p(1) len] typed_elems_spine [OF Slice(1)] enc_refs_Nil_iff [OF Slice(1) p(1)] len
    by (rule decode_slice)
  then show ?case unfolding decodes_def
    by (rule eventually_Suc1) (rule dreads_agree, assumption, simp)
next
  case (Array e vs m)
  then obtain p where p: "enc_refs vs = Ok p" "b = enc_list p" by (auto simp: bind_result_iffs)
  note len = enc_list_short [OF Array(5) [unfolded p(2)]]
  have "eventually (\<lambda>n. dreads False (decodeListArray n e (length vs)) vs p) sequentially"
    using Array.IH [OF p(1) len] by (simp add: elems_ok_def)
  then show ?case unfolding decodes_def p(2)
  proof (rule eventually_Suc1)
    fix n
    assume d: "dreads False (decodeListArray n e (length vs)) vs p"
    have "dreads False (dbind (dlift stream_List) (\<lambda>_. dbind (decodeListArray n e (length vs))
        (\<lambda>vs. dbind (dlift ListEnd) (\<lambda>_. dret (VSlice vs))))) (VSlice vs) (enc_list p)"
      by (rule dreads_list [where F = VSlice, OF dreads_weaken [OF d] len]) (rule refl)
    then show "dreads False (decode (Suc n) (TArray m e)) (VSlice vs) (enc_list p)"
      by (rule dreads_agree) (simp add: Array.hyps(2))
  qed
next
  case (Struct ts vs)
  then obtain p where p: "enc_refs vs = Ok p" "b = enc_list p" by (auto simp: bind_result_iffs)
  note len = enc_list_short [OF Struct(4) [unfolded p(2)]]
  from Struct(2) [OF p(1) len] show ?case unfolding decodes_def p(2)
  proof (rule eventually_Suc1)
    fix n
    assume m: "dreads True (decodeFields n ts) vs p"
    have "dreads False (dbind (dlift stream_List) (\<lambda>_. dbind (decodeFields n ts)
        (\<lambda>vs. dbind (dlift ListEnd) (\<lambda>_. dret (VStruct vs))))) (VStruct vs) (enc_list p)"
      by (rule dreads_list [where F = VStruct, OF m len]) (rule refl)
    then show "dreads False (decode (Suc n) (TStruct ts)) (VStruct vs) (enc_list p)"
      by (rule dreads_agree) simp
  qed
next
  case (Ptr e x)
  then have "decodes e x b" by simp
  then show ?case unfolding decodes_def
  proof (rule eventually_Suc1)
    fix n
    assume "dreads False (decode n e) x b"
    from dreads_map [OF this, of "\<lambda>v. dret (VPtr v)", OF refl]
    show "dreads False (decode (Suc n) (TPtr e)) (VPtr x) b" by (rule dreads_agree) simp
  qed
next
  case (OptPtr e x)
  then have d: "decodes e x b" and i: "is_item b" "b \<noteq> [0x80]" "b \<noteq> [0xC0]"
    using typed_item(1) [OF OptPtr(1)] by auto
  from d show ?case unfolding decodes_def
    by (rule eventually_Suc1) (rule decode_optptr [OF _ OptPtr(4) i OptPtr(7)])
next
  case (NilPtr e)
  then have "b = [0x80] \<or> b = [0xC0]" by auto
  then show ?case unfolding decodes_def
    by (intro eventually_Suc [OF always_eventually] allI) (rule decode_nilptr)
next
  case (IfBytes b')
  then have "b = enc_string b'" by simp
  moreover from this have "length b' < 2 ^ 64" using IfBytes(2) enc_string_short by simp
  ultimately show ?case unfolding decodes_def
    by (intro eventually_Suc [OF always_eventually] allI) (simp only: decode_interface_bytes)
next
  case (IfList vs)
  then obtain p where p: "enc_refs vs = Ok p" "b = enc_list p" by (auto simp: bind_result_iffs)
  note len = enc_list_short [OF IfList(4) [unfolded p(2)]]
  have "eventually (\<lambda>n. dreads False (decodeListSlice n TInterface) (VSlice vs) b) sequentially"
    unfolding p(2) using IfList(2) [OF p(1) len] typed_elems_spine [OF IfList(1)] enc_refs_Nil_iff [OF IfList(1) p(1)] len
    by (rule decode_slice)
  then show ?case unfolding decodes_def p(2)
    by (rule eventually_Suc1) (rule decode_interface_list [OF _ len])
next
  case (ElemsNil e)
  then show ?case by (simp add: elems_Nil)
next
  case (ElemsCons e v vs)
  then obtain b q where "enc_ref v = Ok b" "enc_refs vs = Ok q" "p = b @ q" "length b < 2 ^ 64" "length q < 2 ^ 64"
    using enc_refs_parts [OF ElemsCons(5,6)] by blast
  with ElemsCons show ?case using elems_Cons by (simp add: decodes_def)
next
  case FieldsNil
  have "dreads True (decodeFields (Suc n) []) [] []" for n
    by (rule dreads_agree [OF dreads_ret]) simp
  moreover have "p' = []" using FieldsNil by simp
  ultimately show ?case by (intro eventually_Suc [OF always_eventually] allI) (simp only:)
next
  case (FieldsTail e xs)
  then have p: "enc_refs xs = Ok p'" by (auto simp: bind_result_iffs)
  have "eventually (\<lambda>n. dreads True (decodeSliceElems n e) xs p') sequentially"
    using FieldsTail(3) [OF p FieldsTail(5)] FieldsTail(1) by (simp add: elems_ok_def)
  then have "eventually (\<lambda>n. dreads True (decode n (TTail e)) (VTail xs) p') sequentially"
  proof (rule eventually_Suc1)
    fix n
    assume "dreads True (decodeSliceElems n e) xs p'"
    from dreads_map [OF this, of "\<lambda>vs. dret (VTail vs)", OF refl]
    show "dreads True (decode (Suc n) (TTail e)) (VTail xs) p'" by (rule dreads_agree) simp
  qed
  then show ?case by (rule eventually_Suc2 [OF _ eventually_ge_at_top [of 1]]) (rule fields_last)
next
  case (FieldsCons t v ts vs)
  then obtain b q where "enc_ref v = Ok b" "enc_refs vs = Ok q" "p' = b @ q" "length b < 2 ^ 64" "length q < 2 ^ 64"
    using enc_refs_parts [OF FieldsCons(5,6)] by blast
  then have "decodes t v b" "eventually (\<lambda>n. dreads True (decodeFields n ts) vs q) sequentially"
    using FieldsCons.IH by auto
  then show ?case unfolding decodes_def \<open>p' = b @ q\<close>
    by (rule eventually_Suc2) (rule fields_Cons)
qed

lemma DecodeBytes_complete:
  assumes "decodes t v b" "length b < 2 ^ 64" "b \<noteq> []"
  shows "\<exists>N. \<forall>n\<ge>N. DecodeBytes n b t = Some (Ok v)"
proof -
  from assms(1) obtain N where N: "\<And>n. n \<ge> N \<Longrightarrow> dreads False (decode n t) v b"
    by (auto simp: decodes_def eventually_sequentially)
  let ?s = "NewStream b (of_nat (length b)) True"
  have un: "unat (of_nat (length b) :: uint64) = length b" using assms(2) by simp
  have s: "st_kind ?s = None" "st_input ?s = b @ []" "fits (length b) ?s"
    using un by (simp_all add: NewStream_def Reset_def zero_stream_def Let_def fits_def)
  have "DecodeBytes n b t = Some (Ok v)" if n: "n \<ge> N" for n
  proof -
    from dreadsD [OF N [OF n] s] obtain s' where "decode n t ?s = Some (Ok v, s')" "consumed b ?s s'" by auto
    moreover from this(2) s(2) have "st_input s' = []" by (simp add: consumed_def)
    ultimately show ?thesis by (simp add: DecodeBytes_def)
  qed
  then show ?thesis by blast
qed

lemma nil_of_not_nil [simp]: "\<not> nil_arg (nil_of e)"
  by (cases e) simp_all

lemma typed_not_nil: "typed t v \<Longrightarrow> \<not> nil_arg v"
  by (cases rule: typed.cases, assumption) simp_all

text \<open>C3. Round trip of the typed codec: for every value that \<open>typed\<close> admits for a type, decoding what
  \<open>EncodeToBytes\<close> produced with the same type terminates and returns that value. \<open>typed\<close> covers
  integers of each width, big integers, booleans (which the comments on \<open>Encode\<close> and \<open>Decode\<close>
  call unsupported), strings, byte slices and arrays, slices, arrays, structs with a tail field,
  pointers, optional pointers, interfaces holding byte strings and lists, and raw values, at any
  nesting. It leaves out the values that do not survive: the array \<open>[1]byte{0}\<close>, raw strings of
  more than 55 bytes, nil pointers without the \<open>nil\<close> tag, nil big integers and nil interfaces,
  pointers with the \<open>nil\<close> tag to a value that encodes like a nil pointer, interfaces that hold
  anything but a byte string or a list, and negative big integers, which do not encode.\<close>

theorem Decode_Encode_roundtrip:
  assumes "typed t v" "\<And>b. enc_ref v = Ok b \<Longrightarrow> length b < 2 ^ 64"
  shows "\<exists>b N. EncodeToBytes v = Ok b \<and> (\<forall>n\<ge>N. DecodeBytes n b t = Some (Ok v))"
proof -
  obtain b where b: "enc_ref v = Ok b" using typed_enc_Ok(1) [OF assms(1)] by blast
  note len = assms(2) [OF b]
  have "b \<noteq> []" using typed_item(1) [OF assms(1) b] item_nonempty by (fastforce simp: is_item_def)
  with DecodeBytes_complete [OF decode_complete(1) [OF assms(1) b len] len]
    EncodeToBytes_enc_ref(1) [OF b len typed_not_nil [OF assms(1)]] show ?thesis by blast
qed

lemma typed_sample:
  "typed (TStruct [TUint 64, TBytes, TSlice TBool])
     (VStruct [VUint 1024, VBytes [0xAA, 0xBB, 0xCC], VSlice [VBool True]])"
  by (auto intro!: typed_typed_elems_typed_fields.intros)

theorem Decode_Encode_roundtrip_witness:
  "\<exists>b N. EncodeToBytes (VStruct [VUint 1024, VBytes [0xAA, 0xBB, 0xCC], VSlice [VBool True]]) = Ok b \<and>
    (\<forall>n\<ge>N. DecodeBytes n b (TStruct [TUint 64, TBytes, TSlice TBool])
       = Some (Ok (VStruct [VUint 1024, VBytes [0xAA, 0xBB, 0xCC], VSlice [VBool True]])))"
  by (rule Decode_Encode_roundtrip [OF typed_sample]) (simp only: enc_ref_sample, simp)

section \<open>Two defects\<close>

text \<open>C8. \<open>Raw\<close> does not return the encoding it has read when the value is a string of more than 55
  bytes: it rebuilds the header with the tag base \<open>0xB8\<close> where the encoder (and the reader of
  the header) use \<open>0xB7\<close>, so the returned bytes announce one length byte too many.\<close>

theorem Raw_long_string:
  assumes "56 \<le> length c" "length (enc_string c) < 2 ^ 64"
  shows "\<exists>r. DecodeBytes (Suc n) (enc_string c) TRaw = Some (Ok (VRaw r)) \<and> r \<noteq> enc_string c \<and>
    enc_string c = (0xB7 + of_nat (length (putint (of_nat (length c))))) # tl (enc_string c) \<and>
    r = (0xB8 + of_nat (length (putint (of_nat (length c))))) # tl (enc_string c)"
proof -
  let ?sz = "of_nat (length c) :: uint64"
  have len: "length c < 2 ^ 64" using enc_string_short [OF assms(2)] .
  then have un: "unat ?sz = length c" by simp
  have big: "56 \<le> ?sz" using un assms(1) by (simp add: word_le_nat_alt)
  have e: "enc_string c = (0xB7 + of_nat (length (putint ?sz))) # putint ?sz @ c"
    using assms(1) puthead_large [OF big] by (simp add: enc_string_def)
  define s where "s = NewStream (enc_string c) (of_nat (length (enc_string c))) True"
  have un': "unat (of_nat (length (enc_string c)) :: uint64) = length (enc_string c)" using assms(2) by simp
  have s: "st_input s = enc_string c @ []" "fits (length (enc_string c)) s" "st_kind s = None"
    using un' e unfolding s_def
    by (simp_all add: NewStream_def Reset_def zero_stream_def Let_def fits_def)
  let ?r = "(0xB8 + of_nat (length (putint ?sz))) # putint ?sz @ c"
  have "\<exists>s'. Raw s = (Ok ?r, s') \<and> st_input s' = []"
    using s len
  proof (cases rule: string_Kind)
    case (single x s1)
    with assms(1) show ?thesis by simp
  next
    case (string s1 s2)
    have "st_input s2 = []" using consumed_string [OF string(3,4) len string(1)] s(1) by (simp add: consumed_def)
    moreover have "puthead 0x80 0xB8 ?sz @ c = ?r" using puthead_large [OF big] by simp
    ultimately show ?thesis using string(2,4) len by (auto simp: Raw_def)
  qed
  then have "DecodeBytes (Suc n) (enc_string c) TRaw = Some (Ok (VRaw ?r))"
    by (auto simp: DecodeBytes_def decodeRawValue_def s_def [symmetric])
  with e show ?thesis by simp
qed

theorem Raw_long_string_witness:
  "\<exists>r. DecodeBytes (Suc 0) (enc_string (replicate 56 7)) TRaw = Some (Ok (VRaw r)) \<and>
    r \<noteq> enc_string (replicate 56 7)"
  using Raw_long_string [of "replicate 56 7" 0] by (auto simp: enc_string_def headsize_def intsize_eq putint_def)

text \<open>The byte \<open>0\<close> read as a one-byte array leaves the stream as it was: \<open>decodeByteArray\<close> reads
  the byte through \<open>Uint\<close> and discards its error, and \<open>Uint\<close> has not rearmed \<open>Kind\<close>.\<close>

lemma byte_array_zero_not_consumed:
  assumes "st_kind s = Some Byte" "st_kinderr s = None" "st_byteval s = 0"
  shows "decodeByteArray 1 s = (Ok (VByteArray [0]), s)"
proof -
  have K: "Kind s = (Ok (Byte, st_size s), s)" using assms by (simp add: Kind_def)
  then have "Uint s = (Err ErrCanonInt, s)" using assms by (simp add: Uint_def stream_uint_def)
  with K show ?thesis by (simp add: decodeByteArray_def)
qed

lemma elems_byte_array_stuck:
  assumes "st_kind s = Some Byte" "st_kinderr s = None" "st_byteval s = 0"
  shows "decodeSliceElems n (TByteArray 1) s = None"
proof (induction n)
  case (Suc n)
  then show ?case
    by (cases n) (simp_all add: byte_array_zero_not_consumed [OF assms] dbind_def del: One_nat_def)
qed simp

lemmas stream_eval = NewStream_def Reset_def zero_stream_def Let_def Kind_def stream_readKind_def readByte_def
  sbind_def willRead_def stream_List_def decodeByteArray_def Uint_def stream_uint_def Bytes_def ListEnd_def
  decodeByteSlice_def

text \<open>C9. Decoding the two-byte input \<open>C1 00\<close>, a list with one element, into a slice of one-byte
  arrays never returns: the element decoder succeeds without consuming the element. The same
  input decodes into a struct of a one-byte array and a byte slice as if the list had two elements.\<close>

theorem byte_array_slice_never_returns:
  "DecodeBytes n [0xC1, 0] (TSlice (TByteArray 1)) = None \<and>
   DecodeBytes 5 [0xC1, 0] (TStruct [TByteArray 1, TBytes]) = Some (Ok (VStruct [VByteArray [0], VBytes [0]]))"
proof
  define s where "s = NewStream [0xC1, 0] 2 True"
  have "\<exists>s1. stream_List s = (Ok 1, s1) \<and> st_input s1 = [0] \<and> st_kind s1 = None \<and> st_stack s1 = [(0, 1)] \<and>
    st_remaining s1 = 1 \<and> st_limited s1"
    by (simp add: s_def stream_eval)
  then obtain s1 where L: "stream_List s = (Ok 1, s1)" and s1: "st_input s1 = [0]" "st_kind s1 = None"
    "st_stack s1 = [(0, 1)]" "st_remaining s1 = 1" "st_limited s1" by blast
  have "\<exists>s2. decodeByteArray 1 s1 = (Ok (VByteArray [0]), s2) \<and> st_kind s2 = Some Byte \<and> st_kinderr s2 = None \<and>
    st_byteval s2 = 0 \<and> st_stack s2 = [(1, 1)] \<and> st_input s2 = []"
    using s1 by (simp add: stream_eval)
  then obtain s2 where d: "decodeByteArray 1 s1 = (Ok (VByteArray [0]), s2)"
    and s2: "st_kind s2 = Some Byte" "st_kinderr s2 = None" "st_byteval s2 = 0" "st_stack s2 = [(1, 1)]" "st_input s2 = []" by blast
  have el: "decodeSliceElems m (TByteArray 1) s1 = None" for m
  proof (cases m)
    case (Suc k)
    then show ?thesis using d elems_byte_array_stuck [OF s2(1-3), of k]
      by (cases k) (simp_all add: dbind_def del: One_nat_def)
  qed simp
  have dl: "decodeListSlice m (TByteArray 1) s = None" for m
    by (cases m) (simp_all add: L el dbind_def del: One_nat_def)
  have "decode n (TSlice (TByteArray 1)) s = None"
    by (cases n) (simp_all add: dl del: One_nat_def)
  then show "DecodeBytes n [0xC1, 0] (TSlice (TByteArray 1)) = None"
    by (simp add: DecodeBytes_def s_def)
  have B: "Bytes s2 = (Ok [0], s2\<lparr>st_kind := None\<rparr>)" using s2 by (simp add: stream_eval)
  have E: "ListEnd (s2\<lparr>st_kind := None\<rparr>) = (Ok (), s2\<lparr>st_kind := None, st_stack := [], st_size := 0\<rparr>)"
    using s2 by (simp add: ListEnd_def)
  have "decode (Suc (Suc (Suc (Suc (Suc 0))))) (TStruct [TByteArray 1, TBytes]) s
      = Some (Ok (VStruct [VByteArray [0], VBytes [0]]), s2\<lparr>st_kind := None, st_stack := [], st_size := 0\<rparr>)"
    using L d B E by (simp add: decodeByteSlice_def del: One_nat_def)
  with s2(5) show "DecodeBytes 5 [0xC1, 0] (TStruct [TByteArray 1, TBytes]) = Some (Ok (VStruct [VByteArray [0], VBytes [0]]))"
    by (simp add: DecodeBytes_def s_def eval_nat_numeral)
qed

section \<open>Only canonical encodings are accepted\<close>

text \<open>
  The types for which decoding determines the input. Raw values and one-byte arrays are left out
  because of the two defects, optional pointers because an empty string and an empty list both
  decode to nil.
\<close>

fun strict :: "gtype \<Rightarrow> bool" and strict_fields :: "gtype list \<Rightarrow> bool" where
  "strict TRaw = False"
| "strict TBigInt = True"
| "strict (TUint bits) = (bits \<le> 64)"
| "strict TBool = True"
| "strict TString = True"
| "strict TBytes = True"
| "strict (TByteArray n) = (n \<noteq> 1 \<and> n < 2 ^ 64)"
| "strict (TSlice e) = strict e"
| "strict (TTail e) = False"
| "strict (TArray n e) = strict e"
| "strict (TStruct ts) = strict_fields ts"
| "strict (TPtr e) = strict e"
| "strict (TOptPtr e) = False"
| "strict TInterface = True"
| "strict_fields [] = True"
| "strict_fields (t # ts) = (case (t, ts) of (TTail e, []) \<Rightarrow> strict e | _ \<Rightarrow> strict t \<and> strict_fields ts)"

lemma strict_spine: "strict t \<Longrightarrow> spine t"
  by (induction t rule: spine.induct) auto

text \<open>\<open>EOL\<close> comes from the start of a value only.\<close>

lemma readFull_no_EOL: "readFull n s \<noteq> (Err EOL, s')"
  by (auto simp: readFull_def sbind_def willRead_def Let_def split: list.splits if_splits)

lemma readByte_no_EOL: "readByte s \<noteq> (Err EOL, s')"
  by (auto simp: readByte_def sbind_def willRead_def Let_def split: list.splits if_splits)

lemma readUint_no_EOL: "readUint sz s \<noteq> (Err EOL, s')"
  using readFull_no_EOL readByte_no_EOL
  by (auto simp: readUint_def sbind_def Let_def split: prod.splits result.splits if_splits)

lemma Kind_EOL:
  assumes "Kind s = (Err EOL, s')" "st_kind s = None"
  shows "at_end s" "s' = s\<lparr>st_kinderr := None\<rparr>"
proof -
  have "at_end s"
  proof (rule ccontr)
    assume "\<not> at_end s"
    with assms obtain k sz s1 where "stream_readKind (s\<lparr>st_kinderr := None\<rparr>) = ((k, sz, Err EOL), s1)"
      by (auto simp: Kind_def Let_def at_end_def split: list.splits if_splits prod.splits result.splits option.splits)
    then show False using readByte_no_EOL readUint_no_EOL
      by (auto simp: stream_readKind_def Let_def split: prod.splits result.splits if_splits)
  qed
  then show "at_end s" "s' = s\<lparr>st_kinderr := None\<rparr>"
    using Kind_at_end [OF _ assms(2)] assms(1) by auto
qed

definition eol_start :: "'a smon \<Rightarrow> bool" where
  "eol_start D \<longleftrightarrow> (\<forall>s s'. D s = (Err EOL, s') \<longrightarrow> Kind s = (Err EOL, s'))"

lemma sbind_Err_iff:
  "sbind m f s = (Err e, s') \<longleftrightarrow> m s = (Err e, s') \<or> (\<exists>a s1. m s = (Ok a, s1) \<and> f a s1 = (Err e, s'))"
  by (auto simp: sbind_def split: prod.splits result.splits)

lemma eol_bind: "eol_start D \<Longrightarrow> (\<And>a s s'. g a s \<noteq> (Err EOL, s')) \<Longrightarrow> eol_start (sbind D g)"
  by (auto simp: eol_start_def sbind_Err_iff)

lemma eol_Kind: "eol_start Kind"
  by (simp add: eol_start_def)

lemma eol_Bytes: "eol_start Bytes"
  unfolding Bytes_def
  by (rule eol_bind [OF eol_Kind]) (auto simp: sbind_Err_iff readFull_no_EOL split: kind.splits if_splits)

lemma eol_uint: "eol_start (stream_uint bits)"
  unfolding stream_uint_def
  by (rule eol_bind [OF eol_Kind]) (auto simp: readUint_no_EOL split: kind.splits if_splits prod.splits result.splits)

lemma eol_decoders:
  "eol_start decodeBigInt" "eol_start (decodeUint bits)" "eol_start decodeBool" "eol_start decodeString"
  "eol_start decodeByteSlice" "eol_start (decodeByteArray vlen)" "eol_start stream_List"
proof -
  show "eol_start decodeBool" unfolding decodeBool_def Bool_def
    by (intro eol_bind eol_uint) (auto split: if_splits)
  show "eol_start (decodeByteArray vlen)" unfolding decodeByteArray_def
    by (rule eol_bind [OF eol_Kind])
       (auto simp: sbind_Err_iff readFull_no_EOL split: kind.splits if_splits prod.splits result.splits)
qed (auto simp: decodeBigInt_def decodeUint_def decodeString_def decodeByteSlice_def stream_List_def
      intro!: eol_bind eol_Bytes eol_uint eol_Kind split: if_splits)

definition accepts :: "gval smon \<Rightarrow> bool" where
  "accepts D \<longleftrightarrow> (\<forall>s v s'. D s = (Ok v, s') \<longrightarrow> st_kind s = None \<longrightarrow> top_ok s \<longrightarrow>
     (\<exists>e. enc_ref v = Ok e \<and> consumed e s s'))"

lemma accepts_Bytes:
  "accepts decodeString" "accepts decodeByteSlice" "accepts decodeBigInt"
  by (auto simp: accepts_def decodeString_def decodeByteSlice_def decodeBigInt_def sbind_Ok_iff
      be_bytes_be_val hd_conv_nth split: if_splits dest: Bytes_Ok)

lemma accepts_uint: "bits \<le> 64 \<Longrightarrow> accepts (decodeUint bits)"
  by (auto simp: accepts_def decodeUint_def sbind_Ok_iff dest: stream_uint_Ok(1))

lemma accepts_bool: "accepts decodeBool"
proof -
  have "consumed (enc_string (if b then [1] else [])) s s'"
    if "Bool s = (Ok b, s')" "st_kind s = None" "top_ok s" for b s s'
  proof -
    from that(1) obtain num where u: "stream_uint 8 s = (Ok num, s')" "num = (if b then 1 else 0)"
      by (auto simp: Bool_def sbind_Ok_iff split: if_splits)
    from stream_uint_Ok(1) [OF u(1) that(2,3)] u(2) show ?thesis
      by (cases b) (simp_all add: be_bytes_unfold)
  qed
  then show ?thesis by (auto simp: accepts_def decodeBool_def sbind_Ok_iff)
qed

lemma accepts_byte_array:
  assumes "n \<noteq> 1" "n < 2 ^ 64"
  shows "accepts (decodeByteArray n)"
  unfolding accepts_def
proof (intro allI impI)
  fix s v s'
  assume d: "decodeByteArray n s = (Ok v, s')" and s: "st_kind s = None" "top_ok s"
  have un: "unat (of_nat n :: uint64) = n" using assms(2) by simp
  from d obtain k sz s1 where K: "Kind s = (Ok (k, sz), s1)" by (auto simp: decodeByteArray_def sbind_Ok_iff)
  note pk = Kind_Ok [OF K s]
  have "k \<noteq> Byte" using d K assms(1) by (auto simp: decodeByteArray_def split: if_splits)
  moreover have "k \<noteq> List" using d K by (auto simp: decodeByteArray_def)
  ultimately have k: "k = String" by (cases k) auto
  have d': "sbind (readFull n) (\<lambda>b s1. if sz = 1 \<and> b ! 0 < 128 then (Err ErrCanonSize, s1) else (Ok (VByteArray b), s1)) s1
      = (Ok v, s')" and sz: "sz = of_nat n"
    using d K k by (auto simp: decodeByteArray_def split: if_splits)
  from d' obtain b where b: "readFull n s1 = (Ok b, s')" "\<not> (sz = 1 \<and> b ! 0 < 128)" "v = VByteArray b"
    by (auto simp: sbind_Ok_iff split: if_splits)
  have "readFull (unat sz) s1 = (Ok b, s')" using b(1) sz un by simp
  from readFull_peeked [OF pk this] k have "consumed (tag_bytes String sz @ b) s s'" "length b = unat sz" by auto
  with enc_string_long [OF this(2) b(2)] b(3) show "\<exists>e. enc_ref v = Ok e \<and> consumed e s s'" by simp
qed

lemma accepts_list:
  assumes op: "opened sz s s1" and c: "consumed p s1 s2" and le: "ListEnd s2 = (Ok (), s3)"
  shows "consumed (enc_list p) s s3"
proof -
  have m: "moved (length p) s1 s2" and i: "st_input s1 = p @ st_input s2" using c by (auto simp: consumed_def)
  note e = ListEnd_Ok [OF op m le]
  then have "sz = of_nat (length p)" by simp
  moreover have "st_input s = puthead 0xC0 0xF7 sz @ st_input s1" using op by (auto simp: opened_def)
  ultimately have "moved (length (enc_list p)) s s3" "take (length (enc_list p)) (st_input s) = enc_list p"
    using e i by (simp_all add: enc_list_def)
  with moved_consumed show ?thesis by metis
qed

definition sound_result :: "stream \<Rightarrow> (rlp_error, gval) result \<Rightarrow> stream \<Rightarrow> bool" where
  "sound_result s r s' \<longleftrightarrow> (\<forall>v. r = Ok v \<longrightarrow> (\<exists>e. enc_ref v = Ok e \<and> consumed e s s')) \<and>
     (r = Err EOL \<longrightarrow> at_end s \<and> moved 0 s s')"

lemma sound_leaf:
  assumes "accepts D" "eol_start D" "D s = (r, s')" "st_kind s = None" "top_ok s"
  shows "sound_result s r s'"
proof -
  have "at_end s \<and> moved 0 s s'" if "r = Err EOL"
  proof -
    have K: "Kind s = (Err EOL, s')" using assms(2,3) that by (simp add: eol_start_def)
    from Kind_EOL [OF K assms(4)] moved_0 [OF assms(5,4)] show ?thesis by simp
  qed
  with assms(1,3-5) show ?thesis by (auto simp: sound_result_def accepts_def)
qed

definition sound_at :: "nat \<Rightarrow> bool" where
  "sound_at n \<longleftrightarrow>
     (\<forall>t s r s'. strict t \<longrightarrow> st_kind s = None \<longrightarrow> top_ok s \<longrightarrow> decode n t s = Some (r, s') \<longrightarrow> sound_result s r s') \<and>
     (\<forall>e s r s'. strict e \<longrightarrow> st_kind s = None \<longrightarrow> top_ok s \<longrightarrow> decodeListSlice n e s = Some (r, s') \<longrightarrow> sound_result s r s') \<and>
     (\<forall>e s vs s'. strict e \<longrightarrow> st_kind s = None \<longrightarrow> top_ok s \<longrightarrow> decodeSliceElems n e s = Some (Ok vs, s') \<longrightarrow>
        (\<exists>p. enc_refs vs = Ok p \<and> consumed p s s')) \<and>
     (\<forall>e k s vs s'. strict e \<longrightarrow> st_kind s = None \<longrightarrow> top_ok s \<longrightarrow> decodeListArray n e k s = Some (Ok vs, s') \<longrightarrow>
        (\<exists>p. enc_refs vs = Ok p \<and> consumed p s s')) \<and>
     (\<forall>ts s vs s'. strict_fields ts \<longrightarrow> st_kind s = None \<longrightarrow> top_ok s \<longrightarrow> decodeFields n ts s = Some (Ok vs, s') \<longrightarrow>
        (\<exists>p. enc_refs vs = Ok p \<and> consumed p s s'))"

lemma dbind_Err_iff:
  "dbind m f s = Some (Err e, s') \<longleftrightarrow>
     m s = Some (Err e, s') \<or> (\<exists>a s1. m s = Some (Ok a, s1) \<and> f a s1 = Some (Err e, s'))"
  by (auto simp: dbind_def split: option.splits prod.splits result.splits)

lemma no_EOL_loops:
  "decodeSliceElems n e s \<noteq> Some (Err EOL, s')"
  "decodeListArray n e k s \<noteq> Some (Err EOL, s')"
  "decodeFields n ts s \<noteq> Some (Err EOL, s')"
proof -
  show "decodeSliceElems n e s \<noteq> Some (Err EOL, s')"
  proof (induction n arbitrary: s s')
    case (Suc n)
    then show ?case
      by (cases "decode n e s") (auto simp: dbind_Err_iff split: result.splits if_splits)
  qed simp
  show "decodeListArray n e k s \<noteq> Some (Err EOL, s')"
  proof (induction n arbitrary: s s' k)
    case (Suc n)
    then show ?case
      by (cases "decode n e s") (auto simp: dbind_Err_iff split: result.splits if_splits)
  qed simp
  show "decodeFields n ts s \<noteq> Some (Err EOL, s')"
  proof (induction n arbitrary: s s' ts)
    case (Suc n)
    show ?case
    proof (cases ts)
      case (Cons t ts')
      with Suc show ?thesis
        by (cases "decode n t s") (auto simp: dbind_Err_iff split: result.splits if_splits)
    qed simp
  qed simp
qed

lemma sound_at_D:
  "sound_at n \<Longrightarrow> strict t \<Longrightarrow> st_kind s = None \<Longrightarrow> top_ok s \<Longrightarrow> decode n t s = Some (r, s') \<Longrightarrow> sound_result s r s'"
  "sound_at n \<Longrightarrow> strict t \<Longrightarrow> st_kind s = None \<Longrightarrow> top_ok s \<Longrightarrow> decodeListSlice n t s = Some (r, s') \<Longrightarrow> sound_result s r s'"
  "sound_at n \<Longrightarrow> strict t \<Longrightarrow> st_kind s = None \<Longrightarrow> top_ok s \<Longrightarrow> decodeSliceElems n t s = Some (Ok vs, s') \<Longrightarrow>
     \<exists>p. enc_refs vs = Ok p \<and> consumed p s s'"
  "sound_at n \<Longrightarrow> strict t \<Longrightarrow> st_kind s = None \<Longrightarrow> top_ok s \<Longrightarrow> decodeListArray n t k s = Some (Ok vs, s') \<Longrightarrow>
     \<exists>p. enc_refs vs = Ok p \<and> consumed p s s'"
  "sound_at n \<Longrightarrow> strict_fields ts \<Longrightarrow> st_kind s = None \<Longrightarrow> top_ok s \<Longrightarrow> decodeFields n ts s = Some (Ok vs, s') \<Longrightarrow>
     \<exists>p. enc_refs vs = Ok p \<and> consumed p s s'"
  by (simp_all only: sound_at_def)

lemma consumed_top_ok: "consumed e s s' \<Longrightarrow> top_ok s'"
  by (auto simp: consumed_def dest: moved_top_ok)

text \<open>A list: its header, a loop \<open>m\<close> over the payload, the end.\<close>

lemma sound_list:
  assumes D: "dbind (dlift stream_List) (\<lambda>_. dbind m (\<lambda>vs. dbind (dlift ListEnd) (\<lambda>_. dret (F vs)))) s = Some (r, s')"
    and s: "st_kind s = None" "top_ok s"
    and m: "\<And>s vs s'. st_kind s = None \<Longrightarrow> top_ok s \<Longrightarrow> m s = Some (Ok vs, s') \<Longrightarrow>
        \<exists>p. enc_refs vs = Ok p \<and> consumed p s s'"
    and noeol: "\<And>s s'. m s \<noteq> Some (Err EOL, s')"
    and F: "\<And>vs p. enc_refs vs = Ok p \<Longrightarrow> enc_ref (F vs) = Ok (enc_list p)"
  shows "sound_result s r s'"
proof -
  have "\<exists>e. enc_ref v = Ok e \<and> consumed e s s'" if "r = Ok v" for v
  proof -
    from D that obtain sz s1 vs s2 where L: "stream_List s = (Ok sz, s1)" "m s1 = Some (Ok vs, s2)"
      "ListEnd s2 = (Ok (), s')" "v = F vs" by (auto simp: dbind_Ok_iff dlift_def dret_def)
    note op = stream_List_Ok [OF L(1) s]
    from m [OF opened_kind [OF op] opened_top_ok [OF op] L(2)] obtain p where
      p: "enc_refs vs = Ok p" "consumed p s1 s2" by blast
    with accepts_list [OF op p(2) L(3)] F [OF p(1)] L(4) show ?thesis by blast
  qed
  moreover have "at_end s \<and> moved 0 s s'" if "r = Err EOL"
  proof -
    have "\<not> ListEnd t = (Err EOL, t')" for t t' by (auto simp: ListEnd_def split: list.splits if_splits)
    with D that noeol have "stream_List s = (Err EOL, s')"
      by (auto simp: dbind_Err_iff dlift_def dret_def)
    then have "Kind s = (Err EOL, s')" using eol_decoders(7) by (simp add: eol_start_def)
    from Kind_EOL [OF this s(1)] moved_0 [OF s(2,1)] show ?thesis by simp
  qed
  ultimately show ?thesis by (simp add: sound_result_def)
qed

lemma sound_slice:
  assumes "sound_at n" "strict e" "st_kind s = None" "top_ok s" "decodeListSlice (Suc n) e s = Some (r, s')"
  shows "sound_result s r s'"
proof (cases "stream_List s")
  case (Pair r0 s1)
  show ?thesis
  proof (cases "r0 = Ok 0")
    case True
    have "dbind (dlift stream_List) (\<lambda>_. dbind (dret []) (\<lambda>vs. dbind (dlift ListEnd) (\<lambda>_. dret (VSlice vs)))) s = Some (r, s')"
      using assms(5) Pair True by simp
    then show ?thesis
    proof (rule sound_list [OF _ assms(3,4)])
      show "\<exists>p. enc_refs vs = Ok p \<and> consumed p s s'"
        if "st_kind s = None" "top_ok s" "dret [] s = Some (Ok vs, s')" for s vs s'
        using that consumed_0 by (auto simp: dret_def)
    qed (auto simp: dret_def)
  next
    case False
    have "dbind (dlift stream_List) (\<lambda>_. dbind (decodeSliceElems n e) (\<lambda>vs. dbind (dlift ListEnd) (\<lambda>_. dret (VSlice vs)))) s = Some (r, s')"
      using assms(5) Pair False by (cases r0) (auto simp: dbind_def dlift_def)
    then show ?thesis
      by (rule sound_list [OF _ assms(3,4) sound_at_D(3) [OF assms(1,2)] no_EOL_loops(1)]) simp_all
  qed
qed

lemma sound_cons:
  assumes hd: "sound_result s (Ok v) s1" and tl: "\<exists>p. enc_refs vs = Ok p \<and> consumed p s1 s'"
  shows "\<exists>p. enc_refs (v # vs) = Ok p \<and> consumed p s s'"
proof -
  from hd obtain e where "enc_ref v = Ok e" "consumed e s s1" by (auto simp: sound_result_def)
  moreover from tl obtain p where "enc_refs vs = Ok p" "consumed p s1 s'" by blast
  ultimately show ?thesis using consumed_trans by (intro exI [of _ "e @ p"]) simp
qed

lemma sound_next: "sound_result s (Ok v) s1 \<Longrightarrow> st_kind s1 = None \<and> top_ok s1"
  by (auto simp: sound_result_def dest: consumed_props(1) consumed_top_ok)

lemma sound_elems:
  assumes IH: "sound_at n" and st: "strict e" "st_kind s = None" "top_ok s"
  shows "decodeSliceElems (Suc n) e s = Some (Ok vs, s') \<Longrightarrow> \<exists>p. enc_refs vs = Ok p \<and> consumed p s s'"
    and "decodeListArray (Suc n) e k s = Some (Ok vs, s') \<Longrightarrow> \<exists>p. enc_refs vs = Ok p \<and> consumed p s s'"
proof -
  { assume d: "decodeSliceElems (Suc n) e s = Some (Ok vs, s')"
    then obtain r s1 where r: "decode n e s = Some (r, s1)" by (auto split: option.splits)
    note sr = sound_at_D(1) [OF IH st r]
    from d r consider (ok) v ws where "r = Ok v" "vs = v # ws" "decodeSliceElems n e s1 = Some (Ok ws, s')"
      | (eol) "r = Err EOL" "vs = []" "s' = s1"
      by (auto simp: dbind_Ok_iff split: result.splits if_splits)
    then show "\<exists>p. enc_refs vs = Ok p \<and> consumed p s s'"
    proof cases
      case ok
      with sr sound_next [of s v s1] sound_at_D(3) [OF IH st(1) _ _ ok(3)] sound_cons show ?thesis by blast
    next
      case eol
      with sr have "moved 0 s s'" by (simp add: sound_result_def)
      with moved_consumed [OF this] eol(2) show ?thesis by simp
    qed }
  { assume d: "decodeListArray (Suc n) e k s = Some (Ok vs, s')"
    show "\<exists>p. enc_refs vs = Ok p \<and> consumed p s s'"
    proof (cases "k = 0")
      case True
      with d consumed_0 [OF st(2,3)] show ?thesis by simp
    next
      case False
      with d obtain r s1 where r: "decode n e s = Some (r, s1)" by (auto split: option.splits)
      note sr = sound_at_D(1) [OF IH st r]
      from d r False obtain v ws where ok: "r = Ok v" "vs = v # ws" "decodeListArray n e (k - 1) s1 = Some (Ok ws, s')"
        by (auto simp: dbind_Ok_iff split: result.splits if_splits)
      with sr sound_next [of s v s1] sound_at_D(4) [OF IH st(1) _ _ ok(3)] sound_cons show ?thesis by blast
    qed }
qed

lemma strict_fields_Cons:
  assumes "strict_fields (t # ts)"
  obtains (tail) e where "t = TTail e" "ts = []" "strict e"
    | (field) "strict t" "strict_fields ts"
  using assms by (cases t; cases ts) auto

lemma sound_fields:
  assumes IH: "sound_at n" "0 < n \<Longrightarrow> sound_at (n - 1)" and st: "strict_fields ts" "st_kind s = None" "top_ok s"
    and d: "decodeFields (Suc n) ts s = Some (Ok vs, s')"
  shows "\<exists>p. enc_refs vs = Ok p \<and> consumed p s s'"
proof (cases ts)
  case Nil
  with d consumed_0 [OF st(2,3)] show ?thesis by simp
next
  case (Cons t ts')
  with d obtain r s1 where r: "decode n t s = Some (r, s1)" by (auto split: option.splits)
  from d r Cons obtain v ws where ok: "r = Ok v" "vs = v # ws" "decodeFields n ts' s1 = Some (Ok ws, s')"
    by (auto simp: dbind_Ok_iff split: result.splits if_splits)
  from st(1) [unfolded Cons] show ?thesis
  proof (cases rule: strict_fields_Cons)
    case field
    note sr = sound_at_D(1) [OF IH(1) field(1) st(2,3) r]
    with ok sound_next [of s v s1] sound_at_D(5) [OF IH(1) field(2) _ _ ok(3)] sound_cons show ?thesis by blast
  next
    case (tail e)
    from r tail(1) obtain m where m: "n = Suc m" by (cases n) auto
    with r tail(1) ok(1) obtain xs where xs: "v = VTail xs" "decodeSliceElems m e s = Some (Ok xs, s1)"
      by (auto simp: dbind_Ok_iff dret_def simp del: decodeSliceElems.simps)
    have "sound_at m" using IH(2) m by simp
    from sound_at_D(3) [OF this tail(3) st(2,3) xs(2)] obtain p where "enc_refs xs = Ok p" "consumed p s s1" by blast
    moreover have "ws = []" "s' = s1" using ok(3) tail(2) m by auto
    ultimately show ?thesis using ok(2) xs(1) by simp
  qed
qed

lemma sound_map:
  assumes "dbind m (\<lambda>v. dret (F v)) s = Some (r, s')" "\<And>r s'. m s = Some (r, s') \<Longrightarrow> sound_result s r s'"
    "\<And>v. enc_ref (F v) = enc_ref v"
  shows "sound_result s r s'"
proof (cases "m s")
  case (Some rs)
  obtain r0 s0 where "rs = (r0, s0)" by (cases rs)
  with Some assms(2) have "sound_result s r0 s0" by simp
  with assms(1,3) Some \<open>rs = _\<close> show ?thesis
    by (cases r0) (auto simp: dbind_def dret_def sound_result_def)
qed (use assms(1) in \<open>simp add: dbind_def\<close>)

lemma sound_interface:
  assumes IH: "sound_at n" and s: "st_kind s = None" "top_ok s"
    and d: "decode (Suc n) TInterface s = Some (r, s')"
  shows "sound_result s r s'"
proof (cases "Kind s")
  case (Pair r0 s1)
  show ?thesis
  proof (cases r0)
    case (Ok ksz)
    obtain k sz where K: "Kind s = (Ok (k, sz), s1)" using Pair Ok by (cases ksz) auto
    have same: "Kind s1 = Kind s" using peeked_cached [OF Kind_Ok [OF K s]] K by simp
    show ?thesis
    proof (cases "k = List")
      case True
      have "dbind (decodeListSlice n TInterface) (\<lambda>v. dret (VInterface v)) s1 = Some (r, s')"
        using d K True by simp
      then have "dbind (decodeListSlice n TInterface) (\<lambda>v. dret (VInterface v)) s = Some (r, s')"
        by (simp only: dbind_arg [OF decodeListSlice_cached [OF same]])
      then show ?thesis
        by (rule sound_map [where F = VInterface, OF _ sound_at_D(2) [OF IH _ s]]) simp_all
    next
      case False
      have "dbind (dlift decodeByteSlice) (\<lambda>v. dret (VInterface v)) s = Some (r, s')"
        using d K False cached_decoders(9) [OF same]
        by (auto simp: decodeByteSlice_def dbind_def sbind_def dlift_def dret_def split: prod.splits result.splits)
      then show ?thesis
        by (rule sound_map) (auto intro: sound_leaf [OF accepts_Bytes(2) eol_decoders(5) _ s] simp: dlift_def)
    qed
  next
    case (Err e)
    then have "Kind s = (Err e, s1)" "r = Err e" "s' = s1" using Pair d by auto
    then show ?thesis using Kind_EOL [OF _ s(1)] moved_0 [OF s(2,1)] by (auto simp: sound_result_def)
  next
    case (Panic p)
    then show ?thesis using Pair d by (auto simp: sound_result_def dbind_def dlift_def)
  qed
qed

lemma sound_decode:
  assumes IH: "sound_at n" and t: "strict t" and s: "st_kind s = None" "top_ok s"
    and d: "decode (Suc n) t s = Some (r, s')"
  shows "sound_result s r s'"
proof (cases t)
  case TBigInt
  with d show ?thesis by (intro sound_leaf [OF accepts_Bytes(3) eol_decoders(1) _ s]) (simp add: dlift_def)
next
  case (TUint bits)
  with d t show ?thesis
    by (intro sound_leaf [OF accepts_uint eol_decoders(2) _ s]) (simp_all add: dlift_def)
next
  case TBool
  with d show ?thesis by (intro sound_leaf [OF accepts_bool eol_decoders(3) _ s]) (simp add: dlift_def)
next
  case TString
  with d show ?thesis by (intro sound_leaf [OF accepts_Bytes(1) eol_decoders(4) _ s]) (simp add: dlift_def)
next
  case TBytes
  with d show ?thesis by (intro sound_leaf [OF accepts_Bytes(2) eol_decoders(5) _ s]) (simp add: dlift_def)
next
  case (TByteArray k)
  with d t show ?thesis
    by (intro sound_leaf [OF accepts_byte_array eol_decoders(6) _ s]) (simp_all add: dlift_def)
next
  case (TSlice e)
  with d t show ?thesis by (intro sound_at_D(2) [OF IH _ s]) simp_all
next
  case (TArray k e)
  with d have "dbind (dlift stream_List) (\<lambda>_. dbind (decodeListArray n e k) (\<lambda>vs. dbind (dlift ListEnd) (\<lambda>_. dret (VSlice vs)))) s
      = Some (r, s')" by simp
  moreover have "strict e" using t TArray by simp
  ultimately show ?thesis
    by (rule_tac sound_list [where F = VSlice, OF _ s sound_at_D(4) [OF IH] no_EOL_loops(2)]) auto
next
  case (TStruct ts)
  with d have "dbind (dlift stream_List) (\<lambda>_. dbind (decodeFields n ts) (\<lambda>vs. dbind (dlift ListEnd) (\<lambda>_. dret (VStruct vs)))) s
      = Some (r, s')" by simp
  moreover have "strict_fields ts" using t TStruct by simp
  ultimately show ?thesis
    by (rule_tac sound_list [where F = VStruct, OF _ s sound_at_D(5) [OF IH] no_EOL_loops(3)]) auto
next
  case (TPtr e)
  with d have "dbind (decode n e) (\<lambda>v. dret (VPtr v)) s = Some (r, s')" by simp
  then show ?thesis using t TPtr
    by (rule_tac sound_map [where F = VPtr and m = "decode n e", OF _ sound_at_D(1) [OF IH _ s]]) simp_all
next
  case TInterface
  with sound_interface [OF IH s] d show ?thesis by simp
qed (use t in auto)

lemma sound_all: "sound_at n \<and> (0 < n \<longrightarrow> sound_at (n - 1))"
proof (induction n)
  case 0
  show ?case by (simp add: sound_at_def)
next
  case (Suc n)
  then have IH: "sound_at n" "0 < n \<Longrightarrow> sound_at (n - 1)" by auto
  have "sound_at (Suc n)" unfolding sound_at_def
    by (intro conjI allI impI)
       ((erule (3) sound_decode [OF IH(1)] sound_slice [OF IH(1)] sound_elems(1) [OF IH(1)]
          sound_elems(2) [OF IH(1)])+, rule sound_fields [OF IH])
  with Suc show ?case by simp
qed

lemma decodeListSlice_VSlice: "decodeListSlice n e s = Some (Ok v, s') \<Longrightarrow> \<exists>vs. v = VSlice vs"
  by (cases n) (auto simp: dbind_def dlift_def dret_def split: option.splits prod.splits result.splits if_splits)

lemma decode_not_nil: "decode n t s = Some (Ok v, s') \<Longrightarrow> \<not> nil_arg v"
proof (cases n)
  case (Suc m)
  assume d: "decode n t s = Some (Ok v, s')"
  show ?thesis using d unfolding Suc
    by (cases t)
      (auto simp: dbind_def dlift_def dret_def sbind_def decodeRawValue_def decodeBigInt_def decodeUint_def decodeBool_def
        decodeString_def decodeByteSlice_def decodeByteArray_def
        split: option.splits prod.splits result.splits if_splits kind.splits dest!: decodeListSlice_VSlice)
qed simp

text \<open>C4. Decoding accepts only canonical encodings: if decoding with a \<open>strict\<close> type returns a
  value, the input is exactly what the encoder produces for that value. Two different inputs
  therefore never decode to the same value of a strict type.\<close>

theorem Decode_canonical:
  assumes "strict t" "length b < 2 ^ 64" "DecodeBytes n b t = Some (Ok v)"
  shows "EncodeToBytes v = Ok b"
proof -
  let ?s = "NewStream b (of_nat (length b)) True"
  have s: "st_kind ?s = None" "top_ok ?s" "st_input ?s = b"
    by (simp_all add: NewStream_def Reset_def zero_stream_def Let_def top_ok_def)
  from assms(3) obtain s' where d: "decode n t ?s = Some (Ok v, s')" "st_input s' = []"
    by (auto simp: DecodeBytes_def split: option.splits prod.splits result.splits if_splits)
  from sound_at_D(1) [OF conjunct1 [OF sound_all] assms(1) s(1,2) d(1)] obtain e where
    e: "enc_ref v = Ok e" "consumed e ?s s'" by (auto simp: sound_result_def)
  with s(3) d(2) have "e = b" by (simp add: consumed_def)
  with EncodeToBytes_enc_ref(1) [OF e(1)] assms(2) decode_not_nil [OF d(1)] show ?thesis by simp
qed

theorem Decode_canonical_witness:
  "\<exists>n. DecodeBytes n [0xC1, 5] (TSlice TBytes) = Some (Ok (VSlice [VBytes [5]])) \<and>
    EncodeToBytes (VSlice [VBytes [5]]) = Ok [0xC1, 5]"
proof -
  have "typed (TSlice TBytes) (VSlice [VBytes [5]])" by (auto intro!: typed_typed_elems_typed_fields.intros)
  moreover have e: "enc_ref (VSlice [VBytes [5]]) = Ok [0xC1, 5]"
    by (simp add: enc_string_def enc_list_def puthead_def)
  ultimately have "decodes (TSlice TBytes) (VSlice [VBytes [5]]) [0xC1, 5]" by (rule decode_complete(1)) simp
  from DecodeBytes_complete [OF this] obtain n where
    n: "DecodeBytes n [0xC1, 5] (TSlice TBytes) = Some (Ok (VSlice [VBytes [5]]))" by auto
  with Decode_canonical [OF _ _ n] show ?thesis by auto
qed

end
