(* ===== verification/Trie_Encoding.thy ===== *)
theory Trie_Encoding
  imports Rlp_Raw
begin

unbundle bit_operations_syntax

text \<open>
  The key encodings of \<open>trie/encoding.go\<close>: between byte strings, hex (nibble) keys with their
  terminator \<open>16\<close>, and the compact form in which short nodes are stored.
\<close>

section \<open>Definitions\<close>

text \<open>The loop of \<open>compactEncode\<close>; the shift alternates between 4 and 0.\<close>

function compactEncode_loop :: "bytes \<Rightarrow> bytes \<Rightarrow> nat \<Rightarrow> nat \<Rightarrow> byte \<Rightarrow> bytes" where
  "compactEncode_loop hexSlice buf bi hi hs =
    (if bi < length buf \<and> hi < length hexSlice then
       compactEncode_loop hexSlice (buf[bi := buf ! bi OR push_bit (unat hs) (hexSlice ! hi)])
         (if hs = 0 then bi + 1 else bi) (hi + 1) (hs XOR 4)
     else buf)"
  by pat_completeness auto
termination
  by (relation "measure (\<lambda>(hexSlice, buf, bi, hi, hs). length hexSlice - hi)") auto

definition compactEncode :: "bytes \<Rightarrow> ('e, bytes) result" where
  "compactEncode hexSlice0 =
    (if hexSlice0 = [] then Panic IndexOutOfRange
     else
       let terminator = (if last hexSlice0 = 16 then 1 else 0 :: byte);
           hexSlice = (if last hexSlice0 = 16 then butlast hexSlice0 else hexSlice0);
           odd = of_nat (length hexSlice mod 2) :: byte;
           buflen = length hexSlice div 2 + 1;
           bi = (if odd = 0 then 1 else 0);
           hs = (if odd = 0 then 4 else 0 :: byte);
           buf = (replicate buflen 0)[0 := push_bit 5 terminator OR push_bit 4 odd]
       in Ok (compactEncode_loop hexSlice buf bi 0 hs))"

definition nibbles :: "bytes \<Rightarrow> bytes" where
  "nibbles str = concat (map (\<lambda>b. [b div 16, b mod 16]) str)"

definition compactHexDecode :: "bytes \<Rightarrow> bytes" where
  "compactHexDecode str = nibbles str @ [16]"

definition compactDecode :: "bytes \<Rightarrow> ('e, bytes) result" where
  "compactDecode str =
    (let base = butlast (compactHexDecode str) in
     bind_result (index base 0) (\<lambda>b0.
       let base1 = (if b0 \<ge> 2 then base @ [16] else base) in
       if b0 mod 2 = 1 then slice base1 1 (length base1) else slice base1 2 (length base1)))"

fun decodeCompact :: "bytes \<Rightarrow> bytes" where
  "decodeCompact (v1 # v0 # key) = (v1 * 16 + v0) # decodeCompact key"
| "decodeCompact _ = []"

fun prefixLen :: "bytes \<Rightarrow> bytes \<Rightarrow> nat" where
  "prefixLen (a # as) (b # bs) = (if a = b then Suc (prefixLen as bs) else 0)"
| "prefixLen _ _ = 0"

definition hasTerm :: "bytes \<Rightarrow> ('e, bool) result" where
  "hasTerm s = (if s = [] then Panic IndexOutOfRange else Ok (last s = 16))"

definition remTerm :: "bytes \<Rightarrow> ('e, bytes) result" where
  "remTerm s = bind_result (hasTerm s) (\<lambda>t. Ok (if t then butlast s else s))"

declare compactEncode_loop.simps [simp del]

section \<open>Nibbles\<close>

text \<open>Hex keys: nibbles, and optionally the terminator at the end.\<close>

definition hex_key :: "bytes \<Rightarrow> bool" where
  "hex_key k \<longleftrightarrow> list_all (\<lambda>b. b < 16) k \<or> (k \<noteq> [] \<and> last k = 16 \<and> list_all (\<lambda>b. b < 16) (butlast k))"

lemma unat_div_16: "unat (b div 16 :: byte) = unat b div 16"
  by (simp add: unat_div)

lemma unat_mod_16: "unat (b mod 16 :: byte) = unat b mod 16"
  by (simp add: unat_mod)

lemma nibble_bounds [simp]: "b div 16 < (16 :: byte)" "b mod 16 < (16 :: byte)"
  using unat_byte_less [of b] by (auto simp: word_less_nat_alt unat_div_16 unat_mod_16)

lemma nibble_join: "(b div 16) * 16 + b mod 16 = (b :: byte)"
  by (simp add: div_mult_mod_eq)

lemma nibble_split:
  assumes "h < (16 :: byte)" "l < 16"
  shows "(h * 16 + l) div 16 = h" "(h * 16 + l) mod 16 = l"
proof -
  have u: "unat h < 16" "unat l < 16" using assms by (auto simp: word_less_nat_alt)
  then have s: "unat (h * 16 + l) = unat h * 16 + unat l"
    by (simp add: unat_word_ariths)
  show "(h * 16 + l) div 16 = h" "(h * 16 + l) mod 16 = l"
    using u by (simp_all add: word_unat_eq_iff unat_div_16 unat_mod_16 s)
qed

lemma nibbles_simps [simp]:
  "nibbles [] = []" "nibbles (b # bs) = (b div 16) # (b mod 16) # nibbles bs"
  "nibbles (xs @ ys) = nibbles xs @ nibbles ys"
  by (simp_all add: nibbles_def)

lemma length_nibbles [simp]: "length (nibbles bs) = 2 * length bs"
  by (induction bs) auto

lemma nibbles_lt: "list_all (\<lambda>b. b < 16) (nibbles bs)"
  by (induction bs) auto

lemma nibble_eqI:
  assumes "a div 16 = b div 16" "a mod 16 = b mod 16"
  shows "a = (b :: byte)"
proof -
  have "(a div 16) * 16 + a mod 16 = (b div 16) * 16 + b mod 16" by (simp only: assms)
  then show ?thesis by (simp only: nibble_join)
qed

lemma nibbles_inject [simp]: "nibbles as = nibbles bs \<longleftrightarrow> as = bs"
proof (induction as arbitrary: bs)
  case Nil
  show ?case by (cases bs) auto
next
  case (Cons a as)
  show ?case
  proof (cases bs)
    case (Cons b bs')
    with Cons.IH nibble_eqI [of a b] show ?thesis by auto
  qed simp
qed

lemma decodeCompact_nibbles [simp]: "decodeCompact (nibbles bs) = bs"
  by (induction bs) (auto simp: nibble_join)

lemma nibbles_decodeCompact:
  "list_all (\<lambda>b. b < 16) k \<Longrightarrow> even (length k) \<Longrightarrow> nibbles (decodeCompact k) = k"
  by (induction k rule: decodeCompact.induct) (auto simp: nibble_split)

lemma compactHexDecode_inject [simp]: "compactHexDecode a = compactHexDecode b \<longleftrightarrow> a = b"
  by (simp add: compactHexDecode_def)

lemma prefixLen_take: "take (prefixLen a b) a = take (prefixLen a b) b"
  by (induction a b rule: prefixLen.induct) auto

lemma prefixLen_le: "prefixLen a b \<le> length a" "prefixLen a b \<le> length b"
  by (induction a b rule: prefixLen.induct) auto

lemma prefixLen_differ:
  "prefixLen a b < length a \<Longrightarrow> prefixLen a b < length b \<Longrightarrow> a ! prefixLen a b \<noteq> b ! prefixLen a b"
  by (induction a b rule: prefixLen.induct) auto

lemma prefixLen_prefix [simp]: "prefixLen (k @ x) k = length k" "prefixLen k (k @ x) = length k"
  by (induction k) auto

section \<open>Compact keys\<close>

lemma nibble_or:
  assumes "h < (16 :: byte)" "l < 16"
  shows "push_bit 4 h OR l = h * 16 + l"
proof -
  have l: "take_bit 4 l = l" using assms(2) by (simp add: take_bit_eq_mod word_less_nat_alt word_unat_eq_iff unat_mod_16)
  have "push_bit 4 h AND take_bit 4 l = 0"
    by (rule bit_word_eqI) (auto simp: bit_simps)
  then have "push_bit 4 h AND l = 0" unfolding l .
  then have "push_bit 4 h OR l = push_bit 4 h + l" by (simp add: disjunctive_add_eq_or)
  then show ?thesis by (simp add: push_bit_eq_mult)
qed

lemma compactEncode_loop_even:
  "length buf = bi + r \<Longrightarrow> drop bi buf = replicate r 0 \<Longrightarrow> length hexSlice = hi + 2 * r \<Longrightarrow>
    list_all (\<lambda>b. b < 16) hexSlice \<Longrightarrow>
    compactEncode_loop hexSlice buf bi hi 4 = take bi buf @ decodeCompact (drop hi hexSlice)"
proof (induction r arbitrary: bi hi buf)
  case 0
  then show ?case by (simp add: compactEncode_loop.simps [of hexSlice])
next
  case (Suc r)
  let ?h = "hexSlice ! hi" and ?l = "hexSlice ! Suc hi"
  have lt: "?h < 16" "?l < 16" using Suc.prems(3,4) by (auto simp: list_all_length)
  have bi: "bi < length buf" using Suc.prems(1) by simp
  have "drop bi buf ! 0 = 0" unfolding Suc.prems(2) by simp
  then have z: "buf ! bi = 0" using bi by simp
  let ?buf = "buf[bi := ?h * 16 + ?l]"
  have "compactEncode_loop hexSlice buf bi hi 4 = compactEncode_loop hexSlice (buf[bi := push_bit 4 ?h]) bi (Suc hi) 0"
    using Suc.prems(3) bi z by (subst compactEncode_loop.simps) simp
  also have "\<dots> = compactEncode_loop hexSlice ?buf (Suc bi) (Suc (Suc hi)) 4"
    using Suc.prems(3) bi by (subst compactEncode_loop.simps) (simp add: nibble_or [OF lt])
  also have "\<dots> = take (Suc bi) ?buf @ decodeCompact (drop (Suc (Suc hi)) hexSlice)"
  proof (rule Suc.IH)
    have "drop (Suc bi) ?buf = drop 1 (drop bi buf)" by simp
    then show "drop (Suc bi) ?buf = replicate r 0" using Suc.prems(2) by simp
  qed (use Suc.prems in auto)
  also have "\<dots> = take bi buf @ decodeCompact (drop hi hexSlice)"
  proof -
    have "drop hi hexSlice = ?h # ?l # drop (Suc (Suc hi)) hexSlice"
      using Suc.prems(3) by (simp add: Cons_nth_drop_Suc)
    moreover have "take (Suc bi) ?buf = take bi buf @ [?h * 16 + ?l]"
      using bi by (simp add: take_Suc_conv_app_nth)
    ultimately show ?thesis by simp
  qed
  finally show ?case .
qed

text \<open>The compact form is the packed form of the key behind one or two flag nibbles.\<close>

definition compact_nibbles :: "bytes \<Rightarrow> bytes" where
  "compact_nibbles k =
    (let t = (if last k = 16 then 2 else 0); h = (if last k = 16 then butlast k else k)
     in if even (length h) then t # 0 # h else (t + 1) # h)"

lemma compactEncode_eq:
  assumes "hex_key k" "k \<noteq> []"
  shows "compactEncode k = Ok (decodeCompact (compact_nibbles k))"
proof -
  define h where "h = (if last k = 16 then butlast k else k)"
  define t where "t = (if last k = 16 then 1 else 0 :: byte)"
  have lt: "list_all (\<lambda>b. b < 16) h"
    using assms by (auto simp: hex_key_def h_def list_all_length last_conv_nth nth_butlast)
  show ?thesis
  proof (cases "even (length h)")
    case True
    have "compactEncode_loop h ((replicate (length h div 2 + 1) 0)[0 := push_bit 5 t]) 1 0 4
      = [push_bit 5 t] @ decodeCompact h"
      by (subst compactEncode_loop_even [where r = "length h div 2"]) (use True lt in \<open>auto simp: take_Suc\<close>)
    then show ?thesis using assms(2) True
      by (simp add: compactEncode_def h_def [symmetric] t_def [symmetric] Let_def compact_nibbles_def)
         (simp add: t_def)
  next
    case False
    then obtain x h' where h: "h = x # h'" by (cases h) auto
    have x: "x < 16" and lt': "list_all (\<lambda>b. b < 16) h'" using lt h by auto
    let ?b0 = "push_bit 5 t OR push_bit 4 1 :: byte"
    have "compactEncode_loop h ((replicate (length h div 2 + 1) 0)[0 := ?b0]) 0 0 0
      = compactEncode_loop h ((replicate (length h div 2 + 1) 0)[0 := ?b0 OR x]) 1 1 4"
      using h by (subst compactEncode_loop.simps) simp
    also have "\<dots> = [?b0 OR x] @ decodeCompact h'"
      by (subst compactEncode_loop_even [where r = "length h div 2"]) (use False lt h in \<open>auto simp: take_Suc\<close>)
    finally have l: "compactEncode_loop h ((replicate (length h div 2 + 1) 0)[0 := ?b0]) 0 0 0 = [?b0 OR x] @ decodeCompact h'" .
    have "?b0 OR x = (if last k = 16 then 3 else 1) * 16 + x"
      using nibble_or [of 3 x] nibble_or [of 1 x] x by (simp add: t_def)
    moreover have "length h mod 2 = 1" using False by presburger
    ultimately show ?thesis using assms(2) l h False
      by (auto simp: compactEncode_def h_def [symmetric] t_def [symmetric] Let_def compact_nibbles_def)
  qed
qed

lemma compactDecode_nibbles:
  assumes "list_all (\<lambda>b. b < 16) (f # ns)" "even (length (f # ns))"
  shows "compactDecode (decodeCompact (f # ns)) =
    Ok ((if f mod 2 = 1 then ns else tl ns) @ (if f \<ge> 2 then [16] else []))"
proof -
  have n: "nibbles (decodeCompact (f # ns)) = f # ns" using nibbles_decodeCompact [OF assms] .
  have "ns \<noteq> []" using assms(2) by auto
  then obtain n0 ns' where ns: "ns = n0 # ns'" by (cases ns) auto
  have "butlast (compactHexDecode (decodeCompact (f # ns))) = f # ns"
    unfolding compactHexDecode_def n by simp
  then show ?thesis
    unfolding compactDecode_def by (simp add: Let_def slice_def ns)
qed

lemma compact_roundtrip:
  assumes "hex_key k" "k \<noteq> []"
  shows "\<exists>c. compactEncode k = Ok c \<and> compactDecode c = Ok k \<and> length c = length (if last k = 16 then butlast k else k) div 2 + 1"
proof -
  define h where "h = (if last k = 16 then butlast k else k)"
  have lt: "list_all (\<lambda>b. b < 16) h"
    using assms by (auto simp: hex_key_def h_def list_all_length last_conv_nth nth_butlast)
  have k: "k = h @ (if last k = 16 then [16] else [])"
    using append_butlast_last_id [OF assms(2)] by (cases "last k = 16") (simp_all add: h_def)
  have len: "length (decodeCompact ns) = length ns div 2" for ns
    by (induction ns rule: decodeCompact.induct) auto
  let ?t = "if last k = 16 then 2 else 0 :: byte"
  have cn: "compact_nibbles k = (if even (length h) then ?t # 0 # h else (?t + 1) # h)"
    by (simp add: compact_nibbles_def h_def Let_def)
  have "compactDecode (decodeCompact (compact_nibbles k)) = Ok k"
  proof (cases "even (length h)")
    case True
    then show ?thesis unfolding cn using compactDecode_nibbles [of ?t "0 # h"] lt k by (auto split: if_splits)
  next
    case False
    then show ?thesis unfolding cn using compactDecode_nibbles [of "?t + 1" h] lt k
      by (auto simp: word_le_nat_alt split: if_splits)
  qed
  moreover have "length (decodeCompact (compact_nibbles k)) = length h div 2 + 1" unfolding len cn by auto
  ultimately show ?thesis using compactEncode_eq [OF assms] unfolding h_def by blast
qed

text \<open>C10. Hex keys survive their compact form: encoding any non-empty key of nibbles, with or
  without terminator and of even or odd length, does not panic, and decoding gives the key back.
  The compact form packs two nibbles per byte.\<close>

theorem compact_key_roundtrip:
  assumes "hex_key k" "k \<noteq> []"
  shows "\<exists>c. compactEncode k = (Ok c :: (rlp_error, bytes) result) \<and> compactDecode c = (Ok k :: (rlp_error, bytes) result) \<and>
    length c \<le> length k div 2 + 1"
proof -
  obtain c where c: "compactEncode k = (Ok c :: (rlp_error, bytes) result)"
    using compactEncode_eq [OF assms] by blast
  obtain c' where c': "compactEncode k = (Ok c' :: (rlp_error, bytes) result)" "compactDecode c' = (Ok k :: (rlp_error, bytes) result)"
    "length c' = length (if last k = 16 then butlast k else k) div 2 + 1"
    using compact_roundtrip [OF assms] by blast
  moreover have "length (if last k = 16 then butlast k else k) div 2 \<le> length k div 2"
    by (intro div_le_mono) simp
  ultimately show ?thesis by auto
qed

theorem compact_key_roundtrip_witness:
  "\<exists>c. compactEncode [1, 2, 3, 16] = (Ok c :: (rlp_error, bytes) result) \<and>
    compactDecode c = (Ok [1, 2, 3, 16] :: (rlp_error, bytes) result)"
  using compact_key_roundtrip [of "[1, 2, 3, 16]"] by (auto simp: hex_key_def)

end
