(* ===== verification/Trie_Core.thy ===== *)
theory Trie_Core
  imports Trie_Encoding
begin

text \<open>
  The Merkle Patricia trie of \<open>trie/trie.go\<close> as a data structure: its nodes, \<open>Get\<close>, \<open>insert\<close> and
  \<open>delete\<close>. Nodes that are not loaded are hash nodes; what a hash resolves to is a parameter
  \<open>rs\<close> here (\<open>resolveHash\<close> is modelled in \<open>Trie_Node\<close>). Resolving need not make progress, so the
  recursions take fuel.
\<close>

section \<open>Definitions\<close>

datatype node =
    nilNode
  | fullNode "node list"
  | shortNode bytes node
  | hashNode bytes
  | valueNode bytes

type_synonym 'e resolver = "bytes \<Rightarrow> ('e, node) result"

definition child :: "node list \<Rightarrow> byte \<Rightarrow> ('e, node) result" where
  "child cs i = index cs (unat i)"

definition set_child :: "node list \<Rightarrow> byte \<Rightarrow> node \<Rightarrow> ('e, node list) result" where
  "set_child cs i n = (if unat i < length cs then Ok (cs[unat i := n]) else Panic IndexOutOfRange)"

definition resolve :: "'e resolver \<Rightarrow> node \<Rightarrow> ('e, node) result" where
  "resolve rs n = (case n of hashNode h \<Rightarrow> rs h | _ \<Rightarrow> Ok n)"

text \<open>The loop of \<open>Get\<close>. The result is \<open>None\<close> where Go returns nil.\<close>

fun get_loop :: "'e resolver \<Rightarrow> nat \<Rightarrow> node \<Rightarrow> bytes \<Rightarrow> ('e, bytes option) result option" where
  "get_loop rs 0 tn key = None"
| "get_loop rs (Suc f) tn key =
    (if key = [] then
       (case tn of valueNode v \<Rightarrow> Some (Ok (Some v)) | _ \<Rightarrow> Some (Panic TypeAssertion))
     else
       case tn of
         shortNode k v \<Rightarrow>
           if length key < length k \<or> k \<noteq> take (length k) key then Some (Ok None)
           else get_loop rs f v (drop (length k) key)
       | fullNode cs \<Rightarrow> fbind (Some (child cs (hd key))) (\<lambda>c. get_loop rs f c (tl key))
       | nilNode \<Rightarrow> Some (Ok None)
       | hashNode h \<Rightarrow> fbind (Some (rs h)) (\<lambda>n. get_loop rs f n key)
       | valueNode _ \<Rightarrow> Some (Panic (ExplicitPanic ''invalid node'')))"

fun trie_insert :: "'e resolver \<Rightarrow> nat \<Rightarrow> node \<Rightarrow> bytes \<Rightarrow> node \<Rightarrow> ('e, node) result option" where
  "trie_insert rs 0 n key val = None"
| "trie_insert rs (Suc f) n key val =
    (if key = [] then Some (Ok val)
     else
       case n of
         shortNode k v \<Rightarrow>
           let matchlen = prefixLen key k in
           if matchlen = length k then
             fbind (trie_insert rs f v (drop matchlen key) val) (\<lambda>n'. Some (Ok (shortNode k n')))
           else
             fbind (trie_insert rs f nilNode (drop (matchlen + 1) k) v) (\<lambda>a.
             fbind (Some (set_child (replicate 17 nilNode) (k ! matchlen) a)) (\<lambda>branch1.
             fbind (Some (index key matchlen)) (\<lambda>b.
             fbind (trie_insert rs f nilNode (drop (matchlen + 1) key) val) (\<lambda>c.
             fbind (Some (set_child branch1 b c)) (\<lambda>branch.
             if matchlen = 0 then Some (Ok (fullNode branch))
             else Some (Ok (shortNode (take matchlen key) (fullNode branch))))))))
       | fullNode cs \<Rightarrow>
           fbind (Some (child cs (hd key))) (\<lambda>c.
           fbind (trie_insert rs f c (tl key) val) (\<lambda>c'.
           fbind (Some (set_child cs (hd key) c')) (\<lambda>cs'. Some (Ok (fullNode cs')))))
       | nilNode \<Rightarrow> Some (Ok (shortNode key val))
       | hashNode h \<Rightarrow> fbind (Some (rs h)) (\<lambda>n'. trie_insert rs f n' key val)
       | valueNode _ \<Rightarrow> Some (Panic (ExplicitPanic ''invalid node'')))"

text \<open>The loop of \<open>delete\<close> that looks for the only child left: its index, \<open>-1\<close> for no child and
  \<open>-2\<close> for at least two.\<close>

fun pos_loop :: "nat \<Rightarrow> node list \<Rightarrow> int \<Rightarrow> int" where
  "pos_loop i [] pos = pos"
| "pos_loop i (cld # cs) pos =
    (if cld \<noteq> nilNode then (if pos = -1 then pos_loop (i + 1) cs (int i) else -2)
     else pos_loop (i + 1) cs pos)"

definition reduce_full :: "'e resolver \<Rightarrow> node list \<Rightarrow> ('e, node) result" where
  "reduce_full rs cs =
    (let pos = pos_loop 0 cs (-1) in
     if pos \<ge> 0 then
       let c = cs ! nat pos in
       if pos \<noteq> 16 then
         bind_result (resolve rs c) (\<lambda>cnode.
           case cnode of
             shortNode k v \<Rightarrow> Ok (shortNode (of_int pos # k) v)
           | _ \<Rightarrow> Ok (shortNode [of_int pos] c))
       else Ok (shortNode [of_int pos] c)
     else Ok (fullNode cs))"

fun trie_delete :: "'e resolver \<Rightarrow> nat \<Rightarrow> node \<Rightarrow> bytes \<Rightarrow> ('e, node) result option" where
  "trie_delete rs 0 n key = None"
| "trie_delete rs (Suc f) n key =
    (case n of
       shortNode k v \<Rightarrow>
         let matchlen = prefixLen key k in
         if matchlen < length k then Some (Ok n)
         else if matchlen = length key then Some (Ok nilNode)
         else
           fbind (trie_delete rs f v (drop (length k) key)) (\<lambda>c.
             case c of
               shortNode ck cv \<Rightarrow> Some (Ok (shortNode (k @ ck) cv))
             | _ \<Rightarrow> Some (Ok (shortNode k c)))
     | fullNode cs \<Rightarrow>
         fbind (Some (index key 0)) (\<lambda>b.
         fbind (Some (child cs b)) (\<lambda>c.
         fbind (trie_delete rs f c (drop 1 key)) (\<lambda>c'.
         fbind (Some (set_child cs b c')) (\<lambda>cs'.
         Some (reduce_full rs cs')))))
     | nilNode \<Rightarrow> Some (Ok nilNode)
     | hashNode h \<Rightarrow> fbind (Some (rs h)) (\<lambda>n'. trie_delete rs f n' key)
     | valueNode _ \<Rightarrow> Some (Panic (ExplicitPanic ''invalid node'')))"

section \<open>Contents and well-formedness\<close>

text \<open>\<open>has rs n k v\<close>: the subtrie \<open>n\<close> stores \<open>v\<close> under the hex key \<open>k\<close>.\<close>

inductive has :: "'e resolver \<Rightarrow> node \<Rightarrow> bytes \<Rightarrow> bytes \<Rightarrow> bool" for rs where
  has_value: "has rs (valueNode v) [] v"
| has_short: "has rs n k' v \<Longrightarrow> has rs (shortNode k n) (k @ k') v"
| has_full: "unat i < length cs \<Longrightarrow> has rs (cs ! unat i) k' v \<Longrightarrow> has rs (fullNode cs) (i # k') v"
| has_hash: "rs h = Ok n \<Longrightarrow> has rs n k v \<Longrightarrow> has rs (hashNode h) k v"

inductive_simps has_simps [simp]:
  "has rs nilNode k v" "has rs (valueNode w) k v" "has rs (shortNode k' n) k v"
  "has rs (fullNode cs) k v" "has rs (hashNode h) k v"

definition hexterm :: "bytes \<Rightarrow> bool" where
  "hexterm k \<longleftrightarrow> k \<noteq> [] \<and> last k = 16 \<and> list_all (\<lambda>b. b < 16) (butlast k)"

fun is_full :: "node \<Rightarrow> bool" where
  "is_full (fullNode cs) = True"
| "is_full _ = False"

fun is_hash :: "node \<Rightarrow> bool" where
  "is_hash (hashNode cs) = True"
| "is_hash _ = False"

text \<open>
  \<open>twf rs m n\<close>: \<open>n\<close> is a minimal subtrie whose keys all have \<open>m\<close> digits, terminator included: leaves
  carry the rest of the key, extensions lead to a branch, branches have at least two children,
  and hash nodes resolve to such a node.
\<close>

inductive twf :: "'e resolver \<Rightarrow> nat \<Rightarrow> node \<Rightarrow> bool" for rs where
  leaf: "length k = m \<Longrightarrow> hexterm k \<Longrightarrow> v \<noteq> [] \<Longrightarrow> twf rs m (shortNode k (valueNode v))"
| ext: "k \<noteq> [] \<Longrightarrow> list_all (\<lambda>b. b < 16) k \<Longrightarrow> twf rs m n \<Longrightarrow> resolve rs n = Ok n' \<Longrightarrow> is_full n' \<Longrightarrow>
    twf rs (length k + m) (shortNode k n)"
| full: "length cs = 17 \<Longrightarrow> cs ! 16 = nilNode \<Longrightarrow>
    (\<And>i. i < 16 \<Longrightarrow> cs ! i = nilNode \<or> twf rs m (cs ! i)) \<Longrightarrow>
    i < j \<Longrightarrow> j < 16 \<Longrightarrow> cs ! i \<noteq> nilNode \<Longrightarrow> cs ! j \<noteq> nilNode \<Longrightarrow> twf rs (Suc m) (fullNode cs)"
| hash: "rs h = Ok n \<Longrightarrow> twf rs m n \<Longrightarrow> \<not> is_hash n \<Longrightarrow> twf rs m (hashNode h)"

inductive_cases twf_shortE: "twf rs m (shortNode k n)"
inductive_cases twf_fullE: "twf rs m (fullNode cs)"
inductive_cases twf_hashE: "twf rs m (hashNode h)"

declare trie_insert.simps(2) [simp del] trie_delete.simps(2) [simp del] get_loop.simps(2) [simp del]

lemma child_Ok [simp]: "unat i < length cs \<Longrightarrow> child cs i = Ok (cs ! unat i)"
  by (simp add: child_def)

lemma set_child_Ok [simp]: "unat i < length cs \<Longrightarrow> set_child cs i n = Ok (cs[unat i := n])"
  by (simp add: set_child_def)

definition fuel_for :: "nat \<Rightarrow> node \<Rightarrow> nat" where
  "fuel_for m n = 2 * m + (if is_hash n then 2 else 1)"

lemma fuel_for_le: "fuel_for m n \<le> 2 * m + 2"
  by (simp add: fuel_for_def)

lemma twf_pos: "twf rs m n \<Longrightarrow> 1 \<le> m"
  by (induction rule: twf.induct) (auto simp: hexterm_def Suc_le_eq)

lemma twf_not_nil [simp]: "\<not> twf rs m nilNode"
  by (auto elim: twf.cases)

lemma twf_not_value [simp]: "\<not> twf rs m (valueNode v)"
  by (auto elim: twf.cases)

lemma hexterm_Cons:
  assumes "hexterm (a # k)" "k \<noteq> []"
  shows "a < 16" "hexterm k"
  using assms by (auto simp: hexterm_def)

lemma hexterm_drop:
  assumes "hexterm key" "n < length key"
  shows "hexterm (drop n key)"
  using assms by (auto simp: hexterm_def butlast_drop list_all_iff dest: in_set_dropD)

lemma hexterm_nth:
  assumes "hexterm key" "Suc n < length key"
  shows "key ! n < 16"
  using assms by (auto simp: hexterm_def list_all_length nth_butlast)

lemma hexterm_take:
  assumes "hexterm key" "n < length key"
  shows "list_all (\<lambda>b. b < 16) (take n key)"
  using hexterm_nth [OF assms(1)] assms(2) by (auto simp: list_all_length)

lemma hexterm_append: "list_all (\<lambda>b. b < 16) a \<Longrightarrow> hexterm b \<Longrightarrow> hexterm (a @ b)"
  by (auto simp: hexterm_def butlast_append)

lemma unat_less_16: "(b :: byte) < 16 \<longleftrightarrow> unat b < 16"
  by (simp add: word_less_nat_alt)

lemma has_length: "twf rs m n \<Longrightarrow> has rs n k v \<Longrightarrow> length k = m \<and> hexterm k \<and> v \<noteq> []"
proof (induction arbitrary: k v rule: twf.induct)
  case (ext k' m n n')
  then show ?case by (auto intro: hexterm_append)
next
  case (full cs m i j)
  from full.prems obtain a k' where k: "k = a # k'" "unat a < 17" "has rs (cs ! unat a) k' v"
    using full.hyps(1) by auto
  then have "unat a < 16" using full.hyps(2) by (cases "unat a = 16") auto
  with full.IH [of "unat a"] k have "length k' = m \<and> hexterm k' \<and> v \<noteq> []" by auto
  then show ?case using k \<open>unat a < 16\<close> by (auto simp: hexterm_def unat_less_16)
qed auto

lemma has_unique: "has rs n k v \<Longrightarrow> has rs n k w \<Longrightarrow> v = w"
  by (induction arbitrary: w rule: has.induct) auto

section \<open>Get\<close>

lemma get_loop_correct:
  "twf rs m n \<Longrightarrow> length key = m \<Longrightarrow> hexterm key \<Longrightarrow> fuel_for m n \<le> f \<Longrightarrow>
    \<exists>r. get_loop rs f n key = Some (Ok r) \<and> (\<forall>v. r = Some v \<longleftrightarrow> has rs n key v)"
proof (induction arbitrary: f key rule: twf.induct)
  case (leaf k m v)
  then obtain f' where f: "f = Suc (Suc f')" by (cases f; cases "f - 1") (auto simp: fuel_for_def hexterm_def)
  have "key \<noteq> []" using leaf by (auto simp: hexterm_def)
  then show ?case using leaf f by (auto simp: get_loop.simps(2))
next
  case (ext k m n n')
  then obtain f' where f: "f = Suc f'" by (cases f) (auto simp: fuel_for_def)
  have ne: "key \<noteq> []" using ext.prems(2) by (auto simp: hexterm_def)
  show ?case
  proof (cases "take (length k) key = k")
    case True
    then have key: "key = k @ drop (length k) key" by (metis append_take_drop_id)
    have "m \<noteq> 0" using twf_pos [OF ext.hyps(3)] by simp
    then have "hexterm (drop (length k) key)" using ext.prems by (intro hexterm_drop) auto
    moreover have "fuel_for m n \<le> f'" using ext.hyps(1) ext.prems f fuel_for_le [of m n]
      by (cases k) (auto simp: fuel_for_def)
    ultimately obtain r where r: "get_loop rs f' n (drop (length k) key) = Some (Ok r)"
      "\<forall>v. r = Some v \<longleftrightarrow> has rs n (drop (length k) key) v"
      using ext.IH [of "drop (length k) key" f'] ext.prems(1) by auto
    have "has rs (shortNode k n) key v \<longleftrightarrow> has rs n (drop (length k) key) v" for v
      using key by (metis append_same_eq has_simps(3) same_append_eq)
    then show ?thesis using r ne f True ext.prems(1) by (simp add: get_loop.simps(2))
  next
    case False
    then have "\<not> has rs (shortNode k n) key v" for v by auto
    with False ne f show ?thesis by (auto simp: get_loop.simps(2))
  qed
next
  case (full cs m i j)
  then obtain f' where f: "f = Suc f'" by (cases f) (auto simp: fuel_for_def)
  obtain a key' where key: "key = a # key'" "length key' = m" using full.prems(1) by (cases key) auto
  have m: "1 \<le> m" using full.hyps full.IH twf_pos by (metis order_less_trans)
  then have k': "key' \<noteq> []" using key by auto
  have a: "unat a < 16" "hexterm key'" using hexterm_Cons [of a key'] full.prems(2) key k' by (auto simp: unat_less_16)
  have ch: "unat a < length cs" using a full.hyps(1) by simp
  show ?case
  proof (cases "cs ! unat a = nilNode")
    case True
    then have "get_loop rs f key0 key = Some (Ok None)" if "key0 = fullNode cs" for key0
      using that f full.prems(3) m key ch k' by (cases f') (auto simp: get_loop.simps(2) fuel_for_def)
    then show ?thesis using key True by simp
  next
    case False
    with full.IH [of "unat a"] a have "twf rs m (cs ! unat a)" by auto
    moreover have "fuel_for m (cs ! unat a) \<le> f'" using full.prems(3) f fuel_for_le [of m "cs ! unat a"]
      by (simp add: fuel_for_def)
    ultimately obtain r where r: "get_loop rs f' (cs ! unat a) key' = Some (Ok r)"
      "\<forall>v. r = Some v \<longleftrightarrow> has rs (cs ! unat a) key' v"
      using full.IH [of "unat a"] a key False by blast
    then show ?thesis using f key ch a full.hyps(1) by (simp add: get_loop.simps(2))
  qed
next
  case (hash h n m)
  then obtain f' where f: "f = Suc f'" by (cases f) (auto simp: fuel_for_def)
  have "key \<noteq> []" using hash.prems(2) by (auto simp: hexterm_def)
  moreover have "fuel_for m n \<le> f'" using hash f by (simp add: fuel_for_def)
  ultimately show ?case using hash f by (simp add: get_loop.simps(2))
qed

section \<open>Insert\<close>

lemma insert_nil:
  "trie_insert rs (Suc f) nilNode key val = Some (Ok (if key = [] then val else shortNode key val))"
  by (simp add: trie_insert.simps(2))

text \<open>A fresh branch with two children.\<close>

definition branch2 :: "byte \<Rightarrow> node \<Rightarrow> byte \<Rightarrow> node \<Rightarrow> node" where
  "branch2 i a j b = fullNode ((replicate 17 nilNode)[unat i := a, unat j := b])"

lemma branch2_simps [simp]:
  "is_full (branch2 i a j b)" "\<not> is_hash (branch2 i a j b)" "resolve rs (branch2 i a j b) = Ok (branch2 i a j b)"
  unfolding branch2_def resolve_def by (simp_all only: is_full.simps is_hash.simps node.case not_False_eq_True)

lemma branch2_twf:
  assumes "i < 16" "j < 16" "i \<noteq> j" "twf rs m a" "twf rs m b"
  shows "twf rs (Suc m) (branch2 i a j b)"
proof -
  let ?cs = "(replicate 17 nilNode)[unat i := a, unat j := b]"
  have u: "unat i < 16" "unat j < 16" "unat i \<noteq> unat j" using assms(1-3) by (auto simp: unat_less_16 word_unat_eq_iff)
  have nn: "a \<noteq> nilNode" "b \<noteq> nilNode" using assms(4,5) by auto
  show ?thesis unfolding branch2_def
  proof (rule twf.full [where i = "min (unat i) (unat j)" and j = "max (unat i) (unat j)"])
    show "?cs ! k = nilNode \<or> twf rs m (?cs ! k)" if "k < 16" for k
      using that u assms(4,5) by (auto simp: nth_list_update)
    show "?cs ! min (unat i) (unat j) \<noteq> nilNode" "?cs ! max (unat i) (unat j) \<noteq> nilNode"
      using u nn by (auto simp: nth_list_update min_def max_def)
  qed (use u in \<open>auto simp: nth_list_update\<close>)
qed

lemma branch2_has:
  assumes "i < 16" "j < 16" "i \<noteq> j"
  shows "has rs (branch2 i a j b) k v \<longleftrightarrow>
    (\<exists>k'. k = i # k' \<and> has rs a k' v) \<or> (\<exists>k'. k = j # k' \<and> has rs b k' v)"
proof -
  have u: "unat i < 16" "unat j < 16" "unat i \<noteq> unat j" using assms by (auto simp: unat_less_16 word_unat_eq_iff)
  show ?thesis
  proof (cases k)
    case (Cons x k')
    have "has rs (branch2 i a j b) k v \<longleftrightarrow> unat x < 17 \<and> has rs (((replicate 17 nilNode)[unat i := a, unat j := b]) ! unat x) k' v"
      using Cons by (simp add: branch2_def)
    also have "\<dots> \<longleftrightarrow> (x = i \<and> has rs a k' v) \<or> (x = j \<and> has rs b k' v)"
      using u by (auto simp: nth_list_update word_unat_eq_iff)
    finally show ?thesis using Cons by auto
  qed (simp add: branch2_def)
qed

text \<open>Branching out of a short node where the keys differ.\<close>

definition branch_out :: "bytes \<Rightarrow> bytes \<Rightarrow> node \<Rightarrow> bytes \<Rightarrow> node" where
  "branch_out key k old v =
    (let p = prefixLen key k; a = (if drop (p + 1) k = [] then old else shortNode (drop (p + 1) k) old);
         full = branch2 (k ! p) a (key ! p) (shortNode (drop (p + 1) key) (valueNode v))
     in if p = 0 then full else shortNode (take p key) full)"

lemma insert_branch_out:
  assumes "prefixLen key k < length k" "Suc (prefixLen key k) < length key" "k ! prefixLen key k < 16"
    "key ! prefixLen key k < 16"
  shows "trie_insert rs (Suc (Suc f)) (shortNode k old) key (valueNode v) = Some (Ok (branch_out key k old v))"
proof -
  have "key \<noteq> []" using assms(2) by auto
  moreover have "drop (Suc (prefixLen key k)) key \<noteq> []" using assms(2) by simp
  ultimately show ?thesis using assms
    by (subst trie_insert.simps(2))
       (simp add: insert_nil branch_out_def branch2_def Let_def unat_less_16 less_imp_le del: replicate.simps)
qed

lemma ex_append_disj:
  "(\<exists>K'. K = t @ K' \<and> ((\<exists>k'. K' = x # k' \<and> P k') \<or> (K' = X \<and> c))) \<longleftrightarrow>
    (\<exists>K'. K = t @ x # K' \<and> P K') \<or> (K = t @ X \<and> c)"
  by auto

lemma branch_out_correct:
  assumes p: "p = prefixLen key k" "p < length k" "Suc p < length key" "k ! p < 16" "hexterm key"
    and a: "a = (if drop (p + 1) k = [] then old else shortNode (drop (p + 1) k) old)" "twf rs (length key - p - 1) a"
    and v: "v \<noteq> []"
  shows "twf rs (length key) (branch_out key k old v)"
    and "has rs (branch_out key k old v) K w \<longleftrightarrow> (if K = key then w = v else has rs (shortNode k old) K w)"
    and "\<not> is_hash (branch_out key k old v)"
proof -
  have kp: "key ! p < 16" using hexterm_nth [OF p(5,3)] .
  have ne: "key ! p \<noteq> k ! p" using prefixLen_differ [of key k] p(1-3) by auto
  let ?c = "shortNode (drop (p + 1) key) (valueNode v)"
  have c: "twf rs (length key - p - 1) ?c" using p(3,5) v by (intro twf.leaf hexterm_drop) auto
  let ?full = "branch2 (k ! p) a (key ! p) ?c"
  have full: "twf rs (length key - p) ?full"
    using branch2_twf [OF p(4) kp not_sym [OF ne] a(2) c] p(3) by (simp add: Suc_diff_Suc)
  have bo: "branch_out key k old v = (if p = 0 then ?full else shortNode (take p key) ?full)"
    by (simp add: branch_out_def Let_def p(1) a(1))
  show "twf rs (length key) (branch_out key k old v)"
  proof (cases "p = 0")
    case False
    have "twf rs (length (take p key) + (length key - p)) (shortNode (take p key) ?full)"
      using False p(3) full hexterm_take [OF p(5), of p] by (intro twf.ext [where n' = ?full]) auto
    then show ?thesis using False bo p(3) by simp
  next
    case True
    then show ?thesis using full bo by simp
  qed
  show "\<not> is_hash (branch_out key k old v)" by (simp add: bo)
  have hasa: "has rs a K' w \<longleftrightarrow> has rs (shortNode (drop (p + 1) k) old) K' w" for K' w by (simp add: a(1))
  have kk: "k = take p key @ k ! p # drop (p + 1) k"
    using p(2) prefixLen_take [of key k] by (simp add: p(1) id_take_nth_drop)
  have key: "take p key @ key ! p # drop (p + 1) key = key"
    using p(3) id_take_nth_drop [of p key] by simp
  have h1: "has rs (branch_out key k old v) K w \<longleftrightarrow>
      (\<exists>K'. K = take p key @ k ! p # K' \<and> has rs a K' w) \<or> (K = key \<and> w = v)"
  proof -
    have "has rs ?full K' w \<longleftrightarrow> (\<exists>k'. K' = k ! p # k' \<and> has rs a k' w) \<or> (K' = key ! p # drop (p + 1) key \<and> w = v)" for K'
      unfolding branch2_has [OF p(4) kp not_sym [OF ne]] by auto
    moreover have "has rs (branch_out key k old v) K w \<longleftrightarrow> (\<exists>K'. K = take p key @ K' \<and> has rs ?full K' w)"
      by (simp add: bo)
    ultimately show ?thesis by (simp only: ex_append_disj key)
  qed
  have h2: "(\<exists>K'. K = take p key @ k ! p # K' \<and> has rs a K' w) \<longleftrightarrow> has rs (shortNode k old) K w"
  proof -
    have "has rs (shortNode k old) K w \<longleftrightarrow> (\<exists>K'. K = (take p key @ k ! p # drop (p + 1) k) @ K' \<and> has rs old K' w)"
      by (subst (1) kk) simp
    then show ?thesis by (auto simp: hasa)
  qed
  have "\<nexists>K'. key = k @ K'"
  proof
    assume "\<exists>K'. key = k @ K'"
    then show False using p(1,2) prefixLen_prefix by auto
  qed
  then have h3: "\<not> has rs (shortNode k old) key w" by simp
  show "has rs (branch_out key k old v) K w \<longleftrightarrow> (if K = key then w = v else has rs (shortNode k old) K w)"
    unfolding h1 h2 using h3 by (cases "K = key") (simp_all only: if_True if_False simp_thms)
qed

lemma twf_full_update:
  assumes "twf rs (Suc m) (fullNode cs)" "a < 16" "twf rs m c"
  shows "twf rs (Suc m) (fullNode (cs[a := c]))"
  using assms(1)
proof (rule twf_fullE)
  fix i j m'
  assume h: "Suc m = Suc m'" "length cs = 17" "cs ! 16 = nilNode"
    "\<And>i. i < 16 \<Longrightarrow> cs ! i = nilNode \<or> twf rs m' (cs ! i)" "i < j" "j < 16" "cs ! i \<noteq> nilNode" "cs ! j \<noteq> nilNode"
  show ?thesis
  proof (rule twf.full [where i = i and j = j])
    show "cs[a := c] ! k = nilNode \<or> twf rs m (cs[a := c] ! k)" if "k < 16" for k
      using that h(1,2) h(4) [OF that] assms(3) by (cases "k = a") auto
    show "cs[a := c] ! i \<noteq> nilNode" "cs[a := c] ! j \<noteq> nilNode"
      using h assms(3) by (cases "i = a"; cases "j = a"; auto)+
  qed (use h assms(2) in \<open>auto simp: nth_list_update\<close>)
qed

lemma has_full_update:
  assumes "unat a < length cs"
  shows "has rs (fullNode (cs[unat a := c])) k w \<longleftrightarrow>
    (if k \<noteq> [] \<and> hd k = a then has rs c (tl k) w else has rs (fullNode cs) k w)"
proof (cases k)
  case (Cons x k')
  have u: "unat x = unat a \<longleftrightarrow> x = a" by (simp add: word_unat_eq_iff)
  have "has rs (fullNode ds) k w \<longleftrightarrow> unat x < length ds \<and> has rs (ds ! unat x) k' w" for ds using Cons by simp
  then show ?thesis using assms Cons u by (cases "x = a") (simp_all del: has_simps)
qed simp

lemma twf_fullD:
  assumes "twf rs m (fullNode cs)"
  shows "length cs = 17" "\<exists>m'. m = Suc m' \<and> 1 \<le> m' \<and> (\<forall>i<16. cs ! i = nilNode \<or> twf rs m' (cs ! i))" "cs ! 16 = nilNode"
  using assms by (auto elim!: twf_fullE) (metis One_nat_def order_less_trans twf_pos)

text \<open>Two terminated keys of the same length differ before the terminator.\<close>

lemma hexterm_differ:
  assumes "hexterm a" "hexterm b" "length a = length b" "prefixLen a b < length b"
  shows "Suc (prefixLen a b) < length b"
proof (rule ccontr)
  assume "\<not> ?thesis"
  then have p: "prefixLen a b = length b - 1" using assms(4) by simp
  have "a ! (length b - 1) = b ! (length b - 1)"
    using assms(1-3) by (metis hexterm_def last_conv_nth)
  then show False using prefixLen_differ [of a b] assms(3,4) p by simp
qed

definition insert_post :: "'e resolver \<Rightarrow> nat \<Rightarrow> node \<Rightarrow> bytes \<Rightarrow> bytes \<Rightarrow> node \<Rightarrow> bool" where
  "insert_post rs m n key v n' \<longleftrightarrow> twf rs m n' \<and> \<not> is_hash n' \<and>
    ((\<exists>cs. resolve rs n = Ok (fullNode cs)) \<longrightarrow> is_full n') \<and>
    (\<forall>k w. has rs n' k w \<longleftrightarrow> (if k = key then w = v else has rs n k w))"

lemma insert_correct_nil:
  assumes "hexterm key" "v \<noteq> []" "f > 0"
  shows "\<exists>n'. trie_insert rs f nilNode key (valueNode v) = Some (Ok n') \<and> insert_post rs (length key) nilNode key v n'"
proof -
  have "key \<noteq> []" using assms(1) by (auto simp: hexterm_def)
  then show ?thesis using assms twf.leaf [of key "length key" v rs]
    by (cases f) (auto simp: insert_nil insert_post_def resolve_def)
qed

lemma insert_correct_short:
  assumes "prefixLen key k < length k" "Suc (prefixLen key k) < length key" "k ! prefixLen key k < 16" "hexterm key"
    "drop (prefixLen key k + 1) k = [] \<Longrightarrow> twf rs (length key - prefixLen key k - 1) old"
    "drop (prefixLen key k + 1) k \<noteq> [] \<Longrightarrow>
      twf rs (length key - prefixLen key k - 1) (shortNode (drop (prefixLen key k + 1) k) old)"
    "v \<noteq> []"
  shows "\<exists>n'. trie_insert rs (Suc (Suc f)) (shortNode k old) key (valueNode v) = Some (Ok n') \<and>
    insert_post rs (length key) (shortNode k old) key v n'"
proof -
  define a where "a = (if drop (prefixLen key k + 1) k = [] then old else shortNode (drop (prefixLen key k + 1) k) old)"
  have "twf rs (length key - prefixLen key k - 1) a" using assms(5,6) unfolding a_def by (rule if_split [THEN iffD2, OF conjI, OF impI impI])
  note bo = branch_out_correct [OF refl assms(1,2,3,4) a_def this assms(7)]
  have "insert_post rs (length key) (shortNode k old) key v (branch_out key k old v)"
    unfolding insert_post_def using bo(1,3) by (simp only: bo(2)) (simp add: resolve_def)
  then show ?thesis using insert_branch_out [OF assms(1-3)] hexterm_nth [OF assms(4,2)] by blast
qed

lemma insert_correct_leaf:
  assumes hyps: "length k = m" "hexterm k" "v0 \<noteq> []"
    and prems: "length key = m" "hexterm key" "v \<noteq> []" "fuel_for (m) (shortNode k (valueNode v0)) \<le> f"
  shows "\<exists>n'. trie_insert rs f (shortNode k (valueNode v0)) key (valueNode v) = Some (Ok n') \<and> insert_post rs (m) (shortNode k (valueNode v0)) key v n'"
proof -
  have ne: "key \<noteq> []" using prems(2) by (auto simp: hexterm_def)
  then obtain f' where f: "f = Suc (Suc f')" using prems
    by (cases f; cases "f - 1") (auto simp: fuel_for_def)
  show ?thesis
  proof (cases "prefixLen key k = length k")
    case True
    then have "key = k" using prefixLen_take [of key k] hyps prems(1) by simp
    then have "trie_insert rs f (shortNode k (valueNode v0)) key (valueNode v) = Some (Ok (shortNode k (valueNode v)))"
      using True f ne by (simp add: trie_insert.simps(2))
    moreover have "insert_post rs m (shortNode k (valueNode v0)) key v (shortNode k (valueNode v))"
      using \<open>key = k\<close> hyps prems twf.leaf [of k m v rs] by (auto simp: insert_post_def resolve_def)
    ultimately show ?thesis by blast
  next
    case False
    then have p: "prefixLen key k < length k" using prefixLen_le(2) [of key k] by simp
    then have p': "Suc (prefixLen key k) < length k"
      using hexterm_differ [OF prems(2) hyps(2)] hyps prems by simp
    show ?thesis unfolding f prems(1) [symmetric]
    proof (rule insert_correct_short)
      show "twf rs (length key - prefixLen key k - 1) (shortNode (drop (prefixLen key k + 1) k) (valueNode v0))"
        using hyps prems p' by (intro twf.leaf hexterm_drop) auto
    qed (use p p' hyps prems hexterm_nth [OF hyps(2) p'] in auto)
  qed
qed

lemma insert_correct_ext:
  assumes hyps: "k \<noteq> []" "list_all (\<lambda>b. b < 16) k" "twf rs m n" "resolve rs n = Ok n'" "is_full n'"
    and IH: "\<And>key f. length key = m \<Longrightarrow> hexterm key \<Longrightarrow> v \<noteq> [] \<Longrightarrow> fuel_for m n \<le> f \<Longrightarrow>
      \<exists>n'. trie_insert rs f n key (valueNode v) = Some (Ok n') \<and> insert_post rs m n key v n'"
    and prems: "length key = length k + m" "hexterm key" "v \<noteq> []" "fuel_for (length k + m) (shortNode k n) \<le> f"
  shows "\<exists>n'. trie_insert rs f (shortNode k n) key (valueNode v) = Some (Ok n') \<and> insert_post rs (length k + m) (shortNode k n) key v n'"
proof -
  have ne: "key \<noteq> []" using prems(2) by (auto simp: hexterm_def)
  have m: "1 \<le> m" using twf_pos [OF hyps(3)] by simp
  have k1: "1 \<le> length k" using hyps(1) by (cases k) auto
  obtain f' where f: "f = Suc (Suc f')" using prems(4) m by (cases f; cases "f - 1") (auto simp: fuel_for_def)
  show ?thesis
  proof (cases "prefixLen key k = length k")
    case True
    have tk: "take (length k) key = k" using prefixLen_take [of key k] True by simp
    then have key: "key = k @ drop (length k) key" by (metis append_take_drop_id)
    have "hexterm (drop (length k) key)" using m prems by (intro hexterm_drop) auto
    moreover have "fuel_for m n \<le> Suc f'" using k1 prems(4) f fuel_for_le [of m n] by (simp add: fuel_for_def)
    ultimately obtain c where c: "trie_insert rs (Suc f') n (drop (length k) key) (valueNode v) = Some (Ok c)"
      "insert_post rs m n (drop (length k) key) v c"
      using IH [of "drop (length k) key" "Suc f'"] prems(1,3) by auto
    have post: "twf rs m c" "is_full c" "\<And>k' w. has rs c k' w \<longleftrightarrow> (if k' = drop (length k) key then w = v else has rs n k' w)"
      using c(2) hyps(4,5) unfolding insert_post_def by (cases n'; auto)+
    have "twf rs (length k + m) (shortNode k c)"
      using hyps(1,2) post(1,2) by (intro twf.ext [where n' = c]) (cases c; auto simp: resolve_def)+
    moreover have "has rs (shortNode k c) k' w \<longleftrightarrow> (if k' = key then w = v else has rs (shortNode k n) k' w)" for k' w
    proof -
      have "k @ r = key \<longleftrightarrow> r = drop (length k) key" for r using key by (metis same_append_eq)
      then show ?thesis using key by (auto simp: post(3))
    qed
    ultimately have "insert_post rs (length k + m) (shortNode k n) key v (shortNode k c)"
      unfolding insert_post_def by (simp add: resolve_def)
    then show ?thesis using c(1) True ne f by (simp add: trie_insert.simps(2))
  next
    case False
    then have p: "prefixLen key k < length k" using prefixLen_le(2) [of key k] by simp
    show ?thesis unfolding f prems(1) [symmetric]
    proof (rule insert_correct_short)
      show "twf rs (length key - prefixLen key k - 1) n" if "drop (prefixLen key k + 1) k = []"
      proof -
        have "length key - prefixLen key k - 1 = m" using that p prems(1) by simp
        then show ?thesis using hyps(3) by simp
      qed
      show "twf rs (length key - prefixLen key k - 1) (shortNode (drop (prefixLen key k + 1) k) n)"
        if "drop (prefixLen key k + 1) k \<noteq> []"
      proof -
        have "length key - prefixLen key k - 1 = length (drop (prefixLen key k + 1) k) + m" using that p prems(1) by simp
        moreover have "list_all (\<lambda>b. b < 16) (drop (prefixLen key k + 1) k)"
          using hyps(2) by (auto simp: list_all_iff dest: in_set_dropD)
        ultimately show ?thesis using hyps that by (metis twf.ext)
      qed
    qed (use p m hyps(2) prems in \<open>auto simp: list_all_length\<close>)
  qed
qed

lemma insert_correct_full:
  assumes tw: "twf rs (Suc m) (fullNode cs)"
    and IH: "\<And>i key f. i < 16 \<Longrightarrow> twf rs m (cs ! i) \<Longrightarrow> length key = m \<Longrightarrow> hexterm key \<Longrightarrow> v \<noteq> [] \<Longrightarrow>
      fuel_for m (cs ! i) \<le> f \<Longrightarrow>
      \<exists>n'. trie_insert rs f (cs ! i) key (valueNode v) = Some (Ok n') \<and> insert_post rs m (cs ! i) key v n'"
    and prems: "length key = Suc m" "hexterm key" "v \<noteq> []" "fuel_for (Suc m) (fullNode cs) \<le> f"
  shows "\<exists>n'. trie_insert rs f (fullNode cs) key (valueNode v) = Some (Ok n') \<and> insert_post rs (Suc m) (fullNode cs) key v n'"
proof -
  have m: "1 \<le> m" using twf_fullD(2) [OF tw] by auto
  obtain f' where f: "f = Suc f'" using prems(4) by (cases f) (auto simp: fuel_for_def)
  obtain a key' where key: "key = a # key'" "length key' = m" using prems(1) by (cases key) auto
  then have k': "key' \<noteq> []" using m by auto
  have a: "unat a < 16" "hexterm key'" using hexterm_Cons [of a key'] prems(2) key k' by (auto simp: unat_less_16)
  have ch: "unat a < length cs" using a twf_fullD(1) [OF tw] by simp
  have "\<exists>c. trie_insert rs f' (cs ! unat a) key' (valueNode v) = Some (Ok c) \<and> insert_post rs m (cs ! unat a) key' v c"
  proof (cases "cs ! unat a = nilNode")
    case True
    then show ?thesis using insert_correct_nil [OF a(2) prems(3), of f' rs] prems(4) f m key
      by (auto simp: fuel_for_def)
  next
    case False
    have "fuel_for m (cs ! unat a) \<le> f'" using prems(4) f fuel_for_le [of m "cs ! unat a"] by (simp add: fuel_for_def)
    then show ?thesis using IH [OF a(1)] twf_fullD(2) [OF tw] False key a prems(3) by auto
  qed
  then obtain c where c: "trie_insert rs f' (cs ! unat a) key' (valueNode v) = Some (Ok c)"
    "insert_post rs m (cs ! unat a) key' v c" by blast
  have tc: "twf rs (Suc m) (fullNode (cs[unat a := c]))"
    using twf_full_update [OF tw a(1)] c(2) by (simp add: insert_post_def)
  have "has rs (fullNode (cs[unat a := c])) k w \<longleftrightarrow> (if k = key then w = v else has rs (fullNode cs) k w)" for k w
  proof (cases k)
    case (Cons x k2)
    have "has rs (fullNode cs) (a # k2) w \<longleftrightarrow> has rs (cs ! unat a) k2 w" using ch by simp
    then show ?thesis using c(2) key(1) Cons unfolding has_full_update [OF ch] insert_post_def
      by (cases "x = a") (simp_all del: has_simps)
  qed (use key(1) in simp)
  then have "insert_post rs (Suc m) (fullNode cs) key v (fullNode (cs[unat a := c]))"
    unfolding insert_post_def using tc by (simp del: has_simps)
  then show ?thesis using c(1) f key ch by (simp add: trie_insert.simps(2))
qed

lemma insert_correct:
  "twf rs m n \<Longrightarrow> length key = m \<Longrightarrow> hexterm key \<Longrightarrow> v \<noteq> [] \<Longrightarrow> fuel_for m n \<le> f \<Longrightarrow>
    \<exists>n'. trie_insert rs f n key (valueNode v) = Some (Ok n') \<and> insert_post rs m n key v n'"
proof (induction arbitrary: f key rule: twf.induct)
  case (leaf k m v0)
  then show ?case by (rule insert_correct_leaf)
next
  case (ext k m n n')
  show ?case by (rule insert_correct_ext [OF ext.hyps ext.IH ext.prems])
next
  case (full cs m i j)
  have "twf rs (Suc m) (fullNode cs)" using full.IH by (intro twf.full [OF full.hyps(1,2) _ full.hyps(3-6)]) auto
  then show ?case
  proof (rule insert_correct_full [OF _ _ full.prems])
    show "\<exists>n'. trie_insert rs f (cs ! i) key (valueNode v) = Some (Ok n') \<and> insert_post rs m (cs ! i) key v n'"
      if "i < 16" "twf rs m (cs ! i)" "length key = m" "hexterm key" "v \<noteq> []" "fuel_for m (cs ! i) \<le> f" for i key f
      using full.IH [OF that(1)] that(2-6) by (cases "cs ! i = nilNode") auto
  qed
next
  case (hash h n m)
  then obtain f' where f: "f = Suc f'" by (cases f) (auto simp: fuel_for_def)
  have ne: "key \<noteq> []" using hash.prems(2) by (auto simp: hexterm_def)
  have "fuel_for m n \<le> f'" using hash f by (simp add: fuel_for_def)
  then obtain n' where "trie_insert rs f' n key (valueNode v) = Some (Ok n')" "insert_post rs m n key v n'"
    using hash.IH hash.prems by blast
  moreover have "resolve rs n = Ok n" using hash.hyps(3) by (cases n) (auto simp: resolve_def)
  ultimately show ?case using ne f hash.hyps(1) by (auto simp: trie_insert.simps(2) insert_post_def resolve_def)
qed

section \<open>Delete\<close>

lemma pos_loop_nil: "\<forall>c\<in>set cs. c = nilNode \<Longrightarrow> pos_loop i cs p = p"
  by (induction cs arbitrary: i) auto

lemma pos_loop_more: "c \<in> set cs \<Longrightarrow> c \<noteq> nilNode \<Longrightarrow> p \<ge> 0 \<Longrightarrow> pos_loop i cs p = -2"
  by (induction cs arbitrary: i) auto

lemma pos_loop_one:
  "j < length cs \<Longrightarrow> cs ! j \<noteq> nilNode \<Longrightarrow> (\<And>k. k < length cs \<Longrightarrow> k \<noteq> j \<Longrightarrow> cs ! k = nilNode) \<Longrightarrow>
    pos_loop i cs (-1) = int (i + j)"
proof (induction cs arbitrary: i j)
  case (Cons c cs)
  show ?case
  proof (cases j)
    case 0
    have "cs ! k = nilNode" if "k < length cs" for k using Cons.prems(3) [of "Suc k"] that 0 by simp
    then have "\<forall>c\<in>set cs. c = nilNode" by (auto simp: in_set_conv_nth)
    then show ?thesis using Cons.prems(2) 0 by (simp add: pos_loop_nil)
  next
    case (Suc j')
    have "c = nilNode" using Cons.prems(3) [of 0] Suc by simp
    moreover have "pos_loop (i + 1) cs (-1) = int (i + 1 + j')"
    proof (rule Cons.IH)
      show "cs ! k = nilNode" if "k < length cs" "k \<noteq> j'" for k using Cons.prems(3) [of "Suc k"] Suc that by simp
    qed (use Cons.prems Suc in auto)
    ultimately show ?thesis using Suc by simp
  qed
qed simp

lemma pos_loop_two:
  "j < k \<Longrightarrow> k < length cs \<Longrightarrow> cs ! j \<noteq> nilNode \<Longrightarrow> cs ! k \<noteq> nilNode \<Longrightarrow> pos_loop i cs (-1) = -2"
proof (induction cs arbitrary: i j k)
  case (Cons c cs)
  obtain k' where k: "k = Suc k'" using Cons.prems(1) by (cases k) auto
  show ?case
  proof (cases "c = nilNode")
    case True
    then obtain j' where "j = Suc j'" using Cons.prems(3) by (cases j) auto
    then show ?thesis using Cons.IH [of j' k' "i + 1"] Cons.prems k True by simp
  next
    case False
    then show ?thesis using Cons.prems k pos_loop_more [of "cs ! k'" cs "int i" "i + 1"] by simp
  qed
qed simp

lemma twf_resolve:
  assumes "twf rs m n"
  obtains r where "resolve rs n = Ok r" "twf rs m r" "\<not> is_hash r" "\<And>k v. has rs r k v \<longleftrightarrow> has rs n k v"
proof (cases n)
  case (hashNode h)
  then obtain r where "rs h = Ok r" "twf rs m r" "\<not> is_hash r" using assms by (auto elim: twf_hashE)
  then show ?thesis using that hashNode by (simp add: resolve_def)
qed (use assms that in \<open>auto simp: resolve_def\<close>)

lemma twf_short_append:
  assumes "twf rs m (shortNode ck cv)" "list_all (\<lambda>b. b < 16) k"
  shows "twf rs (length k + m) (shortNode (k @ ck) cv)"
  using assms(1)
proof (rule twf_shortE)
  fix v assume h: "cv = valueNode v" "length ck = m" "hexterm ck" "v \<noteq> []"
  then show ?thesis using assms(2) by (auto intro!: twf.leaf hexterm_append)
next
  fix m' n' assume h: "m = length ck + m'" "ck \<noteq> []" "list_all (\<lambda>b. b < 16) ck" "twf rs m' cv" "resolve rs cv = Ok n'" "is_full n'"
  then show ?thesis using twf.ext [of "k @ ck" rs m' cv n'] assms(2) by (simp add: add.assoc)
qed

lemma twf_not_hash_cases:
  assumes "twf rs m n" "\<not> is_hash n"
  obtains k v where "n = shortNode k v" | cs where "n = fullNode cs"
  using assms by (cases n) auto

text \<open>What \<open>delete\<close> makes of a branch whose child \<open>p\<close> is the only one left.\<close>

lemma reduce_full_one:
  assumes "length cs = 17" "p < 16" "twf rs m (cs ! p)" "\<And>k. k < 17 \<Longrightarrow> k \<noteq> p \<Longrightarrow> cs ! k = nilNode"
  shows "\<exists>k n. reduce_full rs cs = Ok (shortNode k n) \<and> twf rs (Suc m) (shortNode k n) \<and>
    (\<forall>K w. has rs (shortNode k n) K w \<longleftrightarrow> has rs (fullNode cs) K w)"
proof -
  obtain r where r: "resolve rs (cs ! p) = Ok r" "twf rs m r" "\<not> is_hash r" "\<And>k v. has rs r k v \<longleftrightarrow> has rs (cs ! p) k v"
    using twf_resolve [OF assms(3)] by blast
  have "cs ! p \<noteq> nilNode" using assms(3) by auto
  then have pos: "pos_loop 0 cs (-1) = int p" using pos_loop_one [of p cs 0] assms by simp
  have up: "unat (of_nat p :: byte) = p" using assms(2) by (simp add: unat_of_nat)
  then have p16: "(of_nat p :: byte) < 16" using assms(2) by (simp add: unat_less_16)
  have full: "has rs (fullNode cs) K w \<longleftrightarrow> (\<exists>K'. K = of_nat p # K' \<and> has rs (cs ! p) K' w)" for K w
  proof (cases K)
    case (Cons x K')
    have "x = of_nat p \<longleftrightarrow> unat x = p" using up by (metis word_unat_eq_iff)
    then show ?thesis using Cons assms(1,2) assms(4) [of "unat x"] by auto
  qed simp
  show ?thesis using r(2,3)
  proof (cases rule: twf_not_hash_cases)
    case (1 k n)
    then have "reduce_full rs cs = Ok (shortNode (of_nat p # k) n)"
      using pos r(1) assms(2) by (simp add: reduce_full_def)
    moreover have "twf rs (Suc m) (shortNode (of_nat p # k) n)"
      using twf_short_append [of rs m k n "[of_nat p]"] r(2) 1 p16 by simp
    moreover have "has rs (shortNode (of_nat p # k) n) K w \<longleftrightarrow> has rs (fullNode cs) K w" for K w
      unfolding full r(4) [symmetric] using 1 by auto
    ultimately show ?thesis by blast
  next
    case (2 ds)
    then have "reduce_full rs cs = Ok (shortNode [of_nat p] (cs ! p))"
      using pos r(1) assms(2) by (simp add: reduce_full_def)
    moreover have "twf rs (Suc m) (shortNode [of_nat p] (cs ! p))"
      using twf.ext [of "[of_nat p]" rs m "cs ! p" r] assms(3) r(1) 2 p16 by simp
    moreover have "has rs (shortNode [of_nat p] (cs ! p)) K w \<longleftrightarrow> has rs (fullNode cs) K w" for K w
      unfolding full by auto
    ultimately show ?thesis by blast
  qed
qed

definition delete_post :: "'e resolver \<Rightarrow> nat \<Rightarrow> node \<Rightarrow> bytes \<Rightarrow> node \<Rightarrow> bool" where
  "delete_post rs m n key n' \<longleftrightarrow> (n' = nilNode \<or> twf rs m n') \<and> \<not> is_hash n' \<and>
    ((\<exists>cs. resolve rs n = Ok (fullNode cs)) \<longrightarrow> n' \<noteq> nilNode) \<and>
    (\<forall>k w. has rs n' k w \<longleftrightarrow> k \<noteq> key \<and> has rs n k w)"

lemma delete_correct_leaf:
  assumes "length k = length key" "hexterm k" "hexterm key" "v \<noteq> []" "0 < f"
  shows "\<exists>n'. trie_delete rs f (shortNode k (valueNode v)) key = Some (Ok n') \<and>
    delete_post rs (length key) (shortNode k (valueNode v)) key n'"
proof -
  obtain f' where f: "f = Suc f'" using assms(5) by (cases f) auto
  have tw: "twf rs (length key) (shortNode k (valueNode v))" using assms by (intro twf.leaf) auto
  show ?thesis
  proof (cases "prefixLen key k = length k")
    case True
    then have "key = k" using prefixLen_take [of key k] assms(1) by simp
    then show ?thesis using True f by (auto simp: trie_delete.simps(2) delete_post_def resolve_def)
  next
    case False
    then have "key \<noteq> k" "prefixLen key k < length k"
      using prefixLen_prefix(1) [of k "[]"] prefixLen_le(2) [of key k] by auto
    then show ?thesis using f tw by (auto simp: trie_delete.simps(2) delete_post_def resolve_def)
  qed
qed

lemma has_short_append:
  "(\<exists>K'. K = k @ K' \<and> has rs (shortNode ck cv) K' w) \<longleftrightarrow> has rs (shortNode (k @ ck) cv) K w"
  by auto

lemma delete_correct_ext:
  assumes hyps: "k \<noteq> []" "list_all (\<lambda>b. b < 16) k" "twf rs m n" "resolve rs n = Ok n'" "is_full n'"
    and IH: "\<And>key f. length key = m \<Longrightarrow> hexterm key \<Longrightarrow> fuel_for m n \<le> f \<Longrightarrow>
      \<exists>n'. trie_delete rs f n key = Some (Ok n') \<and> delete_post rs m n key n'"
    and prems: "length key = length k + m" "hexterm key" "fuel_for (length k + m) (shortNode k n) \<le> f"
  shows "\<exists>n'. trie_delete rs f (shortNode k n) key = Some (Ok n') \<and> delete_post rs (length k + m) (shortNode k n) key n'"
proof -
  obtain f' where f: "f = Suc f'" using prems(3) by (cases f) (auto simp: fuel_for_def)
  have m: "1 \<le> m" using twf_pos [OF hyps(3)] by simp
  have k1: "1 \<le> length k" using hyps(1) by (cases k) auto
  have tw: "twf rs (length k + m) (shortNode k n)" using hyps by (rule twf.ext)
  show ?thesis
  proof (cases "prefixLen key k = length k")
    case True
    have tk: "take (length k) key = k" using prefixLen_take [of key k] True by simp
    then have key: "key = k @ drop (length k) key" by (metis append_take_drop_id)
    have "hexterm (drop (length k) key)" using m prems by (intro hexterm_drop) auto
    moreover have "fuel_for m n \<le> f'" using k1 prems(3) f fuel_for_le [of m n] by (simp add: fuel_for_def)
    ultimately obtain c where c: "trie_delete rs f' n (drop (length k) key) = Some (Ok c)"
      "delete_post rs m n (drop (length k) key) c"
      using IH [of "drop (length k) key" f'] prems(1) by auto
    have post: "twf rs m c" "\<not> is_hash c" "\<And>k' w. has rs c k' w \<longleftrightarrow> k' \<noteq> drop (length k) key \<and> has rs n k' w"
      using c(2) hyps(4,5) unfolding delete_post_def by (cases n'; auto)+
    have cont: "(\<exists>K'. K = k @ K' \<and> has rs c K' w) \<longleftrightarrow> K \<noteq> key \<and> has rs (shortNode k n) K w" for K w
    proof -
      have "k @ r = key \<longleftrightarrow> r = drop (length k) key" for r using key by (metis same_append_eq)
      then show ?thesis by (auto simp: post(3))
    qed
    show ?thesis using post(1,2)
    proof (cases rule: twf_not_hash_cases)
      case (1 ck cv)
      then have "twf rs (length k + m) (shortNode (k @ ck) cv)" using twf_short_append [OF _ hyps(2)] post(1) by simp
      then have "delete_post rs (length k + m) (shortNode k n) key (shortNode (k @ ck) cv)"
        unfolding delete_post_def cont [symmetric] 1 has_short_append by (simp add: resolve_def)
      then show ?thesis using c(1) 1 True f m prems(1) by (simp add: trie_delete.simps(2))
    next
      case (2 cs)
      then have "twf rs (length k + m) (shortNode k c)"
        using hyps(1,2) post(1) by (intro twf.ext [where n' = c]) (auto simp: resolve_def)
      then have "delete_post rs (length k + m) (shortNode k n) key (shortNode k c)"
        unfolding delete_post_def cont [symmetric] by (simp add: resolve_def)
      then show ?thesis using c(1) 2 True f m prems(1) by (simp add: trie_delete.simps(2))
    qed
  next
    case False
    then have "\<not> has rs (shortNode k n) key w" for w using prefixLen_prefix(1) by auto
    then have "delete_post rs (length k + m) (shortNode k n) key (shortNode k n)"
      using tw unfolding delete_post_def by (auto simp: resolve_def simp del: has_simps)
    moreover have "prefixLen key k < length k" using False prefixLen_le(2) [of key k] by simp
    ultimately show ?thesis using f by (simp add: trie_delete.simps(2))
  qed
qed

lemma reduce_full_correct:
  assumes cs: "twf rs (Suc m) (fullNode cs)" "a < 16" "c = nilNode \<or> twf rs m c"
  shows "\<exists>n. reduce_full rs (cs[a := c]) = Ok n \<and> twf rs (Suc m) n \<and> \<not> is_hash n \<and>
    (\<forall>K w. has rs n K w \<longleftrightarrow> has rs (fullNode (cs[a := c])) K w)"
proof -
  let ?cs = "cs[a := c]"
  obtain i j where ij: "i < j" "j < 16" "cs ! i \<noteq> nilNode" "cs ! j \<noteq> nilNode" using cs(1) by (auto elim: twf_fullE)
  have l: "length cs = 17" "cs ! 16 = nilNode" using twf_fullD [OF cs(1)] by auto
  have ch: "?cs ! k = nilNode \<or> twf rs m (?cs ! k)" if "k < 17" for k
    using that twf_fullD [OF cs(1)] cs(2,3) by (cases "k = a"; cases "k = 16") auto
  have ne: "\<exists>k<16. ?cs ! k \<noteq> nilNode"
    using ij l(1) by (cases "i = a") (auto intro: exI [of _ i] exI [of _ j])
  show ?thesis
  proof (cases "\<exists>j k. j < k \<and> k < 17 \<and> ?cs ! j \<noteq> nilNode \<and> ?cs ! k \<noteq> nilNode")
    case True
    then obtain j k where jk: "j < k" "k < 17" "?cs ! j \<noteq> nilNode" "?cs ! k \<noteq> nilNode" by blast
    then have k16: "k < 16" using l cs(2) by (cases "k = 16") auto
    have "reduce_full rs ?cs = Ok (fullNode ?cs)" using pos_loop_two [of j k ?cs 0] jk l(1) by (simp add: reduce_full_def)
    moreover have "twf rs (Suc m) (fullNode ?cs)"
      by (rule twf.full [OF _ _ _ jk(1) k16 jk(3,4)]) (use l cs(2) ch in auto)
    ultimately show ?thesis by simp
  next
    case False
    obtain p where p: "p < 16" "?cs ! p \<noteq> nilNode" using ne by blast
    have "?cs ! k = nilNode" if "k < 17" "k \<noteq> p" for k
    proof (rule ccontr)
      assume k: "?cs ! k \<noteq> nilNode"
      have "k < p \<or> p < k" "p < 17" using that p(1) by auto
      then show False using False k p(2) that(1) by blast
    qed
    then show ?thesis using reduce_full_one [of ?cs p rs m] p l(1) ch [of p] by fastforce
  qed
qed

lemma delete_correct_full:
  assumes tw: "twf rs (Suc m) (fullNode cs)"
    and IH: "\<And>i key f. i < 16 \<Longrightarrow> twf rs m (cs ! i) \<Longrightarrow> length key = m \<Longrightarrow> hexterm key \<Longrightarrow>
      fuel_for m (cs ! i) \<le> f \<Longrightarrow>
      \<exists>n'. trie_delete rs f (cs ! i) key = Some (Ok n') \<and> delete_post rs m (cs ! i) key n'"
    and prems: "length key = Suc m" "hexterm key" "fuel_for (Suc m) (fullNode cs) \<le> f"
  shows "\<exists>n'. trie_delete rs f (fullNode cs) key = Some (Ok n') \<and> delete_post rs (Suc m) (fullNode cs) key n'"
proof -
  have m: "1 \<le> m" using twf_fullD(2) [OF tw] by auto
  obtain f' where f: "f = Suc f'" using prems(3) by (cases f) (auto simp: fuel_for_def)
  obtain a key' where key: "key = a # key'" "length key' = m" using prems(1) by (cases key) auto
  then have k': "key' \<noteq> []" using m by auto
  have a: "unat a < 16" "hexterm key'" using hexterm_Cons [of a key'] prems(2) key k' by (auto simp: unat_less_16)
  have ch: "unat a < length cs" using a twf_fullD(1) [OF tw] by simp
  have "\<exists>c. trie_delete rs f' (cs ! unat a) key' = Some (Ok c) \<and> delete_post rs m (cs ! unat a) key' c"
  proof (cases "cs ! unat a = nilNode")
    case True
    then show ?thesis using prems(3) f by (cases f') (auto simp: fuel_for_def trie_delete.simps(2) delete_post_def resolve_def)
  next
    case False
    have "fuel_for m (cs ! unat a) \<le> f'" using prems(3) f fuel_for_le [of m "cs ! unat a"] by (simp add: fuel_for_def)
    then show ?thesis using IH [OF a(1)] twf_fullD(2) [OF tw] False key a by auto
  qed
  then obtain c where c: "trie_delete rs f' (cs ! unat a) key' = Some (Ok c)"
    "delete_post rs m (cs ! unat a) key' c" by blast
  then obtain n where n: "reduce_full rs (cs[unat a := c]) = Ok n" "twf rs (Suc m) n" "\<not> is_hash n"
    "\<And>K w. has rs n K w \<longleftrightarrow> has rs (fullNode (cs[unat a := c])) K w"
    using reduce_full_correct [OF tw a(1), of c] unfolding delete_post_def by blast
  have "has rs n K w \<longleftrightarrow> K \<noteq> key \<and> has rs (fullNode cs) K w" for K w
  proof (cases K)
    case (Cons x k2)
    have "has rs (fullNode cs) (a # k2) w \<longleftrightarrow> has rs (cs ! unat a) k2 w" using ch by simp
    then show ?thesis using c(2) key(1) Cons unfolding n(4) has_full_update [OF ch] delete_post_def
      by (cases "x = a") (simp_all del: has_simps)
  qed (simp add: n(4))
  then have "delete_post rs (Suc m) (fullNode cs) key n"
    unfolding delete_post_def using n(2,3) by (auto simp del: has_simps)
  then show ?thesis using c(1) n(1) f key ch by (simp add: trie_delete.simps(2))
qed

lemma delete_correct:
  "twf rs m n \<Longrightarrow> length key = m \<Longrightarrow> hexterm key \<Longrightarrow> fuel_for m n \<le> f \<Longrightarrow>
    \<exists>n'. trie_delete rs f n key = Some (Ok n') \<and> delete_post rs m n key n'"
proof (induction arbitrary: f key rule: twf.induct)
  case (leaf k m v0)
  then show ?case using delete_correct_leaf [of k key v0 f rs] by (auto simp: fuel_for_def)
next
  case (ext k m n n')
  show ?case by (rule delete_correct_ext [OF ext.hyps ext.IH ext.prems])
next
  case (full cs m i j)
  have "twf rs (Suc m) (fullNode cs)" using full.IH by (intro twf.full [OF full.hyps(1,2) _ full.hyps(3-6)]) auto
  then show ?case
  proof (rule delete_correct_full [OF _ _ full.prems])
    show "\<exists>n'. trie_delete rs f (cs ! i) key = Some (Ok n') \<and> delete_post rs m (cs ! i) key n'"
      if "i < 16" "twf rs m (cs ! i)" "length key = m" "hexterm key" "fuel_for m (cs ! i) \<le> f" for i key f
      using full.IH [OF that(1)] that(2-5) by (cases "cs ! i = nilNode") auto
  qed
next
  case (hash h n m)
  then obtain f' where f: "f = Suc f'" by (cases f) (auto simp: fuel_for_def)
  have "fuel_for m n \<le> f'" using hash f by (simp add: fuel_for_def)
  then obtain n' where "trie_delete rs f' n key = Some (Ok n')" "delete_post rs m n key n'"
    using hash.IH hash.prems by blast
  moreover have "resolve rs n = Ok n" using hash.hyps(3) by (cases n) (auto simp: resolve_def)
  ultimately show ?case using f hash.hyps(1) by (auto simp: trie_delete.simps(2) delete_post_def resolve_def)
qed

section \<open>Canonical form\<close>

text \<open>A loaded trie (no hash node resolves) is determined by its contents.\<close>

definition unresolved :: "'e resolver \<Rightarrow> bool" where
  "unresolved rs \<longleftrightarrow> (\<forall>h n. rs h \<noteq> Ok n)"

lemma twf_nonempty: "twf rs m n \<Longrightarrow> \<exists>k v. has rs n k v"
proof (induction rule: twf.induct)
  case (full cs m i j)
  have ui: "unat (of_nat i :: byte) = i" using full.hyps by (simp add: unat_of_nat)
  have "twf rs m (cs ! i) \<and> (\<exists>k v. has rs (cs ! i) k v)" using full.IH [of i] full.hyps by auto
  then obtain k v where "has rs (cs ! i) k v" by blast
  then have "has rs (fullNode cs) (of_nat i # k) v" using ui full.hyps by (intro has_full) auto
  then show ?case by blast
qed (blast intro: has.intros)+

lemma twf_branches:
  assumes "twf rs m (fullNode cs)"
  obtains a b ka kb va vb where "a \<noteq> b" "has rs (fullNode cs) (a # ka) va" "has rs (fullNode cs) (b # kb) vb"
proof -
  obtain i j where ij: "i < j" "j < 16" "cs ! i \<noteq> nilNode" "cs ! j \<noteq> nilNode" using assms by (auto elim: twf_fullE)
  obtain m' where m': "\<forall>i<16. cs ! i = nilNode \<or> twf rs m' (cs ! i)" using twf_fullD(2) [OF assms] by blast
  have u: "unat (of_nat i :: byte) = i" "unat (of_nat j :: byte) = j" using ij by (simp_all add: unat_of_nat)
  obtain ka va kb vb where h: "has rs (cs ! i) ka va" "has rs (cs ! j) kb vb"
    using m' ij twf_nonempty by (metis order_less_trans)
  have "has rs (fullNode cs) (of_nat i # ka) va" "has rs (fullNode cs) (of_nat j # kb) vb"
    using h u ij twf_fullD(1) [OF assms] by (auto intro!: has_full)
  moreover have "(of_nat i :: byte) \<noteq> of_nat j" using u ij(1) by (metis less_irrefl)
  ultimately show ?thesis using that by blast
qed

lemma twf_ext_branches:
  assumes "twf rs m n" "resolve rs n = Ok n'" "is_full n'"
  obtains a b ka kb va vb where "a \<noteq> b" "has rs (shortNode k n) (k @ a # ka) va" "has rs (shortNode k n) (k @ b # kb) vb"
proof -
  obtain cs where n': "n' = fullNode cs" using assms(3) by (cases n') auto
  obtain r where r: "resolve rs n = Ok r" "twf rs m r" "\<And>k v. has rs r k v \<longleftrightarrow> has rs n k v" using twf_resolve [OF assms(1)] by metis
  then have "twf rs m (fullNode cs)" "\<And>k v. has rs (fullNode cs) k v \<longleftrightarrow> has rs n k v" using assms(2) n' by auto
  then obtain a b ka kb va vb where "a \<noteq> b" "has rs n (a # ka) va" "has rs n (b # kb) vb" by (metis twf_branches)
  then show ?thesis using that has_short by metis
qed

lemma prefix_of_both:
  assumes "k @ a # x = k' @ u" "k @ b # y = k' @ w" "a \<noteq> b"
  shows "length k' \<le> length k"
proof (rule ccontr)
  assume "\<not> ?thesis"
  then have "(k @ a # x) ! length k = k' ! length k" "(k @ b # y) ! length k = k' ! length k"
    using assms(1,2) by (simp_all add: nth_append)
  then show False using assms(3) by simp
qed

lemma canonical_ext:
  assumes n: "twf rs m n" "resolve rs n = Ok r" "is_full r"
    and n': "twf rs m' n'" "resolve rs n' = Ok r'" "is_full r'"
    and eq: "\<And>K v. has rs (shortNode k n) K v \<longleftrightarrow> has rs (shortNode k' n') K v"
  shows "k = k'" "\<And>K v. has rs n K v \<longleftrightarrow> has rs n' K v"
proof -
  have le: "length k2 \<le> length k1"
    if "twf rs m n1" "resolve rs n1 = Ok r1" "is_full r1" "\<And>K v. has rs (shortNode k1 n1) K v \<longleftrightarrow> has rs (shortNode k2 n2) K v"
    for m n1 r1 k1 k2 n2
  proof -
    note h = that
    obtain a b ka kb va vb where ab: "a \<noteq> b" "has rs (shortNode k1 n1) (k1 @ a # ka) va" "has rs (shortNode k1 n1) (k1 @ b # kb) vb"
      using twf_ext_branches [OF h(1-3)] by metis
    from ab(2,3) [unfolded h(4)] obtain u w where "k1 @ a # ka = k2 @ u" "k1 @ b # kb = k2 @ w" by auto
    then show ?thesis using prefix_of_both ab(1) by metis
  qed
  have len: "length k = length k'" using le [OF n eq] le [OF n' eq [symmetric]] by simp
  obtain K v where "has rs n K v" using twf_nonempty [OF n(1)] by blast
  then have "has rs (shortNode k' n') (k @ K) v" using eq has_short by metis
  then show kk: "k = k'" using len by auto
  show "has rs n K v \<longleftrightarrow> has rs n' K v" for K v using eq [of "k @ K" v] kk by simp
qed


lemma twf_unresolved_cases:
  assumes "twf rs m n" "unresolved rs"
  obtains (leaf) k v where "n = shortNode k (valueNode v)"
  | (ext) k c r m' where "n = shortNode k c" "k \<noteq> []" "m = length k + m'" "twf rs m' c" "resolve rs c = Ok r" "is_full r"
  | (full) cs where "n = fullNode cs"
  using assms(1)
proof (cases rule: twf.cases)
  case (hash h n)
  then show ?thesis using assms(2) by (auto simp: unresolved_def)
qed (use that in blast)+

lemma twf_ext_has_two:
  assumes "twf rs m' c" "resolve rs c = Ok r" "is_full r" "\<And>K w. has rs (shortNode k c) K w \<Longrightarrow> K = k0"
  shows False
proof -
  obtain a b ka kb va vb where "a \<noteq> b" "has rs (shortNode k c) (k @ a # ka) va" "has rs (shortNode k c) (k @ b # kb) vb"
    by (rule twf_ext_branches [OF assms(1-3), of k])
  then have "k @ a # ka = k @ b # kb" using assms(4) by blast
  then show False using \<open>a \<noteq> b\<close> by simp
qed

lemma twf_full_has_two:
  assumes "twf rs m (fullNode cs)" "k \<noteq> []" "\<And>K w. has rs (fullNode cs) K w \<Longrightarrow> \<exists>x. K = k @ x"
  shows False
proof -
  obtain a b ka kb va vb where ab: "a \<noteq> b" "has rs (fullNode cs) (a # ka) va" "has rs (fullNode cs) (b # kb) vb"
    by (rule twf_branches [OF assms(1)])
  then have "\<exists>x. a # ka = k @ x" "\<exists>x. b # kb = k @ x" using assms(3) by blast+
  then show False using ab(1) assms(2) by (cases k) auto
qed

lemma canonical_full:
  assumes cs: "twf rs (Suc m) (fullNode cs)" and ds: "twf rs (Suc m) (fullNode ds)"
    and eq: "\<And>K v. has rs (fullNode cs) K v \<longleftrightarrow> has rs (fullNode ds) K v"
    and IH: "\<And>k n'. k < 16 \<Longrightarrow> cs ! k \<noteq> nilNode \<Longrightarrow> twf rs m n' \<Longrightarrow> (\<And>K v. has rs (cs ! k) K v \<longleftrightarrow> has rs n' K v) \<Longrightarrow> cs ! k = n'"
  shows "cs = ds"
proof (rule nth_equalityI)
  note c = twf_fullD [OF cs] and d = twf_fullD [OF ds]
  show "length cs = length ds" using c(1) d(1) by simp
  show "cs ! k = ds ! k" if "k < length cs" for k
  proof (cases "k = 16")
    case True
    then show ?thesis using c(3) d(3) by simp
  next
    case False
    then have k: "k < 16" using that c(1) by simp
    have u: "unat (of_nat k :: byte) = k" using k by (simp add: unat_of_nat)
    have ex: "has rs (fullNode es) (of_nat k # K) v \<longleftrightarrow> has rs (es ! k) K v" if "length es = 17" for es K v
      using that u k by auto
    have eqk: "has rs (cs ! k) K v \<longleftrightarrow> has rs (ds ! k) K v" for K v
      using eq [of "of_nat k # K" v] ex [OF c(1)] ex [OF d(1)] by blast
    have "cs ! k = nilNode \<or> twf rs m (cs ! k)" "ds ! k = nilNode \<or> twf rs m (ds ! k)" using c(2) d(2) k by auto
    moreover have "\<exists>K v. has rs n K v" if "twf rs m n" for n using twf_nonempty [OF that] .
    ultimately show ?thesis using eqk IH [OF k, of "ds ! k"] has_simps(1) by metis
  qed
qed

lemma trie_canonical:
  assumes "unresolved rs"
  shows "twf rs m n \<Longrightarrow> twf rs m n' \<Longrightarrow> (\<And>k v. has rs n k v \<longleftrightarrow> has rs n' k v) \<Longrightarrow> n = n'"
proof (induction arbitrary: n' rule: twf.induct)
  case (leaf k m v)
  have only: "K = k" if "has rs n' K w" for K w using leaf.prems(2) [of K w] that by simp
  show ?case using leaf.prems(1) assms
  proof (cases rule: twf_unresolved_cases)
    case (leaf k' v')
    then show ?thesis using leaf.prems(2) [of k' v'] by auto
  next
    case (ext k' c r m')
    have False by (rule twf_ext_has_two [OF ext(4-6), of k' k]) (use only ext(1) in simp)
    then show ?thesis ..
  next
    case (full cs)
    have "k \<noteq> []" using leaf.hyps(2) by (auto simp: hexterm_def)
    then have False using only full leaf.prems(1) by (intro twf_full_has_two [of rs m cs k]) auto
    then show ?thesis ..
  qed
next
  case (ext k m n r)
  show ?case using ext.prems(1) assms
  proof (cases rule: twf_unresolved_cases)
    case (leaf k' v')
    have "K = k'" if "has rs (shortNode k n) K w" for K w using ext.prems(2) [of K w] leaf that by simp
    then have False by (rule twf_ext_has_two [OF ext.hyps(3-5)])
    then show ?thesis ..
  next
    case e': (ext k' c r' m')
    have eq: "\<And>K v. has rs (shortNode k n) K v \<longleftrightarrow> has rs (shortNode k' c) K v" using ext.prems(2) unfolding e'(1) .
    note c = canonical_ext [OF ext.hyps(3-5) e'(4-6) eq]
    have "m' = m" using e'(3) c(1) by simp
    then have "n = c" using ext.IH [of c] c(2) e'(4) by blast
    then show ?thesis using c(1) e'(1) by simp
  next
    case (full cs)
    have "\<exists>x. K = k @ x" if "has rs (fullNode cs) K w" for K w using ext.prems(2) [of K w] full that by auto
    then have False by (rule twf_full_has_two [OF ext.prems(1) [unfolded full] ext.hyps(1)])
    then show ?thesis ..
  qed
next
  case (full cs m i j)
  have tw: "twf rs (Suc m) (fullNode cs)" using full.IH by (intro twf.full [OF full.hyps(1,2) _ full.hyps(3-6)]) auto
  have short: "n' \<noteq> shortNode k' c" if "k' \<noteq> []" for k' c
  proof
    assume n': "n' = shortNode k' c"
    have "\<exists>x. K = k' @ x" if "has rs (fullNode cs) K w" for K w using full.prems(2) [of K w] n' that by auto
    then show False by (rule twf_full_has_two [OF tw \<open>k' \<noteq> []\<close>])
  qed
  show ?case using full.prems(1) assms
  proof (cases rule: twf_unresolved_cases)
    case (leaf k' v')
    then have "twf rs (Suc m) (shortNode k' (valueNode v'))" using full.prems(1) by simp
    then have "k' \<noteq> []" by (auto elim!: twf_shortE simp: hexterm_def)
    then show ?thesis using short leaf by blast
  next
    case (ext k' c r m')
    then show ?thesis using short by blast
  next
    case f': (full ds)
    have "cs = ds"
    proof (rule canonical_full [OF tw full.prems(1) [unfolded f'] full.prems(2) [unfolded f']])
      show "cs ! k = n'" if "k < 16" "cs ! k \<noteq> nilNode" "twf rs m n'" "\<And>K v. has rs (cs ! k) K v \<longleftrightarrow> has rs n' K v" for k n'
        using full.IH [OF that(1)] that(2-4) by blast
    qed
    then show ?thesis using f' by simp
  qed
next
  case (hash h n m)
  then show ?case using assms hash.hyps(1) unfolding unresolved_def by blast
qed

end
