(* ===== verification/Arc_Cache.thy ===== *)
theory Arc_Cache
  imports Prelude
begin

text \<open>
  The adaptive replacement cache of \<open>trie/arc.go\<close>, which keeps decoded trie nodes by their hash.
  The four linked lists hold the keys of their entries, most recently used first; an entry knows
  the list it is on. Values are a parameter type, nil is \<open>None\<close>.
\<close>

section \<open>Definitions\<close>

datatype lname = T1 | B1 | T2 | B2

record 'v entry =
  ekey :: bytes
  evalue :: "'v option"
  ell :: "lname option"

record 'v arc =
  ap :: int
  ac :: int
  alists :: "lname \<Rightarrow> bytes list"
  acache :: "bytes \<Rightarrow> 'v entry option"

definition newARC :: "int \<Rightarrow> 'v arc" where
  "newARC c = \<lparr>ap = 0, ac = c, alists = (\<lambda>_. []), acache = (\<lambda>_. None)\<rparr>"

definition Len :: "'v arc \<Rightarrow> lname \<Rightarrow> int" where
  "Len a L = int (length (alists a L))"

definition detach :: "'v arc \<Rightarrow> 'v entry \<Rightarrow> 'v arc" where
  "detach a e = (case ell e of None \<Rightarrow> a
     | Some L \<Rightarrow> a\<lparr>alists := (alists a)(L := remove1 (ekey e) (alists a L))\<rparr>)"

definition setMRU :: "'v arc \<Rightarrow> 'v entry \<Rightarrow> lname \<Rightarrow> 'v arc \<times> 'v entry" where
  "setMRU a e L =
    (let a1 = detach a e; e1 = e\<lparr>ell := Some L\<rparr>
     in (a1\<lparr>alists := (alists a1)(L := ekey e # alists a1 L)\<rparr>, e1))"

definition setLRU :: "'v arc \<Rightarrow> 'v entry \<Rightarrow> lname \<Rightarrow> 'v arc \<times> 'v entry" where
  "setLRU a e L =
    (let a1 = detach a e; e1 = e\<lparr>ell := Some L\<rparr>
     in (a1\<lparr>alists := (alists a1)(L := alists a1 L @ [ekey e])\<rparr>, e1))"

definition delLRU :: "'v arc \<Rightarrow> lname \<Rightarrow> (unit, 'v arc) result" where
  "delLRU a L =
    (if alists a L = [] then Panic NilDereference
     else let lru = last (alists a L)
       in Ok (a\<lparr>alists := (alists a)(L := butlast (alists a L)), acache := (acache a)(lru := None)\<rparr>))"

text \<open>The two branches of \<open>replace\<close>: the least recent entry of one list loses its value and
  moves to the front of another.\<close>

definition demote :: "'v arc \<Rightarrow> lname \<Rightarrow> lname \<Rightarrow> (unit, 'v arc) result" where
  "demote a L L' =
    (if alists a L = [] then Panic NilDereference
     else case acache a (last (alists a L)) of
       None \<Rightarrow> Panic NilDereference
     | Some lru \<Rightarrow>
         let (a1, lru1) = setMRU a (lru\<lparr>evalue := None\<rparr>) L'
         in Ok (a1\<lparr>acache := (acache a1)(ekey lru \<mapsto> lru1)\<rparr>))"

definition arc_replace :: "'v arc \<Rightarrow> 'v entry \<Rightarrow> (unit, 'v arc) result" where
  "arc_replace a ent =
    (if Len a T1 > 0 \<and> (Len a T1 > ap a \<or> (ell ent = Some B2 \<and> Len a T1 = ap a))
     then demote a T1 B1 else demote a T2 B2)"

definition go_div :: "int \<Rightarrow> int \<Rightarrow> (unit, int) result" where
  "go_div x y = (if y = 0 then Panic DivideByZero else Ok (sgn x * sgn y * (\<bar>x\<bar> div \<bar>y\<bar>)))"

definition req :: "'v arc \<Rightarrow> 'v entry \<Rightarrow> (unit, 'v arc \<times> 'v entry) result" where
  "req a ent =
    (case ell ent of
       Some T1 \<Rightarrow> Ok (setMRU a ent T2)
     | Some T2 \<Rightarrow> Ok (setMRU a ent T2)
     | Some B1 \<Rightarrow>
         bind_result (if Len a B1 \<ge> Len a B2 then Ok 1 else go_div (Len a B2) (Len a B1)) (\<lambda>d.
         let p = ap a + d; p = (if p > ac a then ac a else p) in
         bind_result (arc_replace (a\<lparr>ap := p\<rparr>) ent) (\<lambda>a1. Ok (setMRU a1 ent T2)))
     | Some B2 \<Rightarrow>
         bind_result (if Len a B2 \<ge> Len a B1 then Ok 1 else go_div (Len a B1) (Len a B2)) (\<lambda>d.
         let p = ap a - d; p = (if p < 0 then 0 else p) in
         bind_result (arc_replace (a\<lparr>ap := p\<rparr>) ent) (\<lambda>a1. Ok (setMRU a1 ent T2)))
     | None \<Rightarrow>
         let total = Len a T1 + Len a T2 + Len a B1 + Len a B2 in
         bind_result
           (if Len a T1 + Len a B1 = ac a then
              if Len a T1 < ac a then bind_result (delLRU a B1) (\<lambda>a1. arc_replace a1 ent)
              else delLRU a T1
            else if Len a T1 + Len a B1 < ac a then
              if total \<ge> ac a then
                bind_result (if total = 2 * ac a then delLRU a B2 else Ok a) (\<lambda>a1. arc_replace a1 ent)
              else Ok a
            else Ok a)
           (\<lambda>a1. Ok (setMRU a1 ent T1)))"

definition arc_Put :: "'v arc \<Rightarrow> bytes \<Rightarrow> 'v option \<Rightarrow> (unit, 'v arc \<times> bool) result" where
  "arc_Put a k v =
    (case acache a k of
       None \<Rightarrow> bind_result (req a \<lparr>ekey = k, evalue = v, ell = None\<rparr>)
         (\<lambda>(a1, ent). Ok (a1\<lparr>acache := (acache a1)(k \<mapsto> ent)\<rparr>, False))
     | Some e \<Rightarrow> bind_result (req a (e\<lparr>evalue := v\<rparr>))
         (\<lambda>(a1, ent). Ok (a1\<lparr>acache := (acache a1)(k \<mapsto> ent)\<rparr>, True)))"

definition arc_Get :: "'v arc \<Rightarrow> bytes \<Rightarrow> (unit, 'v arc \<times> 'v option) result" where
  "arc_Get a k =
    (case acache a k of
       None \<Rightarrow> Ok (a, None)
     | Some e \<Rightarrow> bind_result (req a e) (\<lambda>(a1, ent). Ok (a1\<lparr>acache := (acache a1)(k \<mapsto> ent)\<rparr>, evalue ent)))"

section \<open>Invariant\<close>

definition coherent :: "'v arc \<Rightarrow> bool" where
  "coherent a \<longleftrightarrow> (\<forall>L. distinct (alists a L)) \<and>
    (\<forall>k L. k \<in> set (alists a L) \<longleftrightarrow> (\<exists>e. acache a k = Some e \<and> ell e = Some L)) \<and>
    (\<forall>k e. acache a k = Some e \<longrightarrow> ekey e = k)"

definition ghosts :: "bytes set \<Rightarrow> 'v arc \<Rightarrow> bool" where
  "ghosts K a \<longleftrightarrow> (\<forall>k e. acache a k = Some e \<longrightarrow> k \<notin> K \<longrightarrow> ell e = Some B1 \<or> ell e = Some B2 \<longrightarrow> evalue e = None)"

definition settled :: "bytes set \<Rightarrow> 'v arc \<Rightarrow> bool" where
  "settled K a \<longleftrightarrow> (\<forall>k e. acache a k = Some e \<longrightarrow> k \<notin> K \<longrightarrow> ell e \<noteq> None)"

definition sizes :: "'v arc \<Rightarrow> bool" where
  "sizes a \<longleftrightarrow> 0 < ac a \<and> 0 \<le> ap a \<and> ap a \<le> ac a \<and> Len a T1 + Len a B1 \<le> ac a \<and> Len a T1 + Len a T2 \<le> ac a \<and>
    Len a T1 + Len a T2 + Len a B1 + Len a B2 \<le> 2 * ac a \<and>
    (0 < Len a B1 + Len a B2 \<longrightarrow> Len a T1 + Len a T2 = ac a)"

definition arc_inv :: "'v arc \<Rightarrow> bool" where
  "arc_inv a \<longleftrightarrow> coherent a \<and> ghosts {} a \<and> settled {} a \<and> sizes a"

text \<open>What the cache answers: the value held for a key.\<close>

definition aview :: "'v arc \<Rightarrow> bytes \<Rightarrow> 'v option" where
  "aview a k = (case acache a k of None \<Rightarrow> None | Some e \<Rightarrow> evalue e)"

text \<open>The state with the entry in hand written to its place.\<close>

definition with_ent :: "'v arc \<Rightarrow> 'v entry \<Rightarrow> 'v arc" where
  "with_ent a e = a\<lparr>acache := (acache a)(ekey e \<mapsto> e)\<rparr>"

definition carries :: "'v arc \<Rightarrow> 'v entry \<Rightarrow> 'v arc \<Rightarrow> 'v entry \<Rightarrow> bool" where
  "carries a e a' e' \<longleftrightarrow> coherent (with_ent a' e') \<and> ekey e' = ekey e \<and> evalue e' = evalue e \<and>
    (ghosts {ekey e} a \<longrightarrow> ghosts {ekey e} a') \<and>
    dom (acache a') \<subseteq> dom (acache a) \<and>
    (settled {ekey e} a \<longrightarrow> settled {ekey e} a') \<and>
    aview (with_ent a' e') \<subseteq>\<^sub>m aview (with_ent a e) \<and> ac a' = ac a \<and> ap a' = ap a"

definition bump :: "bool \<Rightarrow> int" where
  "bump b = (if b then 1 else 0)"

lemma bump_simps [simp]: "bump True = 1" "bump False = 0" "0 \<le> bump b" "bump b \<le> 1"
  by (simp_all add: bump_def)

lemma with_ent_simps [simp]:
  "alists (with_ent a e) = alists a" "acache (with_ent a e) = (acache a)(ekey e \<mapsto> e)"
  "ac (with_ent a e) = ac a" "ap (with_ent a e) = ap a" "Len (with_ent a e) L = Len a L"
  by (simp_all add: with_ent_def Len_def)

lemma coherentD:
  assumes "coherent a"
  shows "distinct (alists a L)" "k \<in> set (alists a L) \<longleftrightarrow> (\<exists>e. acache a k = Some e \<and> ell e = Some L)"
    "acache a k = Some e \<Longrightarrow> ekey e = k"
  using assms by (auto simp: coherent_def)

lemma carries_trans:
  assumes "carries a e a1 e1" "carries a1 e1 a2 e2"
  shows "carries a e a2 e2"
proof -
  have "aview (with_ent a2 e2) \<subseteq>\<^sub>m aview (with_ent a e)" "dom (acache a2) \<subseteq> dom (acache a)"
    using assms unfolding carries_def by (blast intro: map_le_trans)+
  then show ?thesis using assms unfolding carries_def by simp
qed

lemma int_length_pred: "x \<in> set xs \<Longrightarrow> int (length xs - Suc 0) = int (length xs) - 1"
  by (cases xs) auto

lemma setMRU_simps:
  assumes "setMRU a e L = (a', e')"
  shows "alists a' M = (if M = L then [ekey e] else []) @ (if ell e = Some M then remove1 (ekey e) (alists a M) else alists a M)"
    and "acache a' = acache a" "ap a' = ap a" "ac a' = ac a" "e' = e\<lparr>ell := Some L\<rparr>"
  using assms by (cases "ell e"; auto simp: setMRU_def detach_def Let_def)+

lemma setMRU_coherent:
  assumes "coherent (with_ent a e)" "setMRU a e L = (a', e')"
  shows "coherent (with_ent a' e')" "Len a' M = Len a M - bump (ell e = Some M) + bump (M = L)"
proof -
  note c = coherentD [OF assms(1), simplified] and s = setMRU_simps [OF assms(2)]
  have mem: "ekey e \<in> set (alists a M) \<longleftrightarrow> ell e = Some M" for M using c(2) [of "ekey e" M] by simp
  show "Len a' M = Len a M - bump (ell e = Some M) + bump (M = L)"
    using mem [of M] by (auto simp: Len_def s(1) length_remove1 bump_def int_length_pred)
  have "distinct (alists a' M)" for M
    using c(1) [of M] mem [of M] by (cases "M = L") (simp_all add: s(1))
  moreover have "k \<in> set (alists a' M) \<longleftrightarrow> (\<exists>f. acache (with_ent a' e') k = Some f \<and> ell f = Some M)" for k M
  proof (cases "k = ekey e")
    case True
    then show ?thesis using c(1) [of M] mem [of M] by (auto simp: s)
  next
    case False
    then show ?thesis using c(2) [of k M] by (simp add: s)
  qed
  moreover have "ekey f = k" if "acache (with_ent a' e') k = Some f" for k f
    using that c(3) [of k f] by (cases "k = ekey e") (auto simp: s)
  ultimately show "coherent (with_ent a' e')" unfolding coherent_def with_ent_simps(1) by blast
qed

lemma setMRU_carries:
  assumes "coherent (with_ent a e)" "setMRU a e L = (a', e')"
  shows "carries a e a' e'"
proof -
  note s = setMRU_simps [OF assms(2)]
  have "aview (with_ent a' e') = aview (with_ent a e)" by (rule ext) (simp add: aview_def s)
  then show ?thesis unfolding carries_def using setMRU_coherent [OF assms] by (simp add: s ghosts_def settled_def)
qed

lemma coherent_last:
  assumes "coherent (with_ent a e)" "ell e \<noteq> Some L" "alists a L \<noteq> []"
  obtains f where "last (alists a L) \<noteq> ekey e" "acache a (last (alists a L)) = Some f" "ell f = Some L" "ekey f = last (alists a L)"
proof -
  note c = coherentD [OF assms(1), simplified]
  let ?k = "last (alists a L)"
  have "?k \<in> set (alists a L)" using assms(3) by simp
  then obtain f where f: "((acache a)(ekey e \<mapsto> e)) ?k = Some f" "ell f = Some L" using c(2) [of ?k L] by auto
  then have "?k \<noteq> ekey e" using assms(2) by auto
  then show ?thesis using that [of f] f c(3) [of ?k f] by simp
qed

lemma distinct_butlast_set:
  assumes "distinct xs" "xs = ys @ [y]"
  shows "set ys = set xs - {y}" "distinct ys"
  using assms by auto

lemma coherent_cong: "alists a = alists b \<Longrightarrow> acache a = acache b \<Longrightarrow> coherent a = coherent b"
  by (simp add: coherent_def)

lemma delLRU_ok:
  assumes "coherent (with_ent a e)" "ell e = None" "alists a L \<noteq> []"
  shows "\<exists>a'. delLRU a L = Ok a' \<and> carries a e a' e \<and> (\<forall>M. Len a' M = Len a M - bump (M = L))"
proof -
  let ?k = "last (alists a L)"
  let ?a = "a\<lparr>alists := (alists a)(L := butlast (alists a L)), acache := (acache a)(?k := None)\<rparr>"
  note c = coherentD [OF assms(1), simplified]
  obtain f where f: "?k \<noteq> ekey e" "acache a ?k = Some f" "ell f = Some L"
    using coherent_last [OF assms(1) _ assms(3)] assms(2) by auto
  note bl = distinct_butlast_set [OF c(1) append_butlast_last_id [OF assms(3), symmetric]]
  have "distinct (alists ?a M)" for M using c(1) [of M] bl by simp
  moreover have "k \<in> set (alists ?a M) \<longleftrightarrow> (\<exists>g. acache (with_ent ?a e) k = Some g \<and> ell g = Some M)" for k M
    using c(2) [of k M] c(2) [of k L] f bl by (cases "k = ?k"; cases "M = L") auto
  moreover have "ekey g = k" if "acache (with_ent ?a e) k = Some g" for k g
    using that c(3) [of k g] f(1) by (auto split: if_splits)
  ultimately have "coherent (with_ent ?a e)" unfolding coherent_def with_ent_simps(1) by blast
  moreover have "aview (with_ent ?a e) \<subseteq>\<^sub>m aview (with_ent a e)" using f(1) by (auto simp: aview_def map_le_def)
  ultimately have "carries a e ?a e" unfolding carries_def ghosts_def settled_def by auto
  moreover have "Len ?a M = Len a M - bump (M = L)" for M
    using int_length_pred [OF last_in_set [OF assms(3)]] by (simp add: Len_def bump_def)
  ultimately show ?thesis using assms(3) by (auto simp: delLRU_def Let_def)
qed

lemma demote_ok:
  assumes "coherent (with_ent a e)" "ell e \<noteq> Some L" "alists a L \<noteq> []" "L' = B1 \<or> L' = B2"
  shows "\<exists>a'. demote a L L' = Ok a' \<and> carries a e a' e \<and> (\<forall>M. Len a' M = Len a M - bump (M = L) + bump (M = L'))"
proof -
  let ?k = "last (alists a L)"
  obtain f where f: "?k \<noteq> ekey e" "acache a ?k = Some f" "ell f = Some L" "ekey f = ?k"
    using coherent_last [OF assms(1-3)] by blast
  define b where "b = with_ent a e"
  define f' where "f' = f\<lparr>evalue := None\<rparr>"
  note c = coherentD [OF assms(1), simplified]
  have "coherent (with_ent b f')"
    unfolding coherent_def
  proof (intro conjI allI impI)
    show "distinct (alists (with_ent b f') M)" for M using c(1) [of M] by (simp add: b_def)
    show "k \<in> set (alists (with_ent b f') M) \<longleftrightarrow> (\<exists>g. acache (with_ent b f') k = Some g \<and> ell g = Some M)" for k M
      using c(2) [of k M] f by (cases "k = ?k") (simp_all add: b_def f'_def)
    show "ekey g = k" if "acache (with_ent b f') k = Some g" for k g
      using that c(3) [of k g] f by (cases "k = ?k") (auto simp: b_def f'_def)
  qed
  moreover obtain b' f'' where b': "setMRU b f' L' = (b', f'')" by fastforce
  ultimately have coh: "coherent (with_ent b' f'')"
    "\<And>M. Len b' M = Len b M - bump (ell f' = Some M) + bump (M = L')" using setMRU_coherent by blast+
  obtain a1 f1 where a1: "setMRU a f' L' = (a1, f1)" by fastforce
  note sa = setMRU_simps [OF a1] and sb = setMRU_simps [OF b']
  define a' where "a' = a1\<lparr>acache := (acache a1)(?k \<mapsto> f1)\<rparr>"
  have d: "demote a L L' = Ok a'" using assms(3) f a1 by (simp add: demote_def f'_def a'_def)
  have same: "alists a' M = alists (with_ent b' f'') M" "acache (with_ent a' e) = acache (with_ent b' f'')" for M
    using f by (auto simp: a'_def sa sb b_def f'_def fun_upd_twist)
  have "coherent (with_ent a' e)" using coh(1) coherent_cong [of "with_ent a' e" "with_ent b' f''"] same by auto
  moreover have "ghosts {ekey e} a \<longrightarrow> ghosts {ekey e} a'"
    using f assms(4) by (auto simp: ghosts_def a'_def sa f'_def)
  moreover have "settled {ekey e} a \<longrightarrow> settled {ekey e} a'" by (auto simp: settled_def a'_def sa)
  moreover have "dom (acache a') \<subseteq> dom (acache a)" using f by (auto simp: a'_def sa)
  moreover have "aview (with_ent a' e) \<subseteq>\<^sub>m aview (with_ent a e)"
    using f(1) by (auto simp: aview_def map_le_def a'_def sa f'_def)
  ultimately have "carries a e a' e" unfolding carries_def by (simp add: a'_def sa)
  moreover have "Len a' M = Len a M - bump (M = L) + bump (M = L')" for M
    using coh(2) [of M] same(1) f(3) by (auto simp: Len_def b_def f'_def bump_def)
  ultimately show ?thesis using d by blast
qed

lemma Len_pos: "0 < Len a L \<longleftrightarrow> alists a L \<noteq> []" "0 \<le> Len a L"
  by (simp_all add: Len_def)

lemma Len_ap [simp]: "Len (a\<lparr>ap := p\<rparr>) L = Len a L" "with_ent (a\<lparr>ap := p\<rparr>) e = (with_ent a e)\<lparr>ap := p\<rparr>"
  "coherent (a\<lparr>ap := p\<rparr>) = coherent a"
  by (simp_all add: Len_def with_ent_def coherent_def)

lemma arc_replace_ok:
  assumes "coherent (with_ent a e)" "ell e \<noteq> Some T1" "ell e \<noteq> Some T2"
    and "Len a T1 \<le> 0 \<or> Len a T1 \<le> ap a \<and> \<not> (ell e = Some B2 \<and> Len a T1 = ap a) \<Longrightarrow> 0 < Len a T2"
  shows "\<exists>a' L L'. arc_replace a e = Ok a' \<and> carries a e a' e \<and> 0 < Len a L \<and>
    (L = T1 \<and> L' = B1 \<or> L = T2 \<and> L' = B2) \<and> (\<forall>M. Len a' M = Len a M - bump (M = L) + bump (M = L'))"
proof (cases "Len a T1 > 0 \<and> (Len a T1 > ap a \<or> (ell e = Some B2 \<and> Len a T1 = ap a))")
  case True
  then show ?thesis using demote_ok [OF assms(1,2), of B1] by (auto simp: arc_replace_def Len_pos)
next
  case False
  then have "0 < Len a T2" using assms(4) by linarith
  then have "alists a T2 \<noteq> []" by (simp add: Len_pos)
  moreover have "arc_replace a e = demote a T2 B2" using False by (simp only: arc_replace_def if_False)
  ultimately show ?thesis using demote_ok [OF assms(1,3), of B2] by (auto simp: Len_pos)
qed

definition req_post :: "'v arc \<Rightarrow> 'v entry \<Rightarrow> 'v arc \<times> 'v entry \<Rightarrow> bool" where
  "req_post a e r \<longleftrightarrow> (\<exists>p. carries (a\<lparr>ap := p\<rparr>) e (fst r) (snd r)) \<and> sizes (fst r) \<and>
    (ell (snd r) = Some T1 \<or> ell (snd r) = Some T2)"

lemma req_resident:
  assumes "coherent (with_ent a e)" "sizes a" "ell e = Some T1 \<or> ell e = Some T2"
  shows "\<exists>r. req a e = Ok r \<and> req_post a e r"
proof -
  obtain a' e' where s: "setMRU a e T2 = (a', e')" by fastforce
  note m = setMRU_coherent(2) [OF assms(1) s] setMRU_simps [OF s]
  have "sizes a'" using assms(2,3) m(4,5) m(1) [of T1] m(1) [of T2] m(1) [of B1] m(1) [of B2]
    by (auto simp: sizes_def bump_def)
  moreover have "carries (a\<lparr>ap := ap a\<rparr>) e a' e'" using setMRU_carries [OF assms(1) s] by simp
  moreover have "ell e' = Some T2" by (simp add: m(6))
  ultimately have "req_post a e (a', e')" unfolding req_post_def fst_conv snd_conv by blast
  then show ?thesis using assms(3) s by (auto simp: req_def)
qed

lemma sizes_promote:
  assumes "sizes a" "0 \<le> p" "p \<le> ac a" "0 < Len a G" "G = B1 \<or> G = B2" "0 < Len a L"
    "L = T1 \<and> L' = B1 \<or> L = T2 \<and> L' = B2" "ac a' = ac a" "ap a' = p"
    "\<And>M. Len a' M = Len a M - bump (M = L) + bump (M = L') - bump (M = G) + bump (M = T2)"
  shows "sizes a'"
  using assms(1-9) assms(10) [of T1] assms(10) [of T2] assms(10) [of B1] assms(10) [of B2] Len_pos(2) [of a]
  by (auto simp: sizes_def bump_def)

lemma req_ghost:
  assumes "coherent (with_ent a e)" "sizes a" "ell e = Some G" "G = B1 \<or> G = B2" "0 \<le> p" "p \<le> ac a"
  shows "\<exists>a1 r. arc_replace (a\<lparr>ap := p\<rparr>) e = Ok a1 \<and> r = setMRU a1 e T2 \<and> req_post a e r"
proof -
  let ?a = "a\<lparr>ap := p\<rparr>"
  have "ekey e \<in> set (alists a G)" using coherentD(2) [OF assms(1), of "ekey e" G] assms(3) by simp
  then have G: "0 < Len a G" by (auto simp: Len_pos)
  then have full: "Len a T1 + Len a T2 = ac a" using assms(2,4) Len_pos(2) [of a B1] Len_pos(2) [of a B2] by (auto simp: sizes_def)
  have b1: "G = B1 \<Longrightarrow> 0 < Len a T2" using G full assms(2) by (auto simp: sizes_def)
  have "\<exists>a' L L'. arc_replace ?a e = Ok a' \<and> carries ?a e a' e \<and> 0 < Len ?a L \<and>
    (L = T1 \<and> L' = B1 \<or> L = T2 \<and> L' = B2) \<and> (\<forall>M. Len a' M = Len ?a M - bump (M = L) + bump (M = L'))"
    by (rule arc_replace_ok) (use assms full b1 in \<open>auto simp: sizes_def\<close>)
  then obtain a1 L L' where a1: "arc_replace ?a e = Ok a1" "carries ?a e a1 e" "0 < Len a L"
    "L = T1 \<and> L' = B1 \<or> L = T2 \<and> L' = B2" "\<And>M. Len a1 M = Len a M - bump (M = L) + bump (M = L')" by auto
  obtain a' e' where s: "setMRU a1 e T2 = (a', e')" by fastforce
  have coh: "coherent (with_ent a1 e)" using a1(2) by (simp add: carries_def)
  note m = setMRU_coherent(2) [OF coh s] setMRU_simps [OF s]
  have "ac a' = ac a" "ap a' = p" using a1(2) m(4,5) by (simp_all add: carries_def)
  moreover have "Len a' M = Len a M - bump (M = L) + bump (M = L') - bump (M = G) + bump (M = T2)" for M
    using m(1) [of M] a1(5) [of M] assms(3) by (cases "M = G") auto
  ultimately have "sizes a'" using sizes_promote [OF assms(2,5,6) G assms(4) a1(3,4)] by blast
  moreover have "carries ?a e a' e'" using carries_trans [OF a1(2) setMRU_carries [OF coh s]] .
  moreover have "ell e' = Some T2" by (simp add: m(6))
  ultimately have "req_post a e (a', e')" unfolding req_post_def fst_conv snd_conv by blast
  then show ?thesis using a1(1) s by auto
qed

lemma sizes_new:
  assumes "sizes a" "ac a' = ac a" "ap a' = ap a"
    and "\<And>M. Len a' M = Len a M - bump (Some M = del) - bump (Some M = L) + bump (Some M = L') + bump (M = T1)"
    and "L = Some T1 \<and> L' = Some B1 \<or> L = Some T2 \<and> L' = Some B2 \<or> L = None \<and> L' = None"
    and "del = Some B1 \<and> L \<noteq> None \<and> Len a T1 + Len a B1 = ac a \<or>
      del = Some T1 \<and> L = None \<and> Len a T1 = ac a \<or>
      del = Some B2 \<and> L \<noteq> None \<and> Len a T1 + Len a B1 < ac a \<or>
      del = None \<and> L \<noteq> None \<and> Len a T1 + Len a B1 < ac a \<and> Len a T1 + Len a T2 + Len a B1 + Len a B2 < 2 * ac a \<and> ac a \<le> Len a T1 + Len a T2 + Len a B1 + Len a B2 \<or>
      del = None \<and> L = None \<and> Len a T1 + Len a T2 + Len a B1 + Len a B2 < ac a"
  shows "sizes a'"
  using assms(1-3) assms(5,6) assms(4) [of T1] assms(4) [of T2] assms(4) [of B1] assms(4) [of B2]
    Len_pos(2) [of a T1] Len_pos(2) [of a T2] Len_pos(2) [of a B1] Len_pos(2) [of a B2]
  by (elim disjE) (auto simp: sizes_def bump_def)

definition room_post :: "'v arc \<Rightarrow> 'v entry \<Rightarrow> 'v arc \<Rightarrow> bool" where
  "room_post a e a1 \<longleftrightarrow> carries a e a1 e \<and>
    (\<forall>a' :: 'v arc. ac a' = ac a \<longrightarrow> ap a' = ap a \<longrightarrow> (\<forall>M. Len a' M = Len a1 M + bump (M = T1)) \<longrightarrow> sizes a')"

lemma room_replace:
  fixes a :: "'v arc"
  assumes "coherent (with_ent a1 e)" "ell e = None" "carries a e a1 e" "sizes a" "0 < Len a1 T2"
    "\<And>M. Len a1 M = Len a M - bump (Some M = del)"
    "del = Some B1 \<and> Len a T1 + Len a B1 = ac a \<or> del = Some B2 \<and> Len a T1 + Len a B1 < ac a \<or>
      del = None \<and> Len a T1 + Len a B1 < ac a \<and> Len a T1 + Len a T2 + Len a B1 + Len a B2 < 2 * ac a \<and> ac a \<le> Len a T1 + Len a T2 + Len a B1 + Len a B2"
  shows "\<exists>a2. arc_replace a1 e = Ok a2 \<and> room_post a e a2"
proof -
  obtain a2 L L' where a2: "arc_replace a1 e = Ok a2" "carries a1 e a2 e"
    "L = T1 \<and> L' = B1 \<or> L = T2 \<and> L' = B2" "\<And>M. Len a2 M = Len a1 M - bump (M = L) + bump (M = L')"
    using arc_replace_ok [of a1 e] assms(1,2,5) by auto
  have "room_post a e a2" unfolding room_post_def
  proof (intro conjI allI impI)
    show "carries a e a2 e" using carries_trans [OF assms(3) a2(2)] .
    show "sizes a'" if "ac a' = ac a" "ap a' = ap a" "\<forall>M. Len a' M = Len a2 M + bump (M = T1)" for a' :: "'v arc"
      by (rule sizes_new [OF assms(4) that(1,2), of del "Some L" "Some L'"]) (use that(3) a2(3,4) assms(6,7) in auto)
  qed
  then show ?thesis using a2(1) by blast
qed

lemma req_new:
  fixes a :: "'v arc"
  assumes "coherent (with_ent a e)" "sizes a" "ell e = None"
  shows "\<exists>r. req a e = Ok r \<and> req_post a e r"
proof -
  let ?total = "Len a T1 + Len a T2 + Len a B1 + Len a B2"
  let ?room = "if Len a T1 + Len a B1 = ac a then
      if Len a T1 < ac a then bind_result (delLRU a B1) (\<lambda>a1. arc_replace a1 e) else delLRU a T1
    else if Len a T1 + Len a B1 < ac a then
      if ?total \<ge> ac a then bind_result (if ?total = 2 * ac a then delLRU a B2 else Ok a) (\<lambda>a1. arc_replace a1 e) else Ok a
    else Ok a"
  note nn = Len_pos(2) [of a T1] Len_pos(2) [of a T2] Len_pos(2) [of a B1] Len_pos(2) [of a B2]
  have self: "carries a e a e" using assms(1) by (simp add: carries_def)
  have coh: "coherent (with_ent a1 e)" if "carries a e a1 e" for a1 using that by (simp add: carries_def)
  have del: "\<exists>a1. delLRU a L = Ok a1 \<and> carries a e a1 e \<and> (\<forall>M. Len a1 M = Len a M - bump (Some M = Some L))"
    if "0 < Len a L" for L using delLRU_ok [OF assms(1,3)] that by (auto simp: Len_pos)
  have "\<exists>a1. ?room = Ok a1 \<and> room_post a e a1"
  proof -
    consider (A1) "Len a T1 + Len a B1 = ac a" "Len a T1 < ac a" | (A2) "Len a T1 + Len a B1 = ac a" "Len a T1 = ac a"
      | (B1) "Len a T1 + Len a B1 < ac a" "?total = 2 * ac a" | (B2) "Len a T1 + Len a B1 < ac a" "?total < 2 * ac a" "ac a \<le> ?total"
      | (B3) "Len a T1 + Len a B1 < ac a" "?total < ac a"
      using assms(2) nn by (cases "Len a T1 + Len a B1 = ac a"; cases "?total = 2 * ac a"; cases "?total < ac a")
        (auto simp: sizes_def order_less_le)
    then show ?thesis
    proof cases
      case A1
      have t2: "0 < Len a T2" "0 < Len a B1" using A1 assms(2) nn by (auto simp: sizes_def)
      obtain a1 where "delLRU a B1 = Ok a1" "carries a e a1 e" "\<forall>M. Len a1 M = Len a M - bump (Some M = Some B1)"
        using del [OF t2(2)] by blast
      then show ?thesis using room_replace [OF coh assms(3) _ assms(2), of a1 "Some B1"] A1 t2 by simp
    next
      case A2
      then have "0 < Len a T1" using assms(2) by (simp add: sizes_def)
      then obtain a1 where a1: "delLRU a T1 = Ok a1" "carries a e a1 e" "\<forall>M. Len a1 M = Len a M - bump (Some M = Some T1)"
        using del by blast
      have "sizes a'" if "ac a' = ac a" "ap a' = ap a" "\<forall>M. Len a' M = Len a1 M + bump (M = T1)" for a' :: "'v arc"
        by (rule sizes_new [OF assms(2) that(1,2), of "Some T1" None None]) (use that(3) a1(3) A2 in auto)
      then show ?thesis using A2 a1 by (simp add: room_post_def)
    next
      case B1
      have t2: "0 < Len a T2" "0 < Len a B2" "ac a \<le> ?total" using B1 assms(2) nn by (auto simp: sizes_def)
      obtain a1 where "delLRU a B2 = Ok a1" "carries a e a1 e" "\<forall>M. Len a1 M = Len a M - bump (Some M = Some B2)"
        using del [OF t2(2)] by blast
      then show ?thesis using room_replace [OF coh assms(3) _ assms(2), of a1 "Some B2"] B1 t2 by simp
    next
      case B2
      have "0 < Len a T2" using B2 assms(2) nn by (auto simp: sizes_def)
      then show ?thesis using room_replace [OF coh assms(3) self assms(2), of None] self B2 by simp
    next
      case B3
      have "sizes a'" if "ac a' = ac a" "ap a' = ap a" "\<forall>M. Len a' M = Len a M + bump (M = T1)" for a' :: "'v arc"
        by (rule sizes_new [OF assms(2) that(1,2), of None None None]) (use that(3) B3 in auto)
      then show ?thesis using B3 self by (simp add: room_post_def)
    qed
  qed
  then obtain a1 where a1: "?room = Ok a1" "room_post a e a1" by blast
  then have c1: "carries a e a1 e" by (simp add: room_post_def)
  obtain a' e' where s: "setMRU a1 e T1 = (a', e')" by fastforce
  note m = setMRU_coherent(2) [OF coh [OF c1] s] setMRU_simps [OF s]
  have "ac a' = ac a" "ap a' = ap a" using c1 m(4,5) by (simp_all add: carries_def)
  then have "sizes a'" using a1(2) m(1) assms(3) by (simp add: room_post_def)
  moreover have "carries (a\<lparr>ap := ap a\<rparr>) e a' e'" using carries_trans [OF c1 setMRU_carries [OF coh [OF c1] s]] by simp
  moreover have "ell e' = Some T1" by (simp add: m(6))
  ultimately have "req_post a e (a', e')" unfolding req_post_def fst_conv snd_conv by blast
  moreover have "req a e = Ok (a', e')" unfolding req_def using assms(3) a1(1) s by (simp only: option.case Let_def bind_result.simps)
  ultimately show ?thesis by blast
qed

lemma req_ok:
  assumes "coherent (with_ent a e)" "sizes a"
  shows "\<exists>r. req a e = Ok r \<and> req_post a e r"
proof (cases "ell e")
  case None
  then show ?thesis using req_new [OF assms] by blast
next
  case (Some G)
  have mem: "0 < Len a G" using coherentD(2) [OF assms(1), of "ekey e" G] Some by (auto simp: Len_pos)
  have div: "\<exists>d\<ge>0. (if Len a X \<ge> Len a Y then Ok 1 else go_div (Len a Y) (Len a X)) = Ok d" if "0 < Len a X" for X Y
    using that Len_pos(2) [of a Y] by (auto simp: go_div_def pos_imp_zdiv_nonneg_iff)
  have p: "0 < ac a" "0 \<le> ap a" "ap a \<le> ac a" using assms(2) by (auto simp: sizes_def)
  show ?thesis
  proof (cases G)
    case B1
    obtain d where d: "d \<ge> 0" "(if Len a B1 \<ge> Len a B2 then Ok 1 else go_div (Len a B2) (Len a B1)) = Ok d"
      using div mem B1 by blast
    show ?thesis using req_ghost [OF assms Some, of "if ap a + d > ac a then ac a else ap a + d"] B1 d(1) p
      unfolding req_def Some B1 d(2) by (auto simp: Let_def d(2) simp del: split_paired_Ex)
  next
    case B2
    obtain d where d: "d \<ge> 0" "(if Len a B2 \<ge> Len a B1 then Ok 1 else go_div (Len a B1) (Len a B2)) = Ok d"
      using div mem B2 by blast
    show ?thesis using req_ghost [OF assms Some, of "if ap a - d < 0 then 0 else ap a - d"] B2 d(1) p
      unfolding req_def Some B2 d(2) by (auto simp: Let_def d(2) simp del: split_paired_Ex)
  qed (use Some req_resident [OF assms] in auto)
qed

lemma coherent_with_ent:
  assumes "coherent a" "ekey e = k" "case acache a k of None \<Rightarrow> ell e = None | Some f \<Rightarrow> ell e = ell f"
  shows "coherent (with_ent a e)"
  unfolding coherent_def
proof (intro conjI allI impI)
  note c = coherentD [OF assms(1)]
  show "distinct (alists (with_ent a e) M)" for M using c(1) by simp
  show "x \<in> set (alists (with_ent a e) M) \<longleftrightarrow> (\<exists>g. acache (with_ent a e) x = Some g \<and> ell g = Some M)" for x M
    using c(2) [of x M] assms(2,3) by (cases "x = k"; cases "acache a k") simp_all
  show "ekey g = x" if "acache (with_ent a e) x = Some g" for x g
    using that c(3) [of x g] by (auto split: if_splits)
qed

text \<open>One access: the entry is looked up or made, requested, and written to its place.\<close>

lemma access_ok:
  assumes inv: "arc_inv a" and e: "ekey e = k" "case acache a k of None \<Rightarrow> ell e = None | Some f \<Rightarrow> ell e = ell f"
  shows "\<exists>a1 e1. req a e = Ok (a1, e1) \<and> ekey e1 = k \<and> evalue e1 = evalue e \<and> arc_inv (with_ent a1 e1) \<and>
    aview (with_ent a1 e1) \<subseteq>\<^sub>m (aview a)(k := evalue e) \<and> ac (with_ent a1 e1) = ac a"
proof -
  have coh: "coherent (with_ent a e)" using coherent_with_ent inv e by (auto simp: arc_inv_def)
  then obtain a1 e1 where r: "req a e = Ok (a1, e1)" "req_post a e (a1, e1)"
    using req_ok [OF coh] inv by (auto simp: arc_inv_def)
  then obtain p where c: "carries (a\<lparr>ap := p\<rparr>) e a1 e1" "sizes a1" "ell e1 = Some T1 \<or> ell e1 = Some T2"
    by (auto simp: req_post_def)
  have "ghosts {k} (a\<lparr>ap := p\<rparr>)" "settled {k} (a\<lparr>ap := p\<rparr>)"
    using inv unfolding arc_inv_def ghosts_def settled_def by simp_all
  then have g: "ghosts {k} a1" "settled {k} a1" using c(1) e(1) unfolding carries_def by simp_all
  have k: "ekey e1 = k" "evalue e1 = evalue e" "coherent (with_ent a1 e1)" "ac a1 = ac a"
    using c(1) e(1) by (simp_all add: carries_def)
  have "ghosts {} (with_ent a1 e1)" "settled {} (with_ent a1 e1)"
    using g c(3) k(1) by (auto simp: ghosts_def settled_def split: if_splits)
  moreover have "sizes (with_ent a1 e1)" using c(2) unfolding sizes_def with_ent_simps .
  moreover have av: "aview (with_ent (a\<lparr>ap := p\<rparr>) e) = (aview a)(k := evalue e)"
    using e(1) by (intro HOL.ext) (simp add: aview_def)
  moreover have "aview (with_ent a1 e1) \<subseteq>\<^sub>m (aview a)(k := evalue e)" using c(1) unfolding carries_def av by simp
  ultimately show ?thesis using r(1) k unfolding arc_inv_def by simp
qed

lemma arc_Put_ok:
  assumes "arc_inv a"
  shows "\<exists>a'. arc_Put a k v = Ok (a', acache a k \<noteq> None) \<and> arc_inv a' \<and> aview a' k = v \<and>
    aview a' \<subseteq>\<^sub>m (aview a)(k := v) \<and> ac a' = ac a"
proof (cases "acache a k")
  case None
  obtain a1 e1 where "req a \<lparr>ekey = k, evalue = v, ell = None\<rparr> = Ok (a1, e1)" "ekey e1 = k" "evalue e1 = v"
    "arc_inv (with_ent a1 e1)" "aview (with_ent a1 e1) \<subseteq>\<^sub>m (aview a)(k := v)" "ac (with_ent a1 e1) = ac a"
    using access_ok [OF assms, of "\<lparr>ekey = k, evalue = v, ell = None\<rparr>" k] None by auto
  then show ?thesis using None by (auto simp: arc_Put_def with_ent_def aview_def)
next
  case (Some e)
  then have "ekey e = k" using assms by (auto simp: arc_inv_def coherent_def)
  then obtain a1 e1 where "req a (e\<lparr>evalue := v\<rparr>) = Ok (a1, e1)" "ekey e1 = k" "evalue e1 = v"
    "arc_inv (with_ent a1 e1)" "aview (with_ent a1 e1) \<subseteq>\<^sub>m (aview a)(k := v)" "ac (with_ent a1 e1) = ac a"
    using access_ok [OF assms, of "e\<lparr>evalue := v\<rparr>" k] Some by auto
  then show ?thesis using Some by (auto simp: arc_Put_def with_ent_def aview_def)
qed

lemma arc_Get_ok:
  assumes "arc_inv a"
  shows "\<exists>a'. arc_Get a k = Ok (a', aview a k) \<and> arc_inv a' \<and> aview a' \<subseteq>\<^sub>m aview a \<and> aview a' k = aview a k \<and> ac a' = ac a"
proof (cases "acache a k")
  case None
  then show ?thesis using assms by (simp add: arc_Get_def aview_def)
next
  case (Some e)
  then have "ekey e = k" using assms by (auto simp: arc_inv_def coherent_def)
  moreover have "(aview a)(k := evalue e) = aview a" using Some by (auto simp: aview_def)
  ultimately obtain a1 e1 where "req a e = Ok (a1, e1)" "ekey e1 = k" "evalue e1 = evalue e"
    "arc_inv (with_ent a1 e1)" "aview (with_ent a1 e1) \<subseteq>\<^sub>m aview a" "ac (with_ent a1 e1) = ac a"
    using access_ok [OF assms, of e k] Some by auto
  then show ?thesis using Some by (auto simp: arc_Get_def with_ent_def aview_def)
qed

lemma newARC_inv: "0 < c \<Longrightarrow> arc_inv (newARC c)"
  by (simp add: arc_inv_def newARC_def coherent_def ghosts_def settled_def sizes_def Len_def)

lemma aview_resident:
  assumes "arc_inv a" "aview a k = Some v"
  shows "k \<in> set (alists a T1) \<union> set (alists a T2)"
proof -
  obtain e where e: "acache a k = Some e" "evalue e = Some v" using assms(2) by (auto simp: aview_def split: option.splits)
  then have "ell e \<noteq> Some B1" "ell e \<noteq> Some B2" "ell e \<noteq> None"
    using assms(1) by (auto simp: arc_inv_def ghosts_def settled_def)
  then have "ell e = Some T1 \<or> ell e = Some T2" using lname.exhaust by (cases "ell e") auto
  then show ?thesis using e(1) coherentD(2) [of a k] assms(1) by (auto simp: arc_inv_def)
qed

lemma arc_bounded:
  assumes "arc_inv a"
  shows "finite {k. aview a k \<noteq> None}" "int (card {k. aview a k \<noteq> None}) \<le> ac a"
proof -
  have sub: "{k. aview a k \<noteq> None} \<subseteq> set (alists a T1 @ alists a T2)" using aview_resident [OF assms] by auto
  then show "finite {k. aview a k \<noteq> None}" by (rule finite_subset) simp
  have "card {k. aview a k \<noteq> None} \<le> length (alists a T1 @ alists a T2)"
    using card_mono [OF finite_set sub] card_length order_trans by blast
  then show "int (card {k. aview a k \<noteq> None}) \<le> ac a" using assms by (auto simp: arc_inv_def sizes_def Len_def)
qed

section \<open>The cache contract\<close>

text \<open>What the trie relies on: a lossy map. A lookup answers from the current contents, and an
  operation may forget entries but never makes one up.\<close>

locale lossy_cache =
  fixes get :: "'c \<Rightarrow> bytes \<Rightarrow> (unit, 'c \<times> 'v option) result"
    and put :: "'c \<Rightarrow> bytes \<Rightarrow> 'v option \<Rightarrow> (unit, 'c \<times> bool) result"
    and contents :: "'c \<Rightarrow> bytes \<Rightarrow> 'v option"
    and ok :: "'c \<Rightarrow> bool"
  assumes get: "ok c \<Longrightarrow> \<exists>c'. get c k = Ok (c', contents c k) \<and> ok c' \<and> contents c' \<subseteq>\<^sub>m contents c"
    and put: "ok c \<Longrightarrow> \<exists>c' b. put c k v = Ok (c', b) \<and> ok c' \<and> contents c' \<subseteq>\<^sub>m (contents c)(k := v)"

text \<open>Reading through a cache: the body of \<open>resolveHash\<close>, with the lookup in the database and the
  decoding of what it returns as \<open>load\<close>.\<close>

definition read_through ::
  "('c \<Rightarrow> bytes \<Rightarrow> (unit, 'c \<times> 'v option) result) \<Rightarrow> ('c \<Rightarrow> bytes \<Rightarrow> 'v option \<Rightarrow> (unit, 'c \<times> bool) result) \<Rightarrow>
   (bytes \<Rightarrow> (unit, 'v option) result) \<Rightarrow> 'c \<Rightarrow> bytes \<Rightarrow> (unit, 'c \<times> 'v option) result" where
  "read_through get put load c k =
    bind_result (get c k) (\<lambda>(c1, r).
      case r of
        Some v \<Rightarrow> Ok (c1, Some v)
      | None \<Rightarrow>
          bind_result (load k) (\<lambda>dec.
            case dec of
              None \<Rightarrow> Ok (c1, None)
            | Some v \<Rightarrow> bind_result (put c1 k dec) (\<lambda>(c2, _). Ok (c2, dec))))"

definition answers :: "('k \<Rightarrow> 'v option) \<Rightarrow> ('k \<Rightarrow> (unit, 'v option) result) \<Rightarrow> bool" where
  "answers m load \<longleftrightarrow> (\<forall>k v. m k = Some v \<longrightarrow> load k = Ok (Some v))"

lemma answers_le: "answers m load \<Longrightarrow> m' \<subseteq>\<^sub>m m \<Longrightarrow> answers m' load"
  unfolding answers_def map_le_def by (metis domI)

context lossy_cache
begin

lemma read_through_hit_or_load:
  assumes "ok c" "answers (contents c) load"
  shows "read_through get put load c k = Panic p \<longleftrightarrow> load k = Panic p"
    and "read_through get put load c k = Err u \<longleftrightarrow> load k = Err u"
    and "(\<exists>c'. read_through get put load c k = Ok (c', r) \<and> ok c' \<and> answers (contents c') load) \<longleftrightarrow> load k = Ok r"
proof -
  obtain c1 where g: "get c k = Ok (c1, contents c k)" "ok c1" "contents c1 \<subseteq>\<^sub>m contents c" using get [OF assms(1)] by blast
  have a1: "answers (contents c1) load" using answers_le [OF assms(2) g(3)] .
  have hit: "load k = Ok (Some v)" if "contents c k = Some v" for v using assms(2) that by (simp add: answers_def)
  have miss: "\<exists>c2 b. put c1 k (Some v) = Ok (c2, b) \<and> ok c2 \<and> answers (contents c2) load" if "load k = Ok (Some v)" for v
  proof -
    obtain c2 b where "put c1 k (Some v) = Ok (c2, b)" "ok c2" "contents c2 \<subseteq>\<^sub>m (contents c1)(k := Some v)"
      using put [OF g(2)] by blast
    moreover have "answers ((contents c1)(k := Some v)) load" using a1 that by (simp add: answers_def)
    ultimately show ?thesis using answers_le by blast
  qed
  have eq: "\<exists>c'. read_through get put load c k = bind_result (load k) (\<lambda>r. Ok (c', r)) \<and> ok c' \<and> answers (contents c') load"
  proof (cases "contents c k")
    case (Some v)
    then have "read_through get put load c k = bind_result (load k) (\<lambda>r. Ok (c1, r))" using g(1) hit by (simp add: read_through_def)
    then show ?thesis using g(2) a1 by blast
  next
    case None
    show ?thesis
    proof (cases "\<exists>v. load k = Ok (Some v)")
      case True
      then obtain v c2 b where "load k = Ok (Some v)" "put c1 k (Some v) = Ok (c2, b)" "ok c2" "answers (contents c2) load"
        using miss by blast
      then have "read_through get put load c k = bind_result (load k) (\<lambda>r. Ok (c2, r))" using g(1) None by (simp add: read_through_def)
      then show ?thesis using \<open>ok c2\<close> \<open>answers (contents c2) load\<close> by blast
    next
      case False
      then have "read_through get put load c k = bind_result (load k) (\<lambda>r. Ok (c1, r))"
        using g(1) None by (cases "load k") (auto simp: read_through_def split: option.split)
      then show ?thesis using g(2) a1 by blast
    qed
  qed
  then obtain c' where c': "read_through get put load c k = bind_result (load k) (\<lambda>r. Ok (c', r))" "ok c'" "answers (contents c') load" by blast
  show "read_through get put load c k = Panic p \<longleftrightarrow> load k = Panic p"
    "read_through get put load c k = Err u \<longleftrightarrow> load k = Err u"
    "(\<exists>c'. read_through get put load c k = Ok (c', r) \<and> ok c' \<and> answers (contents c') load) \<longleftrightarrow> load k = Ok r"
    unfolding c'(1) using c'(2,3) by (cases "load k"; simp)+
qed

end

interpretation arc: lossy_cache arc_Get arc_Put aview arc_inv
proof
  show "\<exists>a'. arc_Get a k = Ok (a', aview a k) \<and> arc_inv a' \<and> aview a' \<subseteq>\<^sub>m aview a" if "arc_inv a" for a :: "'a arc" and k
    using arc_Get_ok [OF that] by blast
  show "\<exists>a' b. arc_Put a k v = Ok (a', b) \<and> arc_inv a' \<and> aview a' \<subseteq>\<^sub>m (aview a)(k := v)" if "arc_inv a" for a :: "'a arc" and k v
    using arc_Put_ok [OF that] by blast
qed

section \<open>Runs\<close>

datatype 'v cop = CPut bytes "'v option" | CGet bytes

fun arc_run :: "'v arc \<Rightarrow> 'v cop list \<Rightarrow> (unit, 'v arc \<times> 'v option list) result" where
  "arc_run a [] = Ok (a, [])"
| "arc_run a (CPut k v # ops) = bind_result (arc_Put a k v) (\<lambda>(a1, _). arc_run a1 ops)"
| "arc_run a (CGet k # ops) =
    bind_result (arc_Get a k) (\<lambda>(a1, r). bind_result (arc_run a1 ops) (\<lambda>(a2, rs). Ok (a2, r # rs)))"

text \<open>The answers a lossy map may give: nothing, or the value put last.\<close>

fun lossy_answers :: "(bytes \<Rightarrow> 'v option) \<Rightarrow> 'v cop list \<Rightarrow> 'v option list \<Rightarrow> bool" where
  "lossy_answers m [] outs \<longleftrightarrow> outs = []"
| "lossy_answers m (CPut k v # ops) outs \<longleftrightarrow> lossy_answers (m(k := v)) ops outs"
| "lossy_answers m (CGet k # ops) outs \<longleftrightarrow>
    (case outs of [] \<Rightarrow> False | r # rs \<Rightarrow> (r = None \<or> r = m k) \<and> lossy_answers m ops rs)"

lemma arc_run_correct:
  assumes "arc_inv a" "aview a \<subseteq>\<^sub>m m"
  shows "\<exists>a' outs. arc_run a ops = Ok (a', outs) \<and> lossy_answers m ops outs \<and> arc_inv a' \<and> ac a' = ac a"
  using assms
proof (induction ops arbitrary: a m)
  case (Cons opn ops)
  show ?case
  proof (cases opn)
    case (CPut k v)
    obtain a1 where a1: "arc_Put a k v = Ok (a1, acache a k \<noteq> None)" "arc_inv a1" "aview a1 \<subseteq>\<^sub>m (aview a)(k := v)" "ac a1 = ac a"
      using arc_Put_ok [OF Cons.prems(1)] by blast
    have "(aview a)(k := v) \<subseteq>\<^sub>m m(k := v)" using Cons.prems(2) by (auto simp: map_le_def)
    then have "aview a1 \<subseteq>\<^sub>m m(k := v)" using a1(3) map_le_trans by blast
    from Cons.IH [OF a1(2) this] obtain a' outs where
      "arc_run a1 ops = Ok (a', outs)" "lossy_answers (m(k := v)) ops outs" "arc_inv a'" "ac a' = ac a1" by blast
    then show ?thesis using a1(1,4) CPut by simp
  next
    case (CGet k)
    obtain a1 where a1: "arc_Get a k = Ok (a1, aview a k)" "arc_inv a1" "aview a1 \<subseteq>\<^sub>m aview a" "ac a1 = ac a"
      using arc_Get_ok [OF Cons.prems(1)] by blast
    have "aview a1 \<subseteq>\<^sub>m m" using a1(3) Cons.prems(2) map_le_trans by blast
    from Cons.IH [OF a1(2) this] obtain a' outs where r: "arc_run a1 ops = Ok (a', outs)" "lossy_answers m ops outs" "arc_inv a'" "ac a' = ac a1"
      by blast
    have "aview a k = None \<or> aview a k = m k" using Cons.prems(2) by (metis domIff map_le_def)
    then show ?thesis using r a1(1,4) CGet by simp
  qed
qed simp

lemma arc_run_append:
  "arc_run a (ops1 @ ops2) =
    bind_result (arc_run a ops1) (\<lambda>(a1, o1). bind_result (arc_run a1 ops2) (\<lambda>(a2, o2). Ok (a2, o1 @ o2)))"
proof (induction ops1 arbitrary: a)
  case Nil
  then show ?case by (cases "arc_run a ops2") auto
next
  case (Cons opn ops1)
  have assoc: "bind_result (bind_result r f) g = bind_result r (\<lambda>x. bind_result (f x) g)"
    for r :: "('e, 'x) result" and f :: "'x \<Rightarrow> ('e, 'y) result" and g :: "'y \<Rightarrow> ('e, 'z) result" by (cases r) auto
  show ?case by (cases opn) (auto simp: Cons.IH assoc split_def)
qed

text \<open>C11. The cache of a positive capacity \<open>c\<close> never panics: any sequence of \<open>Put\<close> and \<open>Get\<close> on a
  new cache runs to its end. Every \<open>Get\<close> answers nothing or the value put last under its key,
  at most \<open>c\<close> values are held at the end, the bookkeeping of the four lists stays bounded by
  \<open>2c\<close> keys, and a \<open>Get\<close> right after a \<open>Put\<close> finds the value.\<close>

theorem arc_is_a_bounded_lossy_map:
  fixes v :: "'v option"
  assumes "0 < c"
  shows "\<exists>a outs. arc_run (newARC c) (ops @ [CPut k v, CGet k]) = Ok (a, outs) \<and> lossy_answers (\<lambda>_. None) (ops @ [CPut k v, CGet k]) outs \<and>
    last outs = v \<and> int (card {k. aview a k \<noteq> None}) \<le> c \<and> Len a T1 + Len a T2 + Len a B1 + Len a B2 \<le> 2 * c"
proof -
  let ?n = "newARC c :: 'v arc"
  have n: "arc_inv ?n" "aview ?n \<subseteq>\<^sub>m (\<lambda>_. None)" "ac ?n = c"
    using newARC_inv [OF assms] by (simp_all add: newARC_def aview_def map_le_def dom_def)
  obtain a1 o1 where a1: "arc_run ?n ops = Ok (a1, o1)" "arc_inv a1" using arc_run_correct [OF n(1,2)] by blast
  obtain a2 where a2: "arc_Put a1 k v = Ok (a2, acache a1 k \<noteq> None)" "arc_inv a2" "aview a2 k = v" using arc_Put_ok [OF a1(2)] by blast
  obtain a3 where a3: "arc_Get a2 k = Ok (a3, v)" using arc_Get_ok [OF a2(2), of k] a2(3) by auto
  have run: "arc_run ?n (ops @ [CPut k v, CGet k]) = Ok (a3, o1 @ [v])" by (simp add: arc_run_append a1(1) a2(1) a3)
  then have "lossy_answers (\<lambda>_. None) (ops @ [CPut k v, CGet k]) (o1 @ [v])" "arc_inv a3" "ac a3 = c"
    using arc_run_correct [OF n(1,2), of "ops @ [CPut k v, CGet k]"] n(3) by auto
  then show ?thesis using run arc_bounded(2) [of a3] by (auto simp: arc_inv_def sizes_def)
qed

theorem arc_is_a_bounded_lossy_map_witness:
  "\<exists>a outs. arc_run (newARC 2) ([CPut [1] (Some True), CGet [1], CPut [2] (Some False)] @ [CPut [3] (Some True), CGet [3]]) = Ok (a, outs) \<and>
    last outs = Some True \<and> int (card {k. aview a k \<noteq> None}) \<le> 2"
  using arc_is_a_bounded_lossy_map [of 2 "[CPut [1] (Some True), CGet [1], CPut [2] (Some False)]" "[3]" "Some True"] by auto

end
