(* ===== verification/Trie_Node.thy ===== *)
theory Trie_Node
  imports Trie_Core Arc_Cache
begin

text \<open>
  Trie nodes in the database: the decoder of \<open>trie/node.go\<close>, the hasher of \<open>trie/trie.go\<close> with
  the collapsed form in which nodes are stored, and the trie object on top of a database
  (\<open>New\<close>, \<open>Get\<close>, \<open>Update\<close>, \<open>Delete\<close>, \<open>Hash\<close>, \<open>CommitTo\<close>). The hash function is the parameter \<open>sha\<close>.
\<close>

section \<open>Decoding nodes\<close>

text \<open>A decode error carries the path on which it occurred (\<open>wrapError\<close>).\<close>

datatype node_error_what =
    NodeEOF
  | NodeNotList rlp_error
  | NodeBadCount nat
  | NodeRlp rlp_error
  | NodeInvalidValue rlp_error
  | NodeOversized nat
  | NodeBadStringSize nat

type_synonym node_error = "node_error_what \<times> string list"

definition wrapError :: "(node_error, 'a) result \<Rightarrow> string \<Rightarrow> (node_error, 'a) result" where
  "wrapError r ctx = (case r of Err (w, stack) \<Rightarrow> Err (w, stack @ [ctx]) | _ \<Rightarrow> r)"

definition wrapErrorF :: "(node_error, 'a) result option \<Rightarrow> string \<Rightarrow> (node_error, 'a) result option" where
  "wrapErrorF m ctx = map_option (\<lambda>r. wrapError r ctx) m"

definition indices :: "string list" where
  "indices = [''0'', ''1'', ''2'', ''3'', ''4'', ''5'', ''6'', ''7'', ''8'', ''9'', ''10'', ''11'', ''12'', ''13'', ''14'', ''15'']"

type_synonym 'a ndec = "bytes \<Rightarrow> (node_error, 'a) result option"

definition decodeRef :: "node ndec \<Rightarrow> (node \<times> bytes) ndec" where
  "decodeRef dn buf =
    fbind (Some (map_err (\<lambda>e. (NodeRlp e, [])) (Split buf))) (\<lambda>(k, val, rest).
      if k = List then
        let size = length buf - length rest in
        if size > 32 then Some (Err (NodeOversized size, []))
        else fbind (dn buf) (\<lambda>n. Some (Ok (n, rest)))
      else if k = String \<and> length val = 0 then Some (Ok (nilNode, rest))
      else if k = String \<and> length val = 32 then Some (Ok (hashNode val, rest))
      else Some (Err (NodeBadStringSize (length val), [])))"

definition decodeShort :: "(node \<times> bytes) ndec \<Rightarrow> node ndec" where
  "decodeShort dr buf =
    fbind (Some (map_err (\<lambda>e. (NodeRlp e, [])) (SplitString buf))) (\<lambda>(kbuf, rest).
    fbind (Some (compactDecode kbuf)) (\<lambda>key.
    if key = [] then Some (Panic IndexOutOfRange)
    else if last key = 16 then
      fbind (Some (map_err (\<lambda>e. (NodeInvalidValue e, [])) (SplitString rest))) (\<lambda>(val, _).
      Some (Ok (shortNode key (valueNode val))))
    else fbind (wrapErrorF (dr rest) ''val'') (\<lambda>(r, _). Some (Ok (shortNode key r)))))"

text \<open>The loop of \<open>decodeFull\<close> over the sixteen children.\<close>

fun decodeFull_loop :: "(node \<times> bytes) ndec \<Rightarrow> string list \<Rightarrow> bytes \<Rightarrow> node list \<Rightarrow> (node_error, node list \<times> bytes) result option" where
  "decodeFull_loop dr [] buf n = Some (Ok (n, buf))"
| "decodeFull_loop dr (i # is) buf n =
    fbind (wrapErrorF (dr buf) (''['' @ i @ '']'')) (\<lambda>(cld, rest). decodeFull_loop dr is rest (n @ [cld]))"

definition decodeFull :: "(node \<times> bytes) ndec \<Rightarrow> node ndec" where
  "decodeFull dr buf =
    fbind (decodeFull_loop dr indices buf []) (\<lambda>(n, buf').
    fbind (Some (map_err (\<lambda>e. (NodeRlp e, [])) (SplitString buf'))) (\<lambda>(val, _).
    Some (Ok (fullNode (n @ [if length val > 0 then valueNode val else nilNode])))))"

text \<open>\<open>decodeNode\<close> and \<open>decodeRef\<close> call each other on ever shorter slices; the fuel is the depth.\<close>

fun decodeNode :: "nat \<Rightarrow> node ndec" where
  "decodeNode 0 buf = None"
| "decodeNode (Suc f) buf =
    (if length buf = 0 then Some (Err (NodeEOF, []))
     else fbind (Some (map_err (\<lambda>e. (NodeNotList e, [])) (SplitList buf))) (\<lambda>(elems, _).
       case CountValues elems of
         None \<Rightarrow> None
       | Some (Panic p) \<Rightarrow> Some (Panic p)
       | Some r \<Rightarrow>
           let c = (case r of Ok c \<Rightarrow> c | _ \<Rightarrow> 0) in
           if c = 2 then wrapErrorF (decodeShort (decodeRef (decodeNode f)) elems) ''short''
           else if c = 17 then wrapErrorF (decodeFull (decodeRef (decodeNode f)) elems) ''full''
           else Some (Err (NodeBadCount c, []))))"

declare decodeNode.simps(2) [simp del]

definition mustDecodeNode :: "bytes \<Rightarrow> (unit, node) result" where
  "mustDecodeNode buf =
    (case the (decodeNode (Suc (length buf)) buf) of
       Ok n \<Rightarrow> Ok n
     | Err e \<Rightarrow> Panic (ExplicitPanic ''node'')
     | Panic p \<Rightarrow> Panic p)"

section \<open>Resolving hashes\<close>

type_synonym db = "bytes \<Rightarrow> bytes option"

text \<open>\<open>resolveHash\<close> below the cache: the database lookup and the decoder. A trie without a database
  panics on the nil interface; a missing node is logged and resolves to nil.\<close>

definition load_node :: "db option \<Rightarrow> bytes \<Rightarrow> (unit, node option) result" where
  "load_node db h =
    (case db of
       None \<Rightarrow> Panic NilDereference
     | Some d \<Rightarrow>
         (case d h of
            None \<Rightarrow> Ok None
          | Some enc \<Rightarrow> bind_result (mustDecodeNode enc) (\<lambda>n. Ok (Some n))))"

definition resolveHash :: "db option \<Rightarrow> node arc \<Rightarrow> bytes \<Rightarrow> (unit, node arc \<times> node option) result" where
  "resolveHash db cache h = read_through arc_Get arc_Put (load_node db) cache h"

text \<open>The resolver the trie operations use: nil for a missing node.\<close>

definition resolver_of :: "db option \<Rightarrow> unit resolver" where
  "resolver_of db h = bind_result (load_node db h) (\<lambda>r. Ok (case r of None \<Rightarrow> nilNode | Some n \<Rightarrow> n))"

section \<open>The trie\<close>

record trie =
  root :: node
  tdb :: "db option"

datatype trie_error = ErrMissingRoot

definition Trie_New :: "bytes \<Rightarrow> bytes \<Rightarrow> db option \<Rightarrow> (trie_error, trie) result" where
  "Trie_New emptyRoot rt db =
    (if rt \<noteq> replicate 32 0 \<and> rt \<noteq> emptyRoot then
       (case db of
          None \<Rightarrow> Panic (ExplicitPanic ''trie.New: cannot use existing root without a database'')
        | Some d \<Rightarrow>
            if (case d rt of None \<Rightarrow> True | Some v \<Rightarrow> length v = 0) then Err ErrMissingRoot
            else Ok \<lparr>root = hashNode rt, tdb = db\<rparr>)
     else Ok \<lparr>root = nilNode, tdb = db\<rparr>)"

definition Trie_Get :: "nat \<Rightarrow> trie \<Rightarrow> bytes \<Rightarrow> (unit, bytes option) result option" where
  "Trie_Get f t k = get_loop (resolver_of (tdb t)) f (root t) (compactHexDecode k)"

definition Trie_Delete :: "nat \<Rightarrow> trie \<Rightarrow> bytes \<Rightarrow> (unit, trie) result option" where
  "Trie_Delete f t k =
    fbind (trie_delete (resolver_of (tdb t)) f (root t) (compactHexDecode k)) (\<lambda>r. Some (Ok (t\<lparr>root := r\<rparr>)))"

definition Trie_Update :: "nat \<Rightarrow> trie \<Rightarrow> bytes \<Rightarrow> bytes \<Rightarrow> (unit, trie) result option" where
  "Trie_Update f t k v =
    (if length v \<noteq> 0 then
       fbind (trie_insert (resolver_of (tdb t)) f (root t) (compactHexDecode k) (valueNode v)) (\<lambda>r. Some (Ok (t\<lparr>root := r\<rparr>)))
     else
       fbind (trie_delete (resolver_of (tdb t)) f (root t) (compactHexDecode k)) (\<lambda>r. Some (Ok (t\<lparr>root := r\<rparr>))))"

section \<open>Hashing and committing\<close>

text \<open>The value \<open>rlp.Encode\<close> sees for a node; nil interfaces only occur where the hasher has not
  replaced them.\<close>

fun node_val :: "node \<Rightarrow> gval" where
  "node_val nilNode = VNilInterface"
| "node_val (fullNode cs) = VInterface (VSlice (map node_val cs))"
| "node_val (shortNode k v) = VInterface (VStruct [VBytes k, node_val v])"
| "node_val (hashNode h) = VInterface (VBytes h)"
| "node_val (valueNode v) = VInterface (VBytes v)"

text \<open>The buffer \<open>h.tmp\<close> is empty when \<open>rlp.Encode\<close> writes to it; it is no encode buffer, so the case of
  \<open>OuterBuf\<close> does not occur. The writes a hasher makes: \<open>wr\<close> is \<open>Put\<close> of the database, \<open>None\<close> without one.\<close>

type_synonym ('x, 'd) writer = "('d \<Rightarrow> bytes \<Rightarrow> bytes \<Rightarrow> ('x, 'd) result) option"

definition store :: "(bytes \<Rightarrow> bytes) \<Rightarrow> ('x, 'd) writer \<Rightarrow> node \<Rightarrow> bool \<Rightarrow> 'd \<Rightarrow> ('x, node \<times> 'd) result" where
  "store sha wr n force d =
    (if n = nilNode \<or> is_hash n then Ok (n, d)
     else case Encode (OtherWriter []) (node_val n) of
       Err e \<Rightarrow> Panic (ExplicitPanic ''encode error'')
     | Panic p \<Rightarrow> Panic p
     | Ok (OuterBuf eb) \<Rightarrow> Panic TypeAssertion
     | Ok (OtherWriter enc) \<Rightarrow>
         if length enc < 32 \<and> \<not> force then Ok (n, d)
         else
           let h = sha enc in
           case wr of
             None \<Rightarrow> Ok (hashNode h, d)
           | Some put \<Rightarrow> bind_result (put d h enc) (\<lambda>d'. Ok (hashNode h, d')))"

fun is_value :: "node \<Rightarrow> bool" where
  "is_value (valueNode v) = True"
| "is_value _ = False"

definition nil_to_value :: "node \<Rightarrow> node" where
  "nil_to_value n = (if n = nilNode then valueNode [] else n)"

fun hasher_hash :: "(bytes \<Rightarrow> bytes) \<Rightarrow> ('x, 'd) writer \<Rightarrow> node \<Rightarrow> bool \<Rightarrow> 'd \<Rightarrow> ('x, node \<times> 'd) result"
and replaceChildren :: "(bytes \<Rightarrow> bytes) \<Rightarrow> ('x, 'd) writer \<Rightarrow> node \<Rightarrow> 'd \<Rightarrow> ('x, node \<times> 'd) result"
and replaceChildren_loop :: "(bytes \<Rightarrow> bytes) \<Rightarrow> ('x, 'd) writer \<Rightarrow> node list \<Rightarrow> nat \<Rightarrow> 'd \<Rightarrow> ('x, node list \<times> 'd) result" where
  "hasher_hash sha wr n force d =
    bind_result (replaceChildren sha wr n d) (\<lambda>(hashed, d1). store sha wr hashed force d1)"
| "replaceChildren sha wr (shortNode k v) d =
    bind_result (compactEncode k) (\<lambda>ck.
    bind_result (if is_value v then Ok (v, d) else hasher_hash sha wr v False d) (\<lambda>(v', d').
    Ok (shortNode ck (nil_to_value v'), d')))"
| "replaceChildren sha wr (fullNode cs) d =
    bind_result (replaceChildren_loop sha wr cs 0 d) (\<lambda>(cs', d'). Ok (fullNode cs', d'))"
| "replaceChildren sha wr n d = Ok (n, d)"
| "replaceChildren_loop sha wr [] i d = Ok ([], d)"
| "replaceChildren_loop sha wr (c # cs) i d =
    bind_result (if i < 16 \<and> c \<noteq> nilNode then hasher_hash sha wr c False d else Ok (nil_to_value c, d)) (\<lambda>(c', d1).
    bind_result (replaceChildren_loop sha wr cs (i + 1) d1) (\<lambda>(cs', d2). Ok (c' # cs', d2)))"

definition BytesToHash :: "bytes \<Rightarrow> bytes" where
  "BytesToHash b0 =
    (let b = (if length b0 > 32 then drop (length b0 - 32) b0 else b0)
     in replicate (32 - length b) 0 @ b)"

definition hashRoot :: "(bytes \<Rightarrow> bytes) \<Rightarrow> bytes \<Rightarrow> ('x, 'd) writer \<Rightarrow> trie \<Rightarrow> 'd \<Rightarrow> ('x, node \<times> 'd) result" where
  "hashRoot sha emptyRoot wr t d =
    (if root t = nilNode then Ok (hashNode emptyRoot, d) else hasher_hash sha wr (root t) True d)"

definition as_hash :: "node \<Rightarrow> ('x, bytes) result" where
  "as_hash n = (case n of hashNode h \<Rightarrow> Ok (BytesToHash h) | _ \<Rightarrow> Panic TypeAssertion)"

definition Trie_Hash :: "(bytes \<Rightarrow> bytes) \<Rightarrow> bytes \<Rightarrow> trie \<Rightarrow> (unit, bytes) result" where
  "Trie_Hash sha emptyRoot t = bind_result (hashRoot sha emptyRoot None t ()) (\<lambda>(n, _). as_hash n)"

definition CommitTo :: "(bytes \<Rightarrow> bytes) \<Rightarrow> bytes \<Rightarrow> ('x, 'd) writer \<Rightarrow> trie \<Rightarrow> 'd \<Rightarrow> ('x, bytes \<times> trie \<times> 'd) result" where
  "CommitTo sha emptyRoot wr t d =
    bind_result (hashRoot sha emptyRoot wr t d) (\<lambda>(n, d').
    bind_result (as_hash n) (\<lambda>h. Ok (h, t\<lparr>root := n\<rparr>, d')))"

text \<open>\<open>Put\<close> of an in-memory database.\<close>

definition db_put :: "db \<Rightarrow> bytes \<Rightarrow> bytes \<Rightarrow> (unit, db) result" where
  "db_put d k v = Ok (d(k \<mapsto> v))"

definition Commit :: "(bytes \<Rightarrow> bytes) \<Rightarrow> bytes \<Rightarrow> trie \<Rightarrow> (unit, bytes \<times> trie) result" where
  "Commit sha emptyRoot t =
    (case tdb t of
       None \<Rightarrow> Panic (ExplicitPanic ''Commit called on trie with nil database'')
     | Some d \<Rightarrow>
         bind_result (CommitTo sha emptyRoot (Some db_put) t d) (\<lambda>(h, t', d'). Ok (h, t'\<lparr>tdb := Some d'\<rparr>)))"

section \<open>Merkle proofs\<close>

text \<open>The loop of \<open>Prove\<close> that collects the nodes on the path to the key; \<open>None\<close> inside the result
  is the nil slice returned for a key that is not in the trie.\<close>

fun prove_loop :: "'e resolver \<Rightarrow> nat \<Rightarrow> node \<Rightarrow> bytes \<Rightarrow> node list \<Rightarrow> ('e, node list option) result option" where
  "prove_loop rs 0 tn key nodes = None"
| "prove_loop rs (Suc f) tn key nodes =
    (if key = [] then Some (Ok (Some nodes))
     else
       case tn of
         shortNode k v \<Rightarrow>
           if length key < length k \<or> k \<noteq> take (length k) key then Some (Ok None)
           else prove_loop rs f v (drop (length k) key) (nodes @ [tn])
       | fullNode cs \<Rightarrow> fbind (Some (child cs (hd key))) (\<lambda>c. prove_loop rs f c (tl key) (nodes @ [tn]))
       | nilNode \<Rightarrow> Some (Ok None)
       | hashNode h \<Rightarrow> fbind (Some (rs h)) (\<lambda>n. prove_loop rs f n key nodes)
       | valueNode _ \<Rightarrow> Some (Panic (ExplicitPanic ''invalid node'')))"

text \<open>The second loop: a node becomes a proof element when it is stored under a hash, or is the root.\<close>

fun prove_nodes :: "(bytes \<Rightarrow> bytes) \<Rightarrow> nat \<Rightarrow> node list \<Rightarrow> (unit, bytes list) result" where
  "prove_nodes sha i [] = Ok []"
| "prove_nodes sha i (n # ns) =
    bind_result (replaceChildren sha None n ()) (\<lambda>(c, _).
    bind_result (store sha None c False ()) (\<lambda>(hn, _).
    bind_result (if is_hash hn \<or> i = 0 then
        (case EncodeToBytes (node_val c) of Ok enc \<Rightarrow> Ok [enc] | Err _ \<Rightarrow> Ok [[]] | Panic p \<Rightarrow> Panic p)
      else Ok []) (\<lambda>enc.
    bind_result (prove_nodes sha (i + 1) ns) (\<lambda>rest. Ok (enc @ rest)))))"

definition Prove :: "(bytes \<Rightarrow> bytes) \<Rightarrow> nat \<Rightarrow> trie \<Rightarrow> bytes \<Rightarrow> (unit, bytes list option) result option" where
  "Prove sha f t k =
    fbind (prove_loop (resolver_of (tdb t)) f (root t) (compactHexDecode k) []) (\<lambda>r.
      case r of
        None \<Rightarrow> Some (Ok None)
      | Some nodes \<Rightarrow> Some (bind_result (prove_nodes sha 0 nodes) (\<lambda>pr. Ok (Some pr))))"

lemma child_size: "child cs b = Ok c \<Longrightarrow> size c < Suc (size_list size cs)"
  by (auto simp: child_def index_def split: if_splits) (metis less_Suc_eq nth_mem size_list_estimation' order_refl le_imp_less_Suc)

text \<open>The function \<open>get\<close> of \<open>proof.go\<close>: descends inside one decoded node.\<close>

function proof_get :: "node \<Rightarrow> bytes \<Rightarrow> ('e, bytes \<times> node) result" where
  "proof_get tn key =
    (if key = [] then
       (case tn of valueNode v \<Rightarrow> Ok ([], tn) | _ \<Rightarrow> Panic TypeAssertion)
     else
       case tn of
         shortNode k v \<Rightarrow>
           if length key < length k \<or> k \<noteq> take (length k) key then Ok ([], nilNode)
           else proof_get v (drop (length k) key)
       | fullNode cs \<Rightarrow> bind_result (child cs (hd key)) (\<lambda>c. proof_get c (tl key))
       | hashNode h \<Rightarrow> Ok (key, tn)
       | nilNode \<Rightarrow> Ok (key, nilNode)
       | valueNode _ \<Rightarrow> Panic (ExplicitPanic ''invalid node''))"
  by pat_completeness auto
termination
  by (relation "measure (\<lambda>(tn, key). size tn)") (auto dest: child_size)

declare proof_get.simps [simp del]

datatype proof_error =
    ProofHashMismatch nat
  | ProofBadNode nat node_error
  | ProofKeyMismatch nat
  | ProofAdditionalNodes
  | ProofUnexpectedEnd

fun verify_loop :: "(bytes \<Rightarrow> bytes) \<Rightarrow> nat \<Rightarrow> nat \<Rightarrow> bytes \<Rightarrow> bytes \<Rightarrow> bytes list \<Rightarrow> (proof_error, bytes) result" where
  "verify_loop sha len i wantHash key [] = Err ProofUnexpectedEnd"
| "verify_loop sha len i wantHash key (buf # proof) =
    (if sha buf \<noteq> wantHash then Err (ProofHashMismatch i)
     else
       bind_result (map_err (ProofBadNode i) (the (decodeNode (Suc (length buf)) buf))) (\<lambda>n.
       bind_result (proof_get n key) (\<lambda>(keyrest, cld).
         case cld of
           nilNode \<Rightarrow> Err (ProofKeyMismatch i)
         | hashNode h \<Rightarrow> verify_loop sha len (i + 1) h keyrest proof
         | valueNode v \<Rightarrow> if i \<noteq> len - 1 then Err ProofAdditionalNodes else Ok v
         | _ \<Rightarrow> verify_loop sha len (i + 1) wantHash key proof)))"

definition VerifyProof :: "(bytes \<Rightarrow> bytes) \<Rightarrow> bytes \<Rightarrow> bytes \<Rightarrow> bytes list \<Rightarrow> (proof_error, bytes) result" where
  "VerifyProof sha rootHash k proof = verify_loop sha (length proof) 0 rootHash (compactHexDecode k) proof"

section \<open>The secure trie\<close>

text \<open>\<open>SecureTrie\<close> hashes the keys and records the preimage of every key it writes.\<close>

definition secureKeyPrefix :: bytes where
  "secureKeyPrefix = [0x73, 0x65, 0x63, 0x75, 0x72, 0x65, 0x2D, 0x6B, 0x65, 0x79, 0x2D]"

definition secKey :: "bytes \<Rightarrow> bytes" where
  "secKey k = secureKeyPrefix @ k"

definition hashKey :: "(bytes \<Rightarrow> bytes) \<Rightarrow> bytes \<Rightarrow> bytes" where
  "hashKey sha k = sha k"

definition NewSecure :: "bytes \<Rightarrow> bytes \<Rightarrow> db option \<Rightarrow> (trie_error, trie) result" where
  "NewSecure emptyRoot rt db =
    (case db of
       None \<Rightarrow> Panic (ExplicitPanic ''NewSecure called with nil database'')
     | Some d \<Rightarrow> Trie_New emptyRoot rt db)"

definition Secure_Get :: "(bytes \<Rightarrow> bytes) \<Rightarrow> nat \<Rightarrow> trie \<Rightarrow> bytes \<Rightarrow> (unit, bytes option) result option" where
  "Secure_Get sha f t k = Trie_Get f t (hashKey sha k)"

definition Secure_Update :: "(bytes \<Rightarrow> bytes) \<Rightarrow> nat \<Rightarrow> trie \<Rightarrow> bytes \<Rightarrow> bytes \<Rightarrow> (unit, trie) result option" where
  "Secure_Update sha f t k v =
    fbind (Trie_Update f t (hashKey sha k) v) (\<lambda>t1.
      case tdb t1 of
        None \<Rightarrow> Some (Panic NilDereference)
      | Some d \<Rightarrow> fbind (Some (db_put d (secKey (hashKey sha k)) k)) (\<lambda>d'. Some (Ok (t1\<lparr>tdb := Some d'\<rparr>))))"

definition Secure_Delete :: "(bytes \<Rightarrow> bytes) \<Rightarrow> nat \<Rightarrow> trie \<Rightarrow> bytes \<Rightarrow> (unit, trie) result option" where
  "Secure_Delete sha f t k = Trie_Delete f t (hashKey sha k)"

definition Secure_GetKey :: "trie \<Rightarrow> bytes \<Rightarrow> (unit, bytes option) result" where
  "Secure_GetKey t shaKey = (case tdb t of None \<Rightarrow> Panic NilDereference | Some d \<Rightarrow> Ok (d (secKey shaKey)))"

section \<open>The decoder returns\<close>

lemma SplitList_shorter:
  assumes "length buf < 2 ^ 64" "SplitList buf = Ok (elems, rest)"
  shows "length elems < length buf"
  using assms SplitList_Ok_iff [OF assms(1), of elems rest] by (simp add: enc_list_def headsize_def)

lemma SplitString_shorter:
  assumes "length buf < 2 ^ 64" "SplitString buf = Ok (c, rest)"
  shows "length rest \<le> length buf"
  using assms SplitString_Ok_iff [OF assms(1), of c rest] by simp

lemma Split_shorter:
  assumes "length buf < 2 ^ 64" "Split buf = Ok (k, c, rest)"
  shows "length rest \<le> length buf"
  using assms Split_Ok_iff [OF assms(1)] by simp

lemma fbind_SomeI: "m = Some r \<Longrightarrow> (\<And>a. r = Ok a \<Longrightarrow> \<exists>r'. f a = Some r') \<Longrightarrow> \<exists>r'. fbind m f = Some r'"
  by (cases r) auto

definition total_on :: "nat \<Rightarrow> 'a ndec \<Rightarrow> bool" where
  "total_on n d \<longleftrightarrow> (\<forall>buf. length buf \<le> n \<longrightarrow> (\<exists>r. d buf = Some r))"

lemma wrapErrorF_Some: "wrapErrorF m ctx = Some r \<longleftrightarrow> (\<exists>r0. m = Some r0 \<and> r = wrapError r0 ctx)"
  by (auto simp: wrapErrorF_def)

lemma wrapError_Ok [simp]: "wrapError r ctx = Ok a \<longleftrightarrow> r = Ok a"
  by (cases r) (auto simp: wrapError_def split: prod.splits)

lemma map_err_Ok [simp]: "map_err g r = Ok a \<longleftrightarrow> r = Ok a"
  by (cases r) auto

lemma decodeRef_total:
  assumes "total_on n dn" "n < 2 ^ 64"
  shows "total_on n (decodeRef dn)" "length buf \<le> n \<Longrightarrow> decodeRef dn buf = Some (Ok (c, rest)) \<Longrightarrow> length rest \<le> length buf"
proof -
  show "total_on n (decodeRef dn)"
    unfolding total_on_def
  proof (intro allI impI)
    fix buf :: bytes assume "length buf \<le> n"
    then obtain r where r: "dn buf = Some r" using assms(1) by (auto simp: total_on_def)
    show "\<exists>r. decodeRef dn buf = Some r" unfolding decodeRef_def r
      by (rule fbind_SomeI [OF refl]) (cases r; auto simp: Let_def)
  qed
  show "length rest \<le> length buf" if "length buf \<le> n" "decodeRef dn buf = Some (Ok (c, rest))"
  proof -
    note h = that
    have "length buf < 2 ^ 64" using h(1) assms(2) by linarith
    moreover obtain k v where "Split buf = Ok (k, v, rest)"
      using h(2) by (auto simp: decodeRef_def fbind_Ok_iff Let_def split: if_splits)
    ultimately show ?thesis using Split_shorter by blast
  qed
qed

lemma decodeFull_loop_total:
  assumes "total_on n dn" "n < 2 ^ 64"
  shows "length buf \<le> n \<Longrightarrow> \<exists>r. decodeFull_loop (decodeRef dn) is buf cs = Some r"
proof (induction "is" arbitrary: buf cs)
  case (Cons i "is")
  obtain r where r: "decodeRef dn buf = Some r" using decodeRef_total(1) [OF assms] Cons.prems by (auto simp: total_on_def)
  show ?case
  proof (cases r)
    case (Ok x)
    obtain c rest where x: "x = (c, rest)" by (cases x)
    then have "length rest \<le> n" using decodeRef_total(2) [OF assms Cons.prems] r Ok Cons.prems by fastforce
    then show ?thesis using Cons.IH r Ok x by (simp add: wrapErrorF_def wrapError_def)
  qed (use r in \<open>auto simp: wrapErrorF_def wrapError_def\<close>)
qed simp

lemma decodeNode_total:
  "length buf < f \<Longrightarrow> length buf < 2 ^ 64 \<Longrightarrow> \<exists>r. decodeNode f buf = Some r"
proof (induction f arbitrary: buf)
  case (Suc f)
  show ?case
  proof (cases "SplitList buf")
    case (Ok x)
    obtain elems tail where x: "x = (elems, tail)" by (cases x)
    have len: "length elems < length buf" using SplitList_shorter Suc.prems(2) Ok x by blast
    then have e64: "length elems < 2 ^ 64" "length elems < f" using Suc.prems by linarith+
    have tot: "total_on (length elems) (decodeNode f)" using Suc.IH e64 by (auto simp: total_on_def)
    have "\<exists>r. decodeShort (decodeRef (decodeNode f)) elems = Some r"
    proof (unfold decodeShort_def, rule fbind_SomeI [OF refl], clarsimp)
      fix kbuf rest assume "SplitString elems = Ok (kbuf, rest)"
      then have "length rest \<le> length elems" using SplitString_shorter e64(1) by blast
      then obtain r where r: "decodeRef (decodeNode f) rest = Some r"
        using decodeRef_total(1) [OF tot e64(1)] by (auto simp: total_on_def)
      show "\<exists>r'. fbind (Some (compactDecode kbuf)) (\<lambda>key. if key = [] then Some (Panic IndexOutOfRange)
          else if last key = 16 then
            fbind (Some (map_err (\<lambda>e. (NodeInvalidValue e, [])) (SplitString rest))) (\<lambda>(val, _). Some (Ok (shortNode key (valueNode val))))
          else fbind (wrapErrorF (decodeRef (decodeNode f) rest) ''val'') (\<lambda>(r, _). Some (Ok (shortNode key r)))) = Some r'"
        unfolding r by (intro fbind_SomeI [OF refl]) (auto simp: wrapErrorF_def intro!: fbind_SomeI)
    qed
    moreover have "\<exists>r. decodeFull (decodeRef (decodeNode f)) elems = Some r"
    proof -
      obtain r where "decodeFull_loop (decodeRef (decodeNode f)) indices elems [] = Some r"
        using decodeFull_loop_total [OF tot e64(1)] by blast
      then show ?thesis unfolding decodeFull_def by (rule fbind_SomeI) (auto intro!: fbind_SomeI)
    qed
    moreover obtain r where "CountValues elems = Some r"
      using CountValues_loop_spec [OF e64(1), of 0] by (auto simp: CountValues_def)
    ultimately show ?thesis using Ok x by (cases r) (auto simp: decodeNode.simps(2) wrapErrorF_def Let_def)
  qed (simp_all add: decodeNode.simps(2))
qed simp

text \<open>C15. A short node whose compact key is the empty string crashes the decoder: whatever follows the
  key, \<open>decodeNode\<close> panics with an index out of range in \<open>compactDecode\<close> instead of returning an
  error, and so does \<open>VerifyProof\<close> on a proof that consists of such a node.\<close>

theorem decodeNode_panics_on_empty_key:
  assumes "length (enc_list (0x80 # v)) < 2 ^ 64" "is_items v 1"
  shows "decodeNode (Suc f) (enc_list (0x80 # v)) = Some (Panic IndexOutOfRange) \<and>
    VerifyProof sha (sha (enc_list (0x80 # v))) k [enc_list (0x80 # v)] = Panic IndexOutOfRange"
proof -
  let ?b = "enc_list (0x80 # v)"
  have es: "enc_string [] = [0x80]" by (simp add: enc_string_def puthead_def)
  have sl: "SplitList ?b = Ok (0x80 # v, [])" using SplitList_Ok_iff [OF assms(1), of "0x80 # v" "[]"] by simp
  have len: "length (0x80 # v) < 2 ^ 64" using SplitList_shorter [OF assms(1) sl] assms(1) by linarith
  have ss: "SplitString (0x80 # v) = Ok ([], v)" using SplitString_Ok_iff [OF len, of "[]" v] es by simp
  have sp: "Split (0x80 # v) = Ok (String, [], v)"
    using Split_Ok_iff [OF len, of String "[]" v] es by (simp add: enc_string_item)
  have "is_items (0x80 # v) 2" using is_items_step [OF len, of 2] sp assms(2) by (simp add: numeral_2_eq_2)
  then have cv: "CountValues (0x80 # v) = Some (Ok 2)" using CountValues_loop_spec [OF len, of 0] by (auto simp: CountValues_def)
  have p: "decodeNode (Suc g) ?b = Some (Panic IndexOutOfRange)" for g
    using sl cv ss by (simp add: decodeNode.simps(2) decodeShort_def compactDecode_def compactHexDecode_def index_def
        wrapErrorF_def wrapError_def enc_list_def)
  then show ?thesis by (simp add: VerifyProof_def)
qed

theorem decodeNode_panics_on_empty_key_witness:
  "decodeNode (Suc 3) (enc_list [0x80, 1]) = Some (Panic IndexOutOfRange) \<and>
    VerifyProof rev (rev (enc_list [0x80, 1])) [7] [enc_list [0x80, 1]] = Panic IndexOutOfRange"
proof -
  have "is_items [1] 1" unfolding is_items_def by (intro exI [of _ "[(Byte, [1])]"]) (simp add: item_enc_def)
  then show ?thesis using decodeNode_panics_on_empty_key [of "[1]" 3 rev "[7]"] by (simp add: enc_list_def puthead_def)
qed

text \<open>C16. The node cache is transparent: as long as every cached node is what the database and the
  decoder give for its hash, \<open>resolveHash\<close> returns (or panics) exactly as an uncached lookup would,
  and the cache it leaves has the same property and is well formed.\<close>

theorem resolveHash_transparent:
  assumes "arc_inv c" "answers (aview c) (load_node db)"
  shows "(resolveHash db c h = Panic p \<longleftrightarrow> load_node db h = Panic p) \<and>
    ((\<exists>c'. resolveHash db c h = Ok (c', r) \<and> arc_inv c' \<and> answers (aview c') (load_node db)) \<longleftrightarrow> load_node db h = Ok r)"
  unfolding resolveHash_def using arc.read_through_hit_or_load [OF assms] by blast

theorem resolveHash_transparent_witness:
  "\<exists>c'. resolveHash (Some (\<lambda>_. None)) (newARC 1) [1] = Ok (c', None) \<and> arc_inv c'"
proof -
  have "answers (aview (newARC 1 :: node arc)) (load_node (Some (\<lambda>_. None)))"
    by (simp add: answers_def aview_def newARC_def)
  then show ?thesis
    using resolveHash_transparent [OF newARC_inv, of 1 "Some (\<lambda>_. None)" "[1]" _ None] by (auto simp: load_node_def)
qed

end
