(* ===== verification/Trie_Map.thy ===== *)
theory Trie_Map
  imports Trie_Node
begin

text \<open>
  What the trie promises its clients: on keys of one length it is a map from byte strings to byte
  strings, whatever the order of operations, and its shape depends on the contents only. The
  contract is a locale; the trie of \<open>trie/trie.go\<close> is an interpretation of it.
\<close>

section \<open>The contract\<close>

datatype kvop = KUpdate bytes bytes | KDelete bytes | KGet bytes

fun op_key :: "kvop \<Rightarrow> bytes" where
  "op_key (KUpdate k v) = k"
| "op_key (KDelete k) = k"
| "op_key (KGet k) = k"

text \<open>A run of operations, with the answers of its lookups.\<close>

fun kv_run ::
  "('s \<Rightarrow> bytes \<Rightarrow> ('e, bytes option) result option) \<Rightarrow> ('s \<Rightarrow> bytes \<Rightarrow> bytes \<Rightarrow> ('e, 's) result option) \<Rightarrow>
   ('s \<Rightarrow> bytes \<Rightarrow> ('e, 's) result option) \<Rightarrow> 's \<Rightarrow> kvop list \<Rightarrow> ('e, 's \<times> bytes option list) result option" where
  "kv_run get upd del s [] = Some (Ok (s, []))"
| "kv_run get upd del s (KUpdate k v # ops) = fbind (upd s k v) (\<lambda>s'. kv_run get upd del s' ops)"
| "kv_run get upd del s (KDelete k # ops) = fbind (del s k) (\<lambda>s'. kv_run get upd del s' ops)"
| "kv_run get upd del s (KGet k # ops) =
    fbind (get s k) (\<lambda>r. fbind (kv_run get upd del s ops) (\<lambda>(s', rs). Some (Ok (s', r # rs))))"

text \<open>The same run on a map: an update with the empty value deletes.\<close>

definition map_update :: "(bytes \<rightharpoonup> bytes) \<Rightarrow> bytes \<Rightarrow> bytes \<Rightarrow> bytes \<rightharpoonup> bytes" where
  "map_update m k v = m(k := if v = [] then None else Some v)"

fun map_after :: "(bytes \<rightharpoonup> bytes) \<Rightarrow> kvop list \<Rightarrow> bytes \<rightharpoonup> bytes" where
  "map_after m [] = m"
| "map_after m (KUpdate k v # ops) = map_after (map_update m k v) ops"
| "map_after m (KDelete k # ops) = map_after (m(k := None)) ops"
| "map_after m (KGet k # ops) = map_after m ops"

fun map_answers :: "(bytes \<rightharpoonup> bytes) \<Rightarrow> kvop list \<Rightarrow> bytes option list" where
  "map_answers m [] = []"
| "map_answers m (KUpdate k v # ops) = map_answers (map_update m k v) ops"
| "map_answers m (KDelete k # ops) = map_answers (m(k := None)) ops"
| "map_answers m (KGet k # ops) = m k # map_answers m ops"

locale kv_store =
  fixes get :: "'s \<Rightarrow> bytes \<Rightarrow> ('e, bytes option) result option"
    and upd :: "'s \<Rightarrow> bytes \<Rightarrow> bytes \<Rightarrow> ('e, 's) result option"
    and del :: "'s \<Rightarrow> bytes \<Rightarrow> ('e, 's) result option"
    and rel :: "'s \<Rightarrow> (bytes \<rightharpoonup> bytes) \<Rightarrow> bool"
    and key_ok :: "bytes \<Rightarrow> bool"
  assumes get_law: "rel s m \<Longrightarrow> key_ok k \<Longrightarrow> get s k = Some (Ok (m k))"
    and upd_law: "rel s m \<Longrightarrow> key_ok k \<Longrightarrow> \<exists>s'. upd s k v = Some (Ok s') \<and> rel s' (map_update m k v)"
    and del_law: "rel s m \<Longrightarrow> key_ok k \<Longrightarrow> \<exists>s'. del s k = Some (Ok s') \<and> rel s' (m(k := None))"
begin

lemma run_refines:
  assumes "rel s m" "\<And>opn. opn \<in> set ops \<Longrightarrow> key_ok (op_key opn)"
  shows "\<exists>s'. kv_run get upd del s ops = Some (Ok (s', map_answers m ops)) \<and> rel s' (map_after m ops)"
  using assms
proof (induction ops arbitrary: s m)
  case (Cons opn ops)
  have k: "key_ok (op_key opn)" and ops: "\<And>opn. opn \<in> set ops \<Longrightarrow> key_ok (op_key opn)" using Cons.prems(2) by auto
  show ?case
  proof (cases opn)
    case (KUpdate k v)
    then obtain s1 where "upd s k v = Some (Ok s1)" "rel s1 (map_update m k v)" using upd_law Cons.prems(1) k by force
    then show ?thesis using Cons.IH [OF _ ops, of s1 "map_update m k v"] KUpdate by simp
  next
    case (KDelete k)
    then obtain s1 where s1: "del s k = Some (Ok s1)" "rel s1 (m(k := None))" using del_law Cons.prems(1) k by force
    from Cons.IH [OF s1(2) ops] show ?thesis using KDelete s1(1) by (simp del: fun_upd_apply)
  next
    case (KGet k)
    then have "get s k = Some (Ok (m k))" using get_law Cons.prems(1) k by force
    then show ?thesis using Cons.IH [OF Cons.prems(1) ops] KGet by auto
  qed
qed simp

end

section \<open>The trie as an instance\<close>

definition trie_wf :: "nat \<Rightarrow> trie \<Rightarrow> bool" where
  "trie_wf L t \<longleftrightarrow> root t = nilNode \<or> twf (resolver_of (tdb t)) (2 * L + 1) (root t)"

definition stores :: "trie \<Rightarrow> bytes \<Rightarrow> bytes \<Rightarrow> bool" where
  "stores t k v \<longleftrightarrow> has (resolver_of (tdb t)) (root t) (compactHexDecode k) v"

definition trie_rel :: "nat \<Rightarrow> db option \<Rightarrow> trie \<Rightarrow> (bytes \<rightharpoonup> bytes) \<Rightarrow> bool" where
  "trie_rel L d t m \<longleftrightarrow> trie_wf L t \<and> tdb t = d \<and> dom m \<subseteq> {k. length k = L} \<and>
    (\<forall>k v. length k = L \<longrightarrow> (m k = Some v \<longleftrightarrow> stores t k v))"

text \<open>The fuel a key of \<open>L\<close> bytes needs: at most two steps per hex digit.\<close>

definition trie_fuel :: "nat \<Rightarrow> nat" where
  "trie_fuel L = 4 * L + 4"

lemma hexterm_compactHexDecode: "hexterm (compactHexDecode k)" "length (compactHexDecode k) = 2 * length k + 1"
  using nibbles_lt [of k] by (simp_all add: hexterm_def compactHexDecode_def)

lemma fuel_enough: "fuel_for (2 * L + 1) n \<le> trie_fuel L + e"
  using fuel_for_le [of "2 * L + 1" n] by (simp add: trie_fuel_def)

lemma trie_fuel_Suc: obtains f where "trie_fuel L + e = Suc f"
  using that [of "4 * L + 3 + e"] by (simp add: trie_fuel_def)

lemma trie_get_law:
  assumes "trie_rel L d t m" "length k = L"
  shows "Trie_Get (trie_fuel L + e) t k = Some (Ok (m k))"
proof -
  let ?rs = "resolver_of (tdb t)" and ?f = "trie_fuel L + e"
  have m: "m k = Some v \<longleftrightarrow> has ?rs (root t) (compactHexDecode k) v" for v
    using assms by (simp add: trie_rel_def stores_def)
  have "\<exists>r. get_loop ?rs ?f (root t) (compactHexDecode k) = Some (Ok r) \<and>
    (\<forall>v. r = Some v \<longleftrightarrow> has ?rs (root t) (compactHexDecode k) v)"
  proof (cases "root t = nilNode")
    case True
    have "compactHexDecode k \<noteq> []" by (simp add: compactHexDecode_def)
    moreover obtain f where "?f = Suc f" by (rule trie_fuel_Suc)
    ultimately show ?thesis using True by (simp add: get_loop.simps(2))
  next
    case False
    then have "twf ?rs (2 * L + 1) (root t)" using assms(1) unfolding trie_rel_def trie_wf_def by blast
    then show ?thesis using get_loop_correct fuel_enough hexterm_compactHexDecode assms(2) by blast
  qed
  then obtain r where "Trie_Get ?f t k = Some (Ok r)" "\<And>v. r = Some v \<longleftrightarrow> m k = Some v"
    unfolding Trie_Get_def m by blast
  moreover have "r = r'" if "\<And>v. r = Some v \<longleftrightarrow> r' = Some v" for r' :: "bytes option"
    using that [of "the r"] that [of "the r'"] by (cases r; cases r') simp_all
  ultimately show ?thesis by blast
qed

lemma trie_rel_change:
  assumes "trie_rel L d t m" "length k = L" "n' = nilNode \<or> twf (resolver_of d) (2 * L + 1) n'"
    "\<And>K w. has (resolver_of d) n' K w \<longleftrightarrow> (if K = compactHexDecode k then r = Some w else has (resolver_of d) (root t) K w)"
  shows "trie_rel L d (t\<lparr>root := n'\<rparr>) (m(k := r))"
  using assms by (auto simp: trie_rel_def trie_wf_def stores_def)

lemma trie_insert_law:
  assumes "trie_rel L d t m" "length k = L" "v \<noteq> []"
  shows "\<exists>n. trie_insert (resolver_of d) (trie_fuel L + e) (root t) (compactHexDecode k) (valueNode v) = Some (Ok n) \<and>
    trie_rel L d (t\<lparr>root := n\<rparr>) (m(k := Some v))"
proof -
  let ?rs = "resolver_of d" and ?f = "trie_fuel L + e"
  have d: "tdb t = d" using assms(1) by (simp add: trie_rel_def)
  have "\<exists>n. trie_insert ?rs ?f (root t) (compactHexDecode k) (valueNode v) = Some (Ok n) \<and>
      insert_post ?rs (2 * L + 1) (root t) (compactHexDecode k) v n"
  proof (cases "root t = nilNode")
    case True
    then show ?thesis using insert_correct_nil [OF hexterm_compactHexDecode(1) assms(3), of ?f ?rs k] assms(2)
      by (simp add: hexterm_compactHexDecode trie_fuel_def)
  next
    case False
    then have "twf ?rs (2 * L + 1) (root t)" using assms(1) by (auto simp: trie_rel_def trie_wf_def)
    then show ?thesis using insert_correct fuel_enough hexterm_compactHexDecode assms(2,3) by blast
  qed
  then obtain n where n: "trie_insert ?rs ?f (root t) (compactHexDecode k) (valueNode v) = Some (Ok n)"
    "insert_post ?rs (2 * L + 1) (root t) (compactHexDecode k) v n" by blast
  have "trie_rel L d (t\<lparr>root := n\<rparr>) (m(k := Some v))"
    by (rule trie_rel_change [OF assms(1,2)]) (use n(2) in \<open>auto simp: insert_post_def simp del: has_simps\<close>)
  then show ?thesis using n(1) by blast
qed

lemma trie_delete_law:
  assumes "trie_rel L d t m" "length k = L"
  shows "\<exists>n. trie_delete (resolver_of d) (trie_fuel L + e) (root t) (compactHexDecode k) = Some (Ok n) \<and>
    trie_rel L d (t\<lparr>root := n\<rparr>) (m(k := None))"
proof -
  let ?rs = "resolver_of d" and ?f = "trie_fuel L + e"
  have d: "tdb t = d" using assms(1) by (simp add: trie_rel_def)
  have "\<exists>n. trie_delete ?rs ?f (root t) (compactHexDecode k) = Some (Ok n) \<and>
      delete_post ?rs (2 * L + 1) (root t) (compactHexDecode k) n"
  proof (cases "root t = nilNode")
    case True
    moreover obtain f where "?f = Suc f" by (rule trie_fuel_Suc)
    ultimately show ?thesis by (auto simp: trie_delete.simps(2) delete_post_def resolve_def)
  next
    case False
    then have "twf ?rs (2 * L + 1) (root t)" using assms(1) by (auto simp: trie_rel_def trie_wf_def)
    then show ?thesis using delete_correct fuel_enough hexterm_compactHexDecode assms(2) by blast
  qed
  then obtain n where n: "trie_delete ?rs ?f (root t) (compactHexDecode k) = Some (Ok n)"
    "delete_post ?rs (2 * L + 1) (root t) (compactHexDecode k) n" by blast
  have "trie_rel L d (t\<lparr>root := n\<rparr>) (m(k := None))"
    by (rule trie_rel_change [OF assms(1,2)]) (use n(2) in \<open>auto simp: delete_post_def simp del: has_simps\<close>)
  then show ?thesis using n(1) by blast
qed

interpretation trie: kv_store "Trie_Get (trie_fuel L + e)" "Trie_Update (trie_fuel L + e)" "Trie_Delete (trie_fuel L + e)"
  "trie_rel L d" "\<lambda>k. length k = L" for L e d
proof
  fix t m and k v :: bytes
  assume r: "trie_rel L d t m" "length k = L"
  have db: "tdb t = d" using r(1) by (simp add: trie_rel_def)
  show "Trie_Get (trie_fuel L + e) t k = Some (Ok (m k))" by (rule trie_get_law [OF r])
  show "\<exists>t'. Trie_Delete (trie_fuel L + e) t k = Some (Ok t') \<and> trie_rel L d t' (m(k := None))"
    using trie_delete_law [OF r, of e] unfolding Trie_Delete_def db by auto
  show "\<exists>t'. Trie_Update (trie_fuel L + e) t k v = Some (Ok t') \<and> trie_rel L d t' (map_update m k v)"
    using trie_delete_law [OF r, of e] trie_insert_law [OF r, of v e] unfolding Trie_Update_def db map_update_def
    by (cases "v = []") auto
qed

section \<open>Canonical tries\<close>

definition zero_trie :: trie where
  "zero_trie = \<lparr>root = nilNode, tdb = None\<rparr>"

lemma zero_trie_rel: "trie_rel L None zero_trie (\<lambda>_. None)"
  by (simp add: trie_rel_def trie_wf_def stores_def zero_trie_def)

lemma unresolved_None: "unresolved (resolver_of None)"
  by (simp add: unresolved_def resolver_of_def load_node_def)

lemma hexterm_key:
  assumes "hexterm K" "length K = 2 * L + 1"
  obtains k where "K = compactHexDecode k" "length k = L"
proof -
  have "K = butlast K @ [16]" using assms(1) by (metis append_butlast_last_id hexterm_def)
  moreover have "nibbles (decodeCompact (butlast K)) = butlast K"
    using assms by (intro nibbles_decodeCompact) (auto simp: hexterm_def)
  ultimately have "K = compactHexDecode (decodeCompact (butlast K))" by (simp add: compactHexDecode_def)
  moreover then have "length (decodeCompact (butlast K)) = L" using hexterm_compactHexDecode(2) assms(2) by (metis add_right_cancel mult_cancel_left zero_neq_numeral)
  ultimately show ?thesis using that by blast
qed

lemma trie_rel_unique:
  assumes "trie_rel L None t m" "trie_rel L None t' m"
  shows "t = t'"
proof -
  let ?rs = "resolver_of None"
  have d: "tdb t = None" "tdb t' = None" using assms by (simp_all add: trie_rel_def)
  have len: "hexterm K \<and> length K = 2 * L + 1" if "trie_rel L None s m" "has ?rs (root s) K v" for s K v
    using that has_length [of ?rs "2 * L + 1" "root s" K v] by (auto simp: trie_rel_def trie_wf_def)
  have half: "has ?rs (root t2) K v" if "trie_rel L None t1 m" "trie_rel L None t2 m" "has ?rs (root t1) K v" for t1 t2 K v
  proof -
    note h = that
    obtain k where k: "K = compactHexDecode k" "length k = L" using hexterm_key len [OF h(1,3)] by blast
    then show ?thesis using h by (auto simp: trie_rel_def stores_def)
  qed
  have eq: "has ?rs (root t) K v \<longleftrightarrow> has ?rs (root t') K v" for K v using half assms by blast
  have wf: "root t = nilNode \<or> twf ?rs (2 * L + 1) (root t)" "root t' = nilNode \<or> twf ?rs (2 * L + 1) (root t')"
    using assms by (auto simp: trie_rel_def trie_wf_def)
  have nil: "n = nilNode" if "n = nilNode \<or> twf ?rs (2 * L + 1) n" "\<And>K v. \<not> has ?rs n K v" for n
    using that twf_nonempty by blast
  have "root t = root t'"
  proof (cases "root t = nilNode \<or> root t' = nilNode")
    case True
    then show ?thesis using nil [OF wf(1)] nil [OF wf(2)] eq by auto
  next
    case False
    then show ?thesis using trie_canonical [OF unresolved_None] wf eq by blast
  qed
  then show ?thesis using d by simp
qed

section \<open>Keys shorter than the stored ones\<close>

text \<open>Two keys below a node that have \<open>p\<close> as a prefix and then differ.\<close>

definition forks :: "'e resolver \<Rightarrow> node \<Rightarrow> bytes \<Rightarrow> bool" where
  "forks rs n p \<longleftrightarrow> (\<exists>a b K1 K2 v1 v2. has rs n (p @ a # K1) v1 \<and> has rs n (p @ b # K2) v2 \<and> a \<noteq> b)"

lemma get_loop_prefix:
  "twf rs m n \<Longrightarrow> list_all (\<lambda>b. b < 16) p \<Longrightarrow> length p + 1 < m \<Longrightarrow> fuel_for m n \<le> f \<Longrightarrow>
    get_loop rs f n (p @ [16]) = Some (if forks rs n p then Panic TypeAssertion else Ok None)"
proof (induction arbitrary: f p rule: twf.induct)
  case (leaf k m v)
  then obtain f' where f: "f = Suc f'" by (cases f) (auto simp: fuel_for_def)
  have "\<not> forks rs (shortNode k (valueNode v)) p" by (auto simp: forks_def)
  with leaf f show ?case by (simp add: get_loop.simps(2))
next
  case (ext k m n n')
  then obtain f' where f: "f = Suc f'" by (cases f) (auto simp: fuel_for_def)
  show ?case
  proof (cases "take (length k) p = k")
    case True
    define p' where "p' = drop (length k) p"
    have p: "p = k @ p'" using True unfolding p'_def by (metis append_take_drop_id)
    have "fuel_for m n \<le> f'" using ext.hyps(1) ext.prems f fuel_for_le [of m n] by (cases k) (auto simp: fuel_for_def)
    then have "get_loop rs f' n (p' @ [16]) = Some (if forks rs n p' then Panic TypeAssertion else Ok None)"
      using ext.IH [of p' f'] ext.prems p by simp
    moreover have "forks rs (shortNode k n) p \<longleftrightarrow> forks rs n p'" by (simp add: forks_def p)
    ultimately show ?thesis using f p by (simp add: get_loop.simps(2))
  next
    case False
    have no: "\<not> forks rs (shortNode k n) p"
    proof
      assume "forks rs (shortNode k n) p"
      then obtain a b K1 K2 r1 r2 where e: "p @ a # K1 = k @ r1" "p @ b # K2 = k @ r2" "a \<noteq> b" by (auto simp: forks_def)
      have "length p < length k" using False e(1) by (metis append_eq_append_conv_if linorder_not_less)
      then have "a = k ! length p" "b = k ! length p" using e by (metis nth_append_length nth_append)+
      with e(3) show False by simp
    qed
    have "k \<noteq> take (length k) (p @ [16])"
    proof
      assume k: "k = take (length k) (p @ [16])"
      show False
      proof (cases "length k \<le> length p")
        case True
        with k False show False by simp
      next
        case b: False
        then have "k = p @ [16]" using k by simp
        with ext.hyps(2) show False by simp
      qed
    qed
    with no f show ?thesis by (auto simp: get_loop.simps(2))
  qed
next
  case (full cs m i j)
  then obtain f' where f: "f = Suc (Suc f')" by (cases f; cases "f - 1") (auto simp: fuel_for_def)
  have ne: "\<exists>K v. has rs (cs ! l) K v" if "l < 16" "cs ! l \<noteq> nilNode" for l
    using twf_nonempty full.IH that by blast
  show ?case
  proof (cases p)
    case Nil
    obtain K1 v1 K2 v2 where "has rs (cs ! i) K1 v1" "has rs (cs ! j) K2 v2" using ne full.hyps by (metis order_less_trans)
    moreover have u: "unat (of_nat i :: byte) = i" "unat (of_nat j :: byte) = j" using full.hyps by (simp_all add: unat_of_nat)
    moreover have "(of_nat i :: byte) \<noteq> of_nat j" using u \<open>i < j\<close> by (metis order_less_irrefl)
    ultimately have "has rs (fullNode cs) (of_nat i # K1) v1" "has rs (fullNode cs) (of_nat j # K2) v2" "(of_nat i :: byte) \<noteq> of_nat j"
      using full.hyps by (auto intro: exI [of _ "of_nat i :: byte"] exI [of _ "of_nat j :: byte"])
    then have "forks rs (fullNode cs) []" unfolding forks_def append_Nil by blast
    then show ?thesis using Nil f full.hyps by (simp add: get_loop.simps(2))
  next
    case (Cons a p')
    have a: "unat a < 16" using full.prems(1) Cons by (simp add: unat_less_16)
    then have "forks rs (fullNode cs) p \<longleftrightarrow> forks rs (cs ! unat a) p'" using full.hyps(1) by (simp add: forks_def Cons)
    moreover have "get_loop rs (Suc f') (cs ! unat a) (p' @ [16]) = Some (if forks rs (cs ! unat a) p' then Panic TypeAssertion else Ok None)"
    proof (cases "cs ! unat a = nilNode")
      case True
      then show ?thesis by (simp add: get_loop.simps(2) forks_def)
    next
      case False
      then have "fuel_for m (cs ! unat a) \<le> Suc f'" using full.prems(3) f fuel_for_le [of m "cs ! unat a"] by (simp add: fuel_for_def)
      with False full.IH [OF a] full.prems Cons show ?thesis by auto
    qed
    ultimately show ?thesis using f Cons a full.hyps(1) by (simp add: get_loop.simps(2))
  qed
next
  case (hash h n m)
  then obtain f' where f: "f = Suc f'" by (cases f) (auto simp: fuel_for_def)
  have "forks rs (hashNode h) p \<longleftrightarrow> forks rs n p" using hash.hyps(1) by (simp add: forks_def)
  moreover have "fuel_for m n \<le> f'" using hash f by (simp add: fuel_for_def)
  ultimately show ?case using hash f by (simp add: get_loop.simps(2))
qed


text \<open>Two keys that have \<open>k\<close> as a prefix and go on with different hex digits.\<close>

definition split_after :: "bytes \<Rightarrow> bytes \<Rightarrow> bytes \<Rightarrow> bool" where
  "split_after k k1 k2 \<longleftrightarrow> take (length k) k1 = k \<and> take (length k) k2 = k \<and> k1 ! length k div 16 \<noteq> k2 ! length k div 16"

lemma compactHexDecode_prefix:
  assumes "length k < length k1"
  shows "compactHexDecode k1 = nibbles k @ a # K \<longleftrightarrow>
    take (length k) k1 = k \<and> a = k1 ! length k div 16 \<and> K = k1 ! length k mod 16 # nibbles (drop (Suc (length k)) k1) @ [16]"
proof -
  have "nibbles k1 = nibbles (take (length k) k1) @ nibbles (k1 ! length k # drop (Suc (length k)) k1)"
    using assms by (metis append_take_drop_id Cons_nth_drop_Suc nibbles_simps(3))
  then show ?thesis using assms by (auto simp: compactHexDecode_def)
qed

lemma forks_split_after:
  assumes r: "trie_rel L d t m" and k: "length k < L"
  shows "forks (resolver_of d) (root t) (nibbles k) \<longleftrightarrow> (\<exists>k1 \<in> dom m. \<exists>k2 \<in> dom m. split_after k k1 k2)"
proof -
  have dm: "length k1 = L" if "m k1 = Some v" for k1 v using r that by (auto simp: trie_rel_def)
  have h: "has (resolver_of d) (root t) (compactHexDecode k1) v \<longleftrightarrow> m k1 = Some v" if "length k1 = L" for k1 v
    using r that by (auto simp: trie_rel_def stores_def)
  have key: "\<exists>k1. K = compactHexDecode k1 \<and> length k1 = L" if "has (resolver_of d) (root t) K v" for K v
    using that has_length [of "resolver_of d" "2 * L + 1" "root t" K v] r hexterm_key [of K L] by (auto simp: trie_rel_def trie_wf_def)
  show ?thesis
  proof
    assume "forks (resolver_of d) (root t) (nibbles k)"
    then obtain a b K1 K2 v1 v2 where f: "has (resolver_of d) (root t) (nibbles k @ a # K1) v1"
      "has (resolver_of d) (root t) (nibbles k @ b # K2) v2" "a \<noteq> b" by (auto simp: forks_def)
    from key [OF f(1)] key [OF f(2)] obtain k1 k2 where e: "nibbles k @ a # K1 = compactHexDecode k1" "length k1 = L"
      "nibbles k @ b # K2 = compactHexDecode k2" "length k2 = L" by blast
    then have "split_after k k1 k2"
      using compactHexDecode_prefix [of k k1 a K1] compactHexDecode_prefix [of k k2 b K2] k f(3) by (auto simp: split_after_def)
    moreover have "m k1 = Some v1" "m k2 = Some v2" using f(1,2) h e by auto
    ultimately show "\<exists>k1 \<in> dom m. \<exists>k2 \<in> dom m. split_after k k1 k2" by blast
  next
    assume "\<exists>k1 \<in> dom m. \<exists>k2 \<in> dom m. split_after k k1 k2"
    then obtain k1 k2 v1 v2 where s: "m k1 = Some v1" "m k2 = Some v2" "split_after k k1 k2" by blast
    have "\<exists>K. compactHexDecode k1 = nibbles k @ k1 ! length k div 16 # K" "\<exists>K. compactHexDecode k2 = nibbles k @ k2 ! length k div 16 # K"
      using compactHexDecode_prefix [of k k1] compactHexDecode_prefix [of k k2] dm s k by (auto simp: split_after_def)
    moreover have "has (resolver_of d) (root t) (compactHexDecode k1) v1" "has (resolver_of d) (root t) (compactHexDecode k2) v2"
      using h dm s by auto
    ultimately show "forks (resolver_of d) (root t) (nibbles k)" using s(3) unfolding forks_def split_after_def by metis
  qed
qed

section \<open>Properties\<close>

text \<open>C12. On keys of one length the trie is a map: from any well-formed trie that represents the map
  \<open>m\<close> (loaded or partly in the database, as long as its hash nodes resolve), every sequence of
  \<open>Update\<close>, \<open>Delete\<close> and \<open>Get\<close> runs to its end without a panic, with \<open>4L+4\<close> steps for each
  operation or more, every \<open>Get\<close> answers what the map holds at that point, and the trie reached
  represents the map the sequence leads to. Updating with the empty value deletes.\<close>

theorem trie_refines_map:
  assumes "trie_rel L d t m" "\<forall>opn \<in> set ops. length (op_key opn) = L"
  shows "\<exists>t'. kv_run (Trie_Get (trie_fuel L + e)) (Trie_Update (trie_fuel L + e)) (Trie_Delete (trie_fuel L + e)) t ops
      = Some (Ok (t', map_answers m ops)) \<and> trie_rel L d t' (map_after m ops)"
  using trie.run_refines [of L d t m ops e] assms by blast

text \<open>C13. The shape of a trie, and with it the root hash, depends on its contents only: two
  sequences of operations on the zero-value trie that lead to the same map produce the same trie
  and the same \<open>Hash\<close>, whatever their order and whatever was deleted on the way.\<close>

theorem trie_shape_canonical:
  assumes "\<forall>opn \<in> set (ops @ ops'). length (op_key opn) = L" "map_after (\<lambda>_. None) ops = map_after (\<lambda>_. None) ops'"
  shows "\<exists>t a a'. kv_run (Trie_Get (trie_fuel L)) (Trie_Update (trie_fuel L)) (Trie_Delete (trie_fuel L)) zero_trie ops = Some (Ok (t, a)) \<and>
    kv_run (Trie_Get (trie_fuel L)) (Trie_Update (trie_fuel L)) (Trie_Delete (trie_fuel L)) zero_trie ops' = Some (Ok (t, a'))"
proof -
  have "\<exists>t'. kv_run (Trie_Get (trie_fuel L)) (Trie_Update (trie_fuel L)) (Trie_Delete (trie_fuel L)) zero_trie os
      = Some (Ok (t', map_answers (\<lambda>_. None) os)) \<and> trie_rel L None t' (map_after (\<lambda>_. None) os)"
    if "\<forall>opn \<in> set os. length (op_key opn) = L" for os
    using trie.run_refines [of L None zero_trie "\<lambda>_. None" os 0] zero_trie_rel that by simp
  from this [of ops] this [of ops'] show ?thesis using assms trie_rel_unique by fastforce
qed

text \<open>A concrete run for the two witnesses.\<close>

theorem trie_refines_map_witness:
  "\<exists>t'. kv_run (Trie_Get (trie_fuel 1 + 0)) (Trie_Update (trie_fuel 1 + 0)) (Trie_Delete (trie_fuel 1 + 0)) zero_trie
     [KUpdate [1] [7], KUpdate [2] [8], KDelete [1], KGet [1], KGet [2]] = Some (Ok (t', [None, Some [8]]))"
  using trie_refines_map [of 1 None zero_trie "\<lambda>_. None" "[KUpdate [1] [7], KUpdate [2] [8], KDelete [1], KGet [1], KGet [2]]" 0]
    zero_trie_rel [of 1] by (auto simp: map_update_def)

theorem trie_shape_canonical_witness:
  "\<exists>t a a'. kv_run (Trie_Get (trie_fuel 1)) (Trie_Update (trie_fuel 1)) (Trie_Delete (trie_fuel 1)) zero_trie
      [KUpdate [1] [7], KUpdate [2] [8]] = Some (Ok (t, a)) \<and>
    kv_run (Trie_Get (trie_fuel 1)) (Trie_Update (trie_fuel 1)) (Trie_Delete (trie_fuel 1)) zero_trie
      [KUpdate [3] [9], KUpdate [2] [8], KDelete [3], KUpdate [1] [7]] = Some (Ok (t, a'))"
proof -
  have "map_after (\<lambda>_. None) [KUpdate [1] [7], KUpdate [2] [8]]
      = map_after (\<lambda>_. None) [KUpdate [3] [9], KUpdate [2] [8], KDelete [3], KUpdate [1] [7]]"
    by (intro HOL.ext) (simp add: map_update_def)
  then show ?thesis
    using trie_shape_canonical [of "[KUpdate [1] [7], KUpdate [2] [8]]" "[KUpdate [3] [9], KUpdate [2] [8], KDelete [3], KUpdate [1] [7]]" 1]
    by simp
qed

text \<open>C14. A key that is shorter than the stored ones. Looking it up returns nil, as for any key that was
  never stored, unless the trie branches exactly where the key ends, that is when two stored keys have it
  as a prefix and go on with different hex digits: then the loop ends on the empty value slot of the
  branch and the type assertion \<open>tn.(valueNode)\<close> panics.\<close>

theorem Get_shorter_key:
  assumes "trie_rel L d t m" "length k < L"
  shows "Trie_Get (trie_fuel L + e) t k =
    Some (if \<exists>k1 \<in> dom m. \<exists>k2 \<in> dom m. split_after k k1 k2 then Panic TypeAssertion else Ok None)"
proof (cases "root t = nilNode")
  case True
  then have "m k1 \<noteq> Some v" for k1 v using assms(1) by (auto simp: trie_rel_def stores_def)
  then have "dom m = {}" by (auto simp: dom_def)
  moreover obtain f where "trie_fuel L + e = Suc f" by (rule trie_fuel_Suc)
  ultimately show ?thesis using True by (simp add: Trie_Get_def compactHexDecode_def get_loop.simps(2))
next
  case False
  have d: "tdb t = d" using assms(1) by (simp add: trie_rel_def)
  have "twf (resolver_of d) (2 * L + 1) (root t)" using False assms(1) by (auto simp: trie_rel_def trie_wf_def)
  from get_loop_prefix [OF this nibbles_lt [of k] _ fuel_enough] assms(2)
  show ?thesis unfolding Trie_Get_def d compactHexDecode_def forks_split_after [OF assms, symmetric] by simp
qed

text \<open>``dog'' and ``dot'' are stored: looking up ``do'' panics, ``d'' returns nil.\<close>

theorem Get_shorter_key_witness:
  "\<exists>t. kv_run (Trie_Get (trie_fuel 3 + 0)) (Trie_Update (trie_fuel 3 + 0)) (Trie_Delete (trie_fuel 3 + 0)) zero_trie
      [KUpdate [0x64, 0x6F, 0x67] [1], KUpdate [0x64, 0x6F, 0x74] [2]] = Some (Ok (t, [])) \<and>
    Trie_Get (trie_fuel 3 + 0) t [0x64, 0x6F] = Some (Panic TypeAssertion) \<and> Trie_Get (trie_fuel 3 + 0) t [0x64] = Some (Ok None)"
proof -
  let ?ops = "[KUpdate [0x64, 0x6F, 0x67] [1], KUpdate [0x64, 0x6F, 0x74] [2]]" and ?m = "[[0x64, 0x6F, 0x67] \<mapsto> [1], [0x64, 0x6F, 0x74] \<mapsto> [2 :: byte]]"
  obtain t where t: "kv_run (Trie_Get (trie_fuel 3 + 0)) (Trie_Update (trie_fuel 3 + 0)) (Trie_Delete (trie_fuel 3 + 0)) zero_trie ?ops = Some (Ok (t, []))"
    "trie_rel 3 None t ?m"
    using trie.run_refines [OF zero_trie_rel [of 3], of ?ops 0] by (fastforce simp: map_update_def)
  then show ?thesis using Get_shorter_key [OF t(2), of "[0x64, 0x6F]" 0] Get_shorter_key [OF t(2), of "[0x64]" 0]
    by (simp add: split_after_def)
qed

end
