(* ===== verification/Evm_Opcodes.thy ===== *)
theory Evm_Opcodes
  imports Prelude
begin

text \<open>
  The opcodes of \<open>core/vm/opcodes.go\<close>: their numbers, the names they print as, and the names the
  assembler accepts. Maps are association lists in the order of the source.
\<close>

section \<open>Numbers\<close>

definition opcodes_arith :: "(string \<times> byte) list" where
  "opcodes_arith =
    [(''STOP'', 0x00), (''ADD'', 0x01), (''MUL'', 0x02), (''SUB'', 0x03), (''DIV'', 0x04), (''SDIV'', 0x05),
     (''MOD'', 0x06), (''SMOD'', 0x07), (''ADDMOD'', 0x08), (''MULMOD'', 0x09), (''EXP'', 0x0A), (''SIGNEXTEND'', 0x0B)]"

definition opcodes_compare :: "(string \<times> byte) list" where
  "opcodes_compare =
    [(''LT'', 0x10), (''GT'', 0x11), (''SLT'', 0x12), (''SGT'', 0x13), (''EQ'', 0x14), (''ISZERO'', 0x15),
     (''AND'', 0x16), (''OR'', 0x17), (''XOR'', 0x18), (''NOT'', 0x19), (''BYTE'', 0x1A), (''SHA3'', 0x20)]"

definition opcodes_closure :: "(string \<times> byte) list" where
  "opcodes_closure =
    [(''ADDRESS'', 0x30), (''BALANCE'', 0x31), (''ORIGIN'', 0x32), (''CALLER'', 0x33), (''CALLVALUE'', 0x34), (''CALLDATALOAD'', 0x35),
     (''CALLDATASIZE'', 0x36), (''CALLDATACOPY'', 0x37), (''CODESIZE'', 0x38), (''CODECOPY'', 0x39), (''GASPRICE'', 0x3A), (''EXTCODESIZE'', 0x3B),
     (''EXTCODECOPY'', 0x3C)]"

definition opcodes_block :: "(string \<times> byte) list" where
  "opcodes_block =
    [(''BLOCKHASH'', 0x40), (''COINBASE'', 0x41), (''TIMESTAMP'', 0x42), (''NUMBER'', 0x43), (''DIFFICULTY'', 0x44), (''GASLIMIT'', 0x45)]"

definition opcodes_storage :: "(string \<times> byte) list" where
  "opcodes_storage =
    [(''POP'', 0x50), (''MLOAD'', 0x51), (''MSTORE'', 0x52), (''MSTORE8'', 0x53), (''SLOAD'', 0x54), (''SSTORE'', 0x55),
     (''JUMP'', 0x56), (''JUMPI'', 0x57), (''PC'', 0x58), (''MSIZE'', 0x59), (''GAS'', 0x5A), (''JUMPDEST'', 0x5B)]"

definition opcodes_push_dup_swap :: "(string \<times> byte) list" where
  "opcodes_push_dup_swap =
    [(''PUSH1'', 0x60), (''PUSH2'', 0x61), (''PUSH3'', 0x62), (''PUSH4'', 0x63), (''PUSH5'', 0x64), (''PUSH6'', 0x65),
     (''PUSH7'', 0x66), (''PUSH8'', 0x67), (''PUSH9'', 0x68), (''PUSH10'', 0x69), (''PUSH11'', 0x6A), (''PUSH12'', 0x6B),
     (''PUSH13'', 0x6C), (''PUSH14'', 0x6D), (''PUSH15'', 0x6E), (''PUSH16'', 0x6F), (''PUSH17'', 0x70), (''PUSH18'', 0x71),
     (''PUSH19'', 0x72), (''PUSH20'', 0x73), (''PUSH21'', 0x74), (''PUSH22'', 0x75), (''PUSH23'', 0x76), (''PUSH24'', 0x77),
     (''PUSH25'', 0x78), (''PUSH26'', 0x79), (''PUSH27'', 0x7A), (''PUSH28'', 0x7B), (''PUSH29'', 0x7C), (''PUSH30'', 0x7D),
     (''PUSH31'', 0x7E), (''PUSH32'', 0x7F), (''DUP1'', 0x80), (''DUP2'', 0x81), (''DUP3'', 0x82), (''DUP4'', 0x83),
     (''DUP5'', 0x84), (''DUP6'', 0x85), (''DUP7'', 0x86), (''DUP8'', 0x87), (''DUP9'', 0x88), (''DUP10'', 0x89),
     (''DUP11'', 0x8A), (''DUP12'', 0x8B), (''DUP13'', 0x8C), (''DUP14'', 0x8D), (''DUP15'', 0x8E), (''DUP16'', 0x8F),
     (''SWAP1'', 0x90), (''SWAP2'', 0x91), (''SWAP3'', 0x92), (''SWAP4'', 0x93), (''SWAP5'', 0x94), (''SWAP6'', 0x95),
     (''SWAP7'', 0x96), (''SWAP8'', 0x97), (''SWAP9'', 0x98), (''SWAP10'', 0x99), (''SWAP11'', 0x9A), (''SWAP12'', 0x9B),
     (''SWAP13'', 0x9C), (''SWAP14'', 0x9D), (''SWAP15'', 0x9E), (''SWAP16'', 0x9F)]"

definition opcodes_log :: "(string \<times> byte) list" where
  "opcodes_log =
    [(''LOG0'', 0xA0), (''LOG1'', 0xA1), (''LOG2'', 0xA2), (''LOG3'', 0xA3), (''LOG4'', 0xA4)]"

definition opcodes_parsing :: "(string \<times> byte) list" where
  "opcodes_parsing =
    [(''PUSH'', 0xB0), (''DUP'', 0xB1), (''SWAP'', 0xB2)]"

definition opcodes_system :: "(string \<times> byte) list" where
  "opcodes_system =
    [(''CREATE'', 0xF0), (''CALL'', 0xF1), (''CALLCODE'', 0xF2), (''RETURN'', 0xF3), (''DELEGATECALL'', 0xF4), (''SUICIDE'', 0xFF)]"

definition opcodes :: "(string \<times> byte) list" where
  "opcodes = opcodes_arith @ opcodes_compare @ opcodes_closure @ opcodes_block @ opcodes_storage @ opcodes_push_dup_swap @ opcodes_log @ opcodes_parsing @ opcodes_system"

text \<open>Names for the numbers, used by the interpreter.\<close>

abbreviation iSTOP :: byte where "iSTOP \<equiv> 0x00"
abbreviation iADD :: byte where "iADD \<equiv> 0x01"
abbreviation iMUL :: byte where "iMUL \<equiv> 0x02"
abbreviation iSUB :: byte where "iSUB \<equiv> 0x03"
abbreviation iDIV :: byte where "iDIV \<equiv> 0x04"
abbreviation iSDIV :: byte where "iSDIV \<equiv> 0x05"
abbreviation iMOD :: byte where "iMOD \<equiv> 0x06"
abbreviation iSMOD :: byte where "iSMOD \<equiv> 0x07"
abbreviation iADDMOD :: byte where "iADDMOD \<equiv> 0x08"
abbreviation iMULMOD :: byte where "iMULMOD \<equiv> 0x09"
abbreviation iEXP :: byte where "iEXP \<equiv> 0x0A"
abbreviation iSIGNEXTEND :: byte where "iSIGNEXTEND \<equiv> 0x0B"
abbreviation iLT :: byte where "iLT \<equiv> 0x10"
abbreviation iGT :: byte where "iGT \<equiv> 0x11"
abbreviation iSLT :: byte where "iSLT \<equiv> 0x12"
abbreviation iSGT :: byte where "iSGT \<equiv> 0x13"
abbreviation iEQ :: byte where "iEQ \<equiv> 0x14"
abbreviation iISZERO :: byte where "iISZERO \<equiv> 0x15"
abbreviation iAND :: byte where "iAND \<equiv> 0x16"
abbreviation iOR :: byte where "iOR \<equiv> 0x17"
abbreviation iXOR :: byte where "iXOR \<equiv> 0x18"
abbreviation iNOT :: byte where "iNOT \<equiv> 0x19"
abbreviation iBYTE :: byte where "iBYTE \<equiv> 0x1A"
abbreviation iSHA3 :: byte where "iSHA3 \<equiv> 0x20"
abbreviation iADDRESS :: byte where "iADDRESS \<equiv> 0x30"
abbreviation iBALANCE :: byte where "iBALANCE \<equiv> 0x31"
abbreviation iORIGIN :: byte where "iORIGIN \<equiv> 0x32"
abbreviation iCALLER :: byte where "iCALLER \<equiv> 0x33"
abbreviation iCALLVALUE :: byte where "iCALLVALUE \<equiv> 0x34"
abbreviation iCALLDATALOAD :: byte where "iCALLDATALOAD \<equiv> 0x35"
abbreviation iCALLDATASIZE :: byte where "iCALLDATASIZE \<equiv> 0x36"
abbreviation iCALLDATACOPY :: byte where "iCALLDATACOPY \<equiv> 0x37"
abbreviation iCODESIZE :: byte where "iCODESIZE \<equiv> 0x38"
abbreviation iCODECOPY :: byte where "iCODECOPY \<equiv> 0x39"
abbreviation iGASPRICE :: byte where "iGASPRICE \<equiv> 0x3A"
abbreviation iEXTCODESIZE :: byte where "iEXTCODESIZE \<equiv> 0x3B"
abbreviation iEXTCODECOPY :: byte where "iEXTCODECOPY \<equiv> 0x3C"
abbreviation iBLOCKHASH :: byte where "iBLOCKHASH \<equiv> 0x40"
abbreviation iCOINBASE :: byte where "iCOINBASE \<equiv> 0x41"
abbreviation iTIMESTAMP :: byte where "iTIMESTAMP \<equiv> 0x42"
abbreviation iNUMBER :: byte where "iNUMBER \<equiv> 0x43"
abbreviation iDIFFICULTY :: byte where "iDIFFICULTY \<equiv> 0x44"
abbreviation iGASLIMIT :: byte where "iGASLIMIT \<equiv> 0x45"
abbreviation iPOP :: byte where "iPOP \<equiv> 0x50"
abbreviation iMLOAD :: byte where "iMLOAD \<equiv> 0x51"
abbreviation iMSTORE :: byte where "iMSTORE \<equiv> 0x52"
abbreviation iMSTORE8 :: byte where "iMSTORE8 \<equiv> 0x53"
abbreviation iSLOAD :: byte where "iSLOAD \<equiv> 0x54"
abbreviation iSSTORE :: byte where "iSSTORE \<equiv> 0x55"
abbreviation iJUMP :: byte where "iJUMP \<equiv> 0x56"
abbreviation iJUMPI :: byte where "iJUMPI \<equiv> 0x57"
abbreviation iPC :: byte where "iPC \<equiv> 0x58"
abbreviation iMSIZE :: byte where "iMSIZE \<equiv> 0x59"
abbreviation iGAS :: byte where "iGAS \<equiv> 0x5A"
abbreviation iJUMPDEST :: byte where "iJUMPDEST \<equiv> 0x5B"
abbreviation iPUSH1 :: byte where "iPUSH1 \<equiv> 0x60"
abbreviation iPUSH2 :: byte where "iPUSH2 \<equiv> 0x61"
abbreviation iPUSH3 :: byte where "iPUSH3 \<equiv> 0x62"
abbreviation iPUSH4 :: byte where "iPUSH4 \<equiv> 0x63"
abbreviation iPUSH5 :: byte where "iPUSH5 \<equiv> 0x64"
abbreviation iPUSH6 :: byte where "iPUSH6 \<equiv> 0x65"
abbreviation iPUSH7 :: byte where "iPUSH7 \<equiv> 0x66"
abbreviation iPUSH8 :: byte where "iPUSH8 \<equiv> 0x67"
abbreviation iPUSH9 :: byte where "iPUSH9 \<equiv> 0x68"
abbreviation iPUSH10 :: byte where "iPUSH10 \<equiv> 0x69"
abbreviation iPUSH11 :: byte where "iPUSH11 \<equiv> 0x6A"
abbreviation iPUSH12 :: byte where "iPUSH12 \<equiv> 0x6B"
abbreviation iPUSH13 :: byte where "iPUSH13 \<equiv> 0x6C"
abbreviation iPUSH14 :: byte where "iPUSH14 \<equiv> 0x6D"
abbreviation iPUSH15 :: byte where "iPUSH15 \<equiv> 0x6E"
abbreviation iPUSH16 :: byte where "iPUSH16 \<equiv> 0x6F"
abbreviation iPUSH17 :: byte where "iPUSH17 \<equiv> 0x70"
abbreviation iPUSH18 :: byte where "iPUSH18 \<equiv> 0x71"
abbreviation iPUSH19 :: byte where "iPUSH19 \<equiv> 0x72"
abbreviation iPUSH20 :: byte where "iPUSH20 \<equiv> 0x73"
abbreviation iPUSH21 :: byte where "iPUSH21 \<equiv> 0x74"
abbreviation iPUSH22 :: byte where "iPUSH22 \<equiv> 0x75"
abbreviation iPUSH23 :: byte where "iPUSH23 \<equiv> 0x76"
abbreviation iPUSH24 :: byte where "iPUSH24 \<equiv> 0x77"
abbreviation iPUSH25 :: byte where "iPUSH25 \<equiv> 0x78"
abbreviation iPUSH26 :: byte where "iPUSH26 \<equiv> 0x79"
abbreviation iPUSH27 :: byte where "iPUSH27 \<equiv> 0x7A"
abbreviation iPUSH28 :: byte where "iPUSH28 \<equiv> 0x7B"
abbreviation iPUSH29 :: byte where "iPUSH29 \<equiv> 0x7C"
abbreviation iPUSH30 :: byte where "iPUSH30 \<equiv> 0x7D"
abbreviation iPUSH31 :: byte where "iPUSH31 \<equiv> 0x7E"
abbreviation iPUSH32 :: byte where "iPUSH32 \<equiv> 0x7F"
abbreviation iDUP1 :: byte where "iDUP1 \<equiv> 0x80"
abbreviation iDUP2 :: byte where "iDUP2 \<equiv> 0x81"
abbreviation iDUP3 :: byte where "iDUP3 \<equiv> 0x82"
abbreviation iDUP4 :: byte where "iDUP4 \<equiv> 0x83"
abbreviation iDUP5 :: byte where "iDUP5 \<equiv> 0x84"
abbreviation iDUP6 :: byte where "iDUP6 \<equiv> 0x85"
abbreviation iDUP7 :: byte where "iDUP7 \<equiv> 0x86"
abbreviation iDUP8 :: byte where "iDUP8 \<equiv> 0x87"
abbreviation iDUP9 :: byte where "iDUP9 \<equiv> 0x88"
abbreviation iDUP10 :: byte where "iDUP10 \<equiv> 0x89"
abbreviation iDUP11 :: byte where "iDUP11 \<equiv> 0x8A"
abbreviation iDUP12 :: byte where "iDUP12 \<equiv> 0x8B"
abbreviation iDUP13 :: byte where "iDUP13 \<equiv> 0x8C"
abbreviation iDUP14 :: byte where "iDUP14 \<equiv> 0x8D"
abbreviation iDUP15 :: byte where "iDUP15 \<equiv> 0x8E"
abbreviation iDUP16 :: byte where "iDUP16 \<equiv> 0x8F"
abbreviation iSWAP1 :: byte where "iSWAP1 \<equiv> 0x90"
abbreviation iSWAP2 :: byte where "iSWAP2 \<equiv> 0x91"
abbreviation iSWAP3 :: byte where "iSWAP3 \<equiv> 0x92"
abbreviation iSWAP4 :: byte where "iSWAP4 \<equiv> 0x93"
abbreviation iSWAP5 :: byte where "iSWAP5 \<equiv> 0x94"
abbreviation iSWAP6 :: byte where "iSWAP6 \<equiv> 0x95"
abbreviation iSWAP7 :: byte where "iSWAP7 \<equiv> 0x96"
abbreviation iSWAP8 :: byte where "iSWAP8 \<equiv> 0x97"
abbreviation iSWAP9 :: byte where "iSWAP9 \<equiv> 0x98"
abbreviation iSWAP10 :: byte where "iSWAP10 \<equiv> 0x99"
abbreviation iSWAP11 :: byte where "iSWAP11 \<equiv> 0x9A"
abbreviation iSWAP12 :: byte where "iSWAP12 \<equiv> 0x9B"
abbreviation iSWAP13 :: byte where "iSWAP13 \<equiv> 0x9C"
abbreviation iSWAP14 :: byte where "iSWAP14 \<equiv> 0x9D"
abbreviation iSWAP15 :: byte where "iSWAP15 \<equiv> 0x9E"
abbreviation iSWAP16 :: byte where "iSWAP16 \<equiv> 0x9F"
abbreviation iLOG0 :: byte where "iLOG0 \<equiv> 0xA0"
abbreviation iLOG1 :: byte where "iLOG1 \<equiv> 0xA1"
abbreviation iLOG2 :: byte where "iLOG2 \<equiv> 0xA2"
abbreviation iLOG3 :: byte where "iLOG3 \<equiv> 0xA3"
abbreviation iLOG4 :: byte where "iLOG4 \<equiv> 0xA4"
abbreviation iPUSH :: byte where "iPUSH \<equiv> 0xB0"
abbreviation iDUP :: byte where "iDUP \<equiv> 0xB1"
abbreviation iSWAP :: byte where "iSWAP \<equiv> 0xB2"
abbreviation iCREATE :: byte where "iCREATE \<equiv> 0xF0"
abbreviation iCALL :: byte where "iCALL \<equiv> 0xF1"
abbreviation iCALLCODE :: byte where "iCALLCODE \<equiv> 0xF2"
abbreviation iRETURN :: byte where "iRETURN \<equiv> 0xF3"
abbreviation iDELEGATECALL :: byte where "iDELEGATECALL \<equiv> 0xF4"
abbreviation iSUICIDE :: byte where "iSUICIDE \<equiv> 0xFF"

definition IsPush :: "byte \<Rightarrow> bool" where
  "IsPush op \<longleftrightarrow> op \<in> set [0x60, 0x61, 0x62, 0x63, 0x64, 0x65, 0x66, 0x67, 0x68, 0x69, 0x6A, 0x6B, 0x6C, 0x6D, 0x6E, 0x6F,
     0x70, 0x71, 0x72, 0x73, 0x74, 0x75, 0x76, 0x77, 0x78, 0x79, 0x7A, 0x7B, 0x7C, 0x7D, 0x7E, 0x7F]"

definition IsStaticJump :: "byte \<Rightarrow> bool" where
  "IsStaticJump op \<longleftrightarrow> op = iJUMP"

section \<open>Names\<close>

definition opCodeToString :: "(byte \<times> string) list" where
  "opCodeToString =
    [(iSTOP, ''STOP''), (iADD, ''ADD''), (iMUL, ''MUL''), (iSUB, ''SUB''), (iDIV, ''DIV''), (iSDIV, ''SDIV''),
     (iMOD, ''MOD''), (iSMOD, ''SMOD''), (iEXP, ''EXP''), (iNOT, ''NOT''), (iLT, ''LT''), (iGT, ''GT''),
     (iSLT, ''SLT''), (iSGT, ''SGT''), (iEQ, ''EQ''), (iISZERO, ''ISZERO''), (iSIGNEXTEND, ''SIGNEXTEND''), (iAND, ''AND''),
     (iOR, ''OR''), (iXOR, ''XOR''), (iBYTE, ''BYTE''), (iADDMOD, ''ADDMOD''), (iMULMOD, ''MULMOD''), (iSHA3, ''SHA3''),
     (iADDRESS, ''ADDRESS''), (iBALANCE, ''BALANCE''), (iORIGIN, ''ORIGIN''), (iCALLER, ''CALLER''), (iCALLVALUE, ''CALLVALUE''), (iCALLDATALOAD, ''CALLDATALOAD''),
     (iCALLDATASIZE, ''CALLDATASIZE''), (iCALLDATACOPY, ''CALLDATACOPY''), (iCODESIZE, ''CODESIZE''), (iCODECOPY, ''CODECOPY''), (iGASPRICE, ''TXGASPRICE''), (iBLOCKHASH, ''BLOCKHASH''),
     (iCOINBASE, ''COINBASE''), (iTIMESTAMP, ''TIMESTAMP''), (iNUMBER, ''NUMBER''), (iDIFFICULTY, ''DIFFICULTY''), (iGASLIMIT, ''GASLIMIT''), (iEXTCODESIZE, ''EXTCODESIZE''),
     (iEXTCODECOPY, ''EXTCODECOPY''), (iPOP, ''POP''), (iMLOAD, ''MLOAD''), (iMSTORE, ''MSTORE''),
     (iMSTORE8, ''MSTORE8''), (iSLOAD, ''SLOAD''), (iSSTORE, ''SSTORE''), (iJUMP, ''JUMP''), (iJUMPI, ''JUMPI''), (iPC, ''PC''),
     (iMSIZE, ''MSIZE''), (iGAS, ''GAS''), (iJUMPDEST, ''JUMPDEST''), (iPUSH1, ''PUSH1''), (iPUSH2, ''PUSH2''), (iPUSH3, ''PUSH3''),
     (iPUSH4, ''PUSH4''), (iPUSH5, ''PUSH5''), (iPUSH6, ''PUSH6''), (iPUSH7, ''PUSH7''), (iPUSH8, ''PUSH8''), (iPUSH9, ''PUSH9''),
     (iPUSH10, ''PUSH10''), (iPUSH11, ''PUSH11''), (iPUSH12, ''PUSH12''), (iPUSH13, ''PUSH13''), (iPUSH14, ''PUSH14''), (iPUSH15, ''PUSH15''),
     (iPUSH16, ''PUSH16''), (iPUSH17, ''PUSH17''), (iPUSH18, ''PUSH18''), (iPUSH19, ''PUSH19''), (iPUSH20, ''PUSH20''), (iPUSH21, ''PUSH21''),
     (iPUSH22, ''PUSH22''), (iPUSH23, ''PUSH23''), (iPUSH24, ''PUSH24''), (iPUSH25, ''PUSH25''), (iPUSH26, ''PUSH26''), (iPUSH27, ''PUSH27''),
     (iPUSH28, ''PUSH28''), (iPUSH29, ''PUSH29''), (iPUSH30, ''PUSH30''), (iPUSH31, ''PUSH31''), (iPUSH32, ''PUSH32''), (iDUP1, ''DUP1''),
     (iDUP2, ''DUP2''), (iDUP3, ''DUP3''), (iDUP4, ''DUP4''), (iDUP5, ''DUP5''), (iDUP6, ''DUP6''), (iDUP7, ''DUP7''),
     (iDUP8, ''DUP8''), (iDUP9, ''DUP9''), (iDUP10, ''DUP10''), (iDUP11, ''DUP11''), (iDUP12, ''DUP12''), (iDUP13, ''DUP13''),
     (iDUP14, ''DUP14''), (iDUP15, ''DUP15''), (iDUP16, ''DUP16''), (iSWAP1, ''SWAP1''), (iSWAP2, ''SWAP2''), (iSWAP3, ''SWAP3''),
     (iSWAP4, ''SWAP4''), (iSWAP5, ''SWAP5''), (iSWAP6, ''SWAP6''), (iSWAP7, ''SWAP7''), (iSWAP8, ''SWAP8''), (iSWAP9, ''SWAP9''),
     (iSWAP10, ''SWAP10''), (iSWAP11, ''SWAP11''), (iSWAP12, ''SWAP12''), (iSWAP13, ''SWAP13''), (iSWAP14, ''SWAP14''), (iSWAP15, ''SWAP15''),
     (iSWAP16, ''SWAP16''), (iLOG0, ''LOG0''), (iLOG1, ''LOG1''), (iLOG2, ''LOG2''), (iLOG3, ''LOG3''), (iLOG4, ''LOG4''),
     (iCREATE, ''CREATE''), (iCALL, ''CALL''), (iRETURN, ''RETURN''), (iCALLCODE, ''CALLCODE''), (iDELEGATECALL, ''DELEGATECALL''), (iSUICIDE, ''SUICIDE''),
     (iPUSH, ''PUSH''), (iDUP, ''DUP''), (iSWAP, ''SWAP'')]"

definition stringToOp :: "(string \<times> byte) list" where
  "stringToOp =
    [(''STOP'', iSTOP), (''ADD'', iADD), (''MUL'', iMUL), (''SUB'', iSUB), (''DIV'', iDIV), (''SDIV'', iSDIV),
     (''MOD'', iMOD), (''SMOD'', iSMOD), (''EXP'', iEXP), (''NOT'', iNOT), (''LT'', iLT), (''GT'', iGT),
     (''SLT'', iSLT), (''SGT'', iSGT), (''EQ'', iEQ), (''ISZERO'', iISZERO), (''SIGNEXTEND'', iSIGNEXTEND), (''AND'', iAND),
     (''OR'', iOR), (''XOR'', iXOR), (''BYTE'', iBYTE), (''ADDMOD'', iADDMOD), (''MULMOD'', iMULMOD), (''SHA3'', iSHA3),
     (''ADDRESS'', iADDRESS), (''BALANCE'', iBALANCE), (''ORIGIN'', iORIGIN), (''CALLER'', iCALLER), (''CALLVALUE'', iCALLVALUE), (''CALLDATALOAD'', iCALLDATALOAD),
     (''CALLDATASIZE'', iCALLDATASIZE), (''CALLDATACOPY'', iCALLDATACOPY), (''DELEGATECALL'', iDELEGATECALL), (''CODESIZE'', iCODESIZE), (''CODECOPY'', iCODECOPY), (''GASPRICE'', iGASPRICE),
     (''BLOCKHASH'', iBLOCKHASH), (''COINBASE'', iCOINBASE), (''TIMESTAMP'', iTIMESTAMP), (''NUMBER'', iNUMBER), (''DIFFICULTY'', iDIFFICULTY), (''GASLIMIT'', iGASLIMIT),
     (''EXTCODESIZE'', iEXTCODESIZE), (''EXTCODECOPY'', iEXTCODECOPY), (''POP'', iPOP), (''MLOAD'', iMLOAD), (''MSTORE'', iMSTORE), (''MSTORE8'', iMSTORE8),
     (''SLOAD'', iSLOAD), (''SSTORE'', iSSTORE), (''JUMP'', iJUMP), (''JUMPI'', iJUMPI), (''PC'', iPC), (''MSIZE'', iMSIZE),
     (''GAS'', iGAS), (''JUMPDEST'', iJUMPDEST), (''PUSH1'', iPUSH1), (''PUSH2'', iPUSH2), (''PUSH3'', iPUSH3), (''PUSH4'', iPUSH4),
     (''PUSH5'', iPUSH5), (''PUSH6'', iPUSH6), (''PUSH7'', iPUSH7), (''PUSH8'', iPUSH8), (''PUSH9'', iPUSH9), (''PUSH10'', iPUSH10),
     (''PUSH11'', iPUSH11), (''PUSH12'', iPUSH12), (''PUSH13'', iPUSH13), (''PUSH14'', iPUSH14), (''PUSH15'', iPUSH15), (''PUSH16'', iPUSH16),
     (''PUSH17'', iPUSH17), (''PUSH18'', iPUSH18), (''PUSH19'', iPUSH19), (''PUSH20'', iPUSH20), (''PUSH21'', iPUSH21), (''PUSH22'', iPUSH22),
     (''PUSH23'', iPUSH23), (''PUSH24'', iPUSH24), (''PUSH25'', iPUSH25), (''PUSH26'', iPUSH26), (''PUSH27'', iPUSH27), (''PUSH28'', iPUSH28),
     (''PUSH29'', iPUSH29), (''PUSH30'', iPUSH30), (''PUSH31'', iPUSH31), (''PUSH32'', iPUSH32), (''DUP1'', iDUP1), (''DUP2'', iDUP2),
     (''DUP3'', iDUP3), (''DUP4'', iDUP4), (''DUP5'', iDUP5), (''DUP6'', iDUP6), (''DUP7'', iDUP7), (''DUP8'', iDUP8),
     (''DUP9'', iDUP9), (''DUP10'', iDUP10), (''DUP11'', iDUP11), (''DUP12'', iDUP12), (''DUP13'', iDUP13), (''DUP14'', iDUP14),
     (''DUP15'', iDUP15), (''DUP16'', iDUP16), (''SWAP1'', iSWAP1), (''SWAP2'', iSWAP2), (''SWAP3'', iSWAP3), (''SWAP4'', iSWAP4),
     (''SWAP5'', iSWAP5), (''SWAP6'', iSWAP6), (''SWAP7'', iSWAP7), (''SWAP8'', iSWAP8), (''SWAP9'', iSWAP9), (''SWAP10'', iSWAP10),
     (''SWAP11'', iSWAP11), (''SWAP12'', iSWAP12), (''SWAP13'', iSWAP13), (''SWAP14'', iSWAP14), (''SWAP15'', iSWAP15), (''SWAP16'', iSWAP16),
     (''LOG0'', iLOG0), (''LOG1'', iLOG1), (''LOG2'', iLOG2), (''LOG3'', iLOG3), (''LOG4'', iLOG4), (''CREATE'', iCREATE),
     (''CALL'', iCALL), (''RETURN'', iRETURN), (''CALLCODE'', iCALLCODE), (''SUICIDE'', iSUICIDE)]"

text \<open>An unknown opcode prints as a message with its number.\<close>

definition hex_byte :: "byte \<Rightarrow> string" where
  "hex_byte b =
    (let d = (\<lambda>n. ''0123456789abcdef'' ! n); n = unat b
     in if n < 16 then [d n] else [d (n div 16), d (n mod 16)])"

definition OpCode_String :: "byte \<Rightarrow> string" where
  "OpCode_String op =
    (let str = (case map_of opCodeToString op of None \<Rightarrow> [] | Some str \<Rightarrow> str)
     in if length str = 0 then ''Missing opcode 0x'' @ hex_byte op else str)"

text \<open>A missing key of a Go map reads as the zero value, which is \<open>STOP\<close>.\<close>

definition StringToOp :: "string \<Rightarrow> byte" where
  "StringToOp str = (case map_of stringToOp str of None \<Rightarrow> 0 | Some op \<Rightarrow> op)"

section \<open>Properties\<close>

text \<open>The tables with integer keys, which evaluate faster than words.\<close>

definition opCodeToString_int :: "(int \<times> string) list" where
  "opCodeToString_int = map (\<lambda>(op, str). (uint op, str)) opCodeToString"

lemmas opCodeToString_int_code [code] = opCodeToString_int_def [unfolded opCodeToString_def, simplified]

lemma map_of_opCodeToString: "map_of opCodeToString op = map_of opCodeToString_int (uint op)"
proof -
  have "map_of (map (\<lambda>(op, str). (uint op, str)) t) (uint op) = map_of t op" for t :: "(byte \<times> string) list"
    by (induction t) (auto dest: word_uint_eqI)
  then show ?thesis by (simp add: opCodeToString_int_def)
qed

definition names_agree :: "string \<times> byte \<Rightarrow> bool" where
  "names_agree e =
    (StringToOp (fst e) = (if fst e \<in> {''PUSH'', ''DUP'', ''SWAP''} then iSTOP else snd e) \<and>
     map_of opCodeToString_int (uint (snd e)) = Some (if fst e = ''GASPRICE'' then ''TXGASPRICE'' else fst e))"

lemma names_agree_low: "list_all names_agree (take 60 opcodes)"
  by code_simp

lemma names_agree_mid: "list_all names_agree (take 40 (drop 60 opcodes))"
  by code_simp

lemma names_agree_high: "list_all names_agree (drop 100 opcodes)"
  by code_simp

lemma list_all_take_drop: "list_all P (take n xs) \<Longrightarrow> list_all P (drop n xs) \<Longrightarrow> list_all P xs"
  by (metis append_take_drop_id list_all_append)

lemma names_agree_all: "list_all names_agree opcodes"
proof (rule list_all_take_drop [OF names_agree_low])
  show "list_all names_agree (drop 60 opcodes)"
    using list_all_take_drop [OF names_agree_mid] names_agree_high by simp
qed

lemma opcodes_named: "list_all (\<lambda>(name, op). name \<noteq> []) opcodes"
  by code_simp

text \<open>C17. Every opcode constant prints as its own name and its name parses back to it, with two
  exceptions. \<open>GASPRICE\<close> prints as ``TXGASPRICE'', which the parser does not know, and the parser does
  not know the pseudo opcodes \<open>PUSH\<close>, \<open>DUP\<close> and \<open>SWAP\<close> either: all of these parse as \<open>STOP\<close>.\<close>

theorem opcode_names_roundtrip:
  "list_all (\<lambda>(name, op).
      StringToOp name = (if name \<in> {''PUSH'', ''DUP'', ''SWAP''} then iSTOP else op) \<and>
      OpCode_String op = (if name = ''GASPRICE'' then ''TXGASPRICE'' else name)) opcodes \<and>
    StringToOp (OpCode_String iGASPRICE) = iSTOP"
proof
  have print: "OpCode_String op = (if name = ''GASPRICE'' then ''TXGASPRICE'' else name)"
    if "names_agree (name, op)" "name \<noteq> []" for name op
    using that by (simp add: names_agree_def OpCode_String_def map_of_opCodeToString Let_def)
  show "list_all (\<lambda>(name, op).
      StringToOp name = (if name \<in> {''PUSH'', ''DUP'', ''SWAP''} then iSTOP else op) \<and>
      OpCode_String op = (if name = ''GASPRICE'' then ''TXGASPRICE'' else name)) opcodes"
    using names_agree_all opcodes_named print unfolding list_all_iff by (fastforce simp: names_agree_def)
  show "StringToOp (OpCode_String iGASPRICE) = iSTOP" by code_simp
qed

end
