(* ===== verification/Evm_Machine.thy ===== *)
theory Evm_Machine
  imports Evm_Opcodes
begin

text \<open>
  The parts of the virtual machine that do not run code: the protocol parameters of
  \<open>params/protocol_params.go\<close>, the big-integer and byte-slice helpers of \<open>common\<close>, hashes and
  addresses, the stack (\<open>stack.go\<close>), the memory (\<open>memory.go\<close>), the gas table (\<open>gas.go\<close>), the memory
  gas (\<open>common.go\<close>) and the jump destination analysis (\<open>analysis.go\<close>).

  A \<open>big.Int\<close> is an \<open>int\<close>. The code updates big integers in place, but every value on the stack
  belongs to the stack alone, so values suffice. A stack is a list with the top at its head:
  \<open>stack.data[stack.len()-n]\<close> is element \<open>n - 1\<close>.
\<close>

unbundle bit_operations_syntax

section \<open>Protocol parameters\<close>

definition ExpByteGas :: int where "ExpByteGas = 10"
definition SloadGas :: int where "SloadGas = 50"
definition CallValueTransferGas :: int where "CallValueTransferGas = 9000"
definition CallNewAccountGas :: int where "CallNewAccountGas = 25000"
definition TxGas :: int where "TxGas = 21000"
definition TxGasContractCreation :: int where "TxGasContractCreation = 53000"
definition TxDataZeroGas :: int where "TxDataZeroGas = 4"
definition QuadCoeffDiv :: int where "QuadCoeffDiv = 512"
definition SstoreSetGas :: int where "SstoreSetGas = 20000"
definition LogDataGas :: int where "LogDataGas = 8"
definition CallStipend :: int where "CallStipend = 2300"
definition EcrecoverGas :: int where "EcrecoverGas = 3000"
definition Sha256WordGas :: int where "Sha256WordGas = 12"
definition Sha3Gas :: int where "Sha3Gas = 30"
definition Sha256Gas :: int where "Sha256Gas = 60"
definition IdentityWordGas :: int where "IdentityWordGas = 3"
definition Sha3WordGas :: int where "Sha3WordGas = 6"
definition SstoreClearGas :: int where "SstoreClearGas = 5000"
definition SstoreRefundGas :: int where "SstoreRefundGas = 15000"
definition JumpdestGas :: int where "JumpdestGas = 1"
definition IdentityGas :: int where "IdentityGas = 15"
definition CallGas :: int where "CallGas = 40"
definition CreateDataGas :: int where "CreateDataGas = 200"
definition Ripemd160Gas :: int where "Ripemd160Gas = 600"
definition Ripemd160WordGas :: int where "Ripemd160WordGas = 120"
definition CallCreateDepth :: int where "CallCreateDepth = 1024"
definition LogGas :: int where "LogGas = 375"
definition CopyGas :: int where "CopyGas = 3"
definition StackLimit :: int where "StackLimit = 1024"
definition LogTopicGas :: int where "LogTopicGas = 375"
definition CreateGas :: int where "CreateGas = 32000"
definition SuicideRefundGas :: int where "SuicideRefundGas = 24000"
definition MemoryGas :: int where "MemoryGas = 3"
definition TxDataNonZeroGas :: int where "TxDataNonZeroGas = 68"
definition HomesteadBlock :: int where "HomesteadBlock = 200000"

lemmas protocol_params =
  ExpByteGas_def SloadGas_def CallValueTransferGas_def CallNewAccountGas_def TxGas_def
  TxGasContractCreation_def TxDataZeroGas_def QuadCoeffDiv_def SstoreSetGas_def LogDataGas_def
  CallStipend_def EcrecoverGas_def Sha256WordGas_def Sha3Gas_def Sha256Gas_def IdentityWordGas_def
  Sha3WordGas_def SstoreClearGas_def SstoreRefundGas_def JumpdestGas_def IdentityGas_def CallGas_def
  CreateDataGas_def Ripemd160Gas_def Ripemd160WordGas_def CallCreateDepth_def LogGas_def CopyGas_def
  StackLimit_def LogTopicGas_def CreateGas_def SuicideRefundGas_def MemoryGas_def
  TxDataNonZeroGas_def HomesteadBlock_def

text \<open>A nil block number is \<open>None\<close>.\<close>

definition IsHomestead :: "int option \<Rightarrow> bool" where
  "IsHomestead blockNumber = (case blockNumber of None \<Rightarrow> False | Some n \<Rightarrow> n \<ge> HomesteadBlock)"

section \<open>Big integers and byte slices\<close>

definition tt256 :: int where "tt256 = push_bit 256 1"
definition tt256m1 :: int where "tt256m1 = push_bit 256 1 - 1"
definition tt255 :: int where "tt255 = push_bit 255 1"

definition U256 :: "int \<Rightarrow> int" where
  "U256 x = x AND tt256m1"

definition S256 :: "int \<Rightarrow> int" where
  "S256 x = (if x < tt255 then x else x - tt256)"

definition BitTest :: "int \<Rightarrow> nat \<Rightarrow> bool" where
  "BitTest num i = bit num i"

definition BytesToBig :: "bytes \<Rightarrow> int" where
  "BytesToBig data = int (be_val data)"

text \<open>\<open>big.Int.Bytes\<close> gives the bytes of the absolute value.\<close>

definition big_Bytes :: "int \<Rightarrow> bytes" where
  "big_Bytes x = be_bytes (nat \<bar>x\<bar>)"

text \<open>\<open>big.Int.Uint64\<close> and \<open>big.Int.Int64\<close> keep the low 64 bits of a value that does not fit.\<close>

definition big_Uint64 :: "int \<Rightarrow> nat" where
  "big_Uint64 x = nat (\<bar>x\<bar> mod 2 ^ 64)"

definition big_Int64 :: "int \<Rightarrow> int" where
  "big_Int64 x = (if x < 0 then - signed_take_bit 63 \<bar>x\<bar> else signed_take_bit 63 x)"

definition BigToBytes :: "int \<Rightarrow> nat \<Rightarrow> bytes" where
  "BigToBytes num base =
    (if length (big_Bytes num) > base div 8 then big_Bytes num
     else take (base div 8 - length (big_Bytes num)) (replicate (base div 8) 0) @ big_Bytes num)"

definition BigMax :: "int \<Rightarrow> int \<Rightarrow> int" where
  "BigMax x y = (if x < y then y else x)"

definition BigMin :: "int \<Rightarrow> int \<Rightarrow> int" where
  "BigMin x y = (if x > y then y else x)"

definition RightPadBytes :: "bytes \<Rightarrow> nat \<Rightarrow> bytes" where
  "RightPadBytes sl l =
    (if l < length sl then sl else copy_at (replicate l 0) 0 sl)"

definition LeftPadBytes :: "bytes \<Rightarrow> nat \<Rightarrow> bytes" where
  "LeftPadBytes sl l =
    (if l < length sl then sl else copy_at (replicate l 0) (l - length sl) sl)"

section \<open>Hashes and addresses\<close>

text \<open>
  \<open>SetBytes\<close> writes into an array of 32 or 20 bytes. Its slice expression \<open>h[hashLength-len(b):]\<close> panics
  on a slice that is longer than the array. Elsewhere the arrays \<open>Hash\<close> and \<open>Address\<close> are words of 256
  and 160 bits, read big-endian: \<open>BytesToHash_w\<close> (the suffix tells it from the byte-list version of the
  trie) is the word of the fresh array that \<open>SetBytes\<close> has filled; that \<open>SetBytes\<close> does not panic is
  part of \<open>hash_address_conversions\<close> below.
\<close>

type_synonym hash = "256 word"
type_synonym address = "160 word"

definition hashLength :: nat where "hashLength = 32"
definition addressLength :: nat where "addressLength = 20"

definition Hash_SetBytes :: "bytes \<Rightarrow> bytes \<Rightarrow> ('e, bytes) result" where
  "Hash_SetBytes h b =
    bind_result (if length b > length h then slice b (length b - hashLength) (length b) else Ok b) (\<lambda>b.
      if length b > hashLength then Panic SliceBounds else Ok (copy_at h (hashLength - length b) b))"

definition Address_SetBytes :: "bytes \<Rightarrow> bytes \<Rightarrow> ('e, bytes) result" where
  "Address_SetBytes a b =
    bind_result (if length b > length a then slice b (length b - addressLength) (length b) else Ok b) (\<lambda>b.
      if length b > addressLength then Panic SliceBounds else Ok (copy_at a (addressLength - length b) b))"

definition array_of :: "bytes \<Rightarrow> (unit, bytes) result \<Rightarrow> bytes" where
  "array_of zero r = (case r of Ok a \<Rightarrow> a | _ \<Rightarrow> zero)"

definition BytesToHash_w :: "bytes \<Rightarrow> hash" where
  "BytesToHash_w b = of_nat (be_val (array_of (replicate 32 0) (Hash_SetBytes (replicate 32 0) b)))"

definition BigToHash :: "int \<Rightarrow> hash" where "BigToHash b = BytesToHash_w (big_Bytes b)"
definition Hash_Bytes :: "hash \<Rightarrow> bytes" where "Hash_Bytes h = LeftPadBytes (be_bytes (unat h)) hashLength"
definition Hash_Big :: "hash \<Rightarrow> int" where "Hash_Big h = BytesToBig (Hash_Bytes h)"
definition EmptyHash :: "hash \<Rightarrow> bool" where "EmptyHash h \<longleftrightarrow> h = 0"

definition BytesToAddress :: "bytes \<Rightarrow> address" where
  "BytesToAddress b = of_nat (be_val (array_of (replicate 20 0) (Address_SetBytes (replicate 20 0) b)))"

definition BigToAddress :: "int \<Rightarrow> address" where "BigToAddress b = BytesToAddress (big_Bytes b)"
definition Address_Bytes :: "address \<Rightarrow> bytes" where "Address_Bytes a = LeftPadBytes (be_bytes (unat a)) addressLength"
definition Address_Big :: "address \<Rightarrow> int" where "Address_Big a = BytesToBig (Address_Bytes a)"

section \<open>The stack\<close>

type_synonym stack = "int list"

datatype vm_error =
    StackUnderflow nat nat
  | StackLimitReached nat
  | OutOfGasError
  | CodeStoreOutOfGasError
  | DepthError
  | InvalidJump byte int
  | InvalidOpcode byte
  | TransferError
  | AddressCollision

definition newstack :: stack where "newstack = []"
definition stack_push :: "stack \<Rightarrow> int \<Rightarrow> stack" where "stack_push st d = d # st"

text \<open>\<open>pushN\<close> appends its arguments, so the last one is the new top.\<close>

definition stack_pushN :: "stack \<Rightarrow> int list \<Rightarrow> stack" where "stack_pushN st ds = rev ds @ st"

definition stack_pop :: "stack \<Rightarrow> ('e, int \<times> stack) result" where
  "stack_pop st = (case st of [] \<Rightarrow> Panic IndexOutOfRange | x # st' \<Rightarrow> Ok (x, st'))"

text \<open>\<open>stack.data[stack.len()-n]\<close>.\<close>

definition stack_back :: "stack \<Rightarrow> nat \<Rightarrow> ('e, int) result" where
  "stack_back st n = (if 1 \<le> n \<and> n \<le> length st then Ok (st ! (n - 1)) else Panic IndexOutOfRange)"

definition stack_swap :: "stack \<Rightarrow> nat \<Rightarrow> ('e, stack) result" where
  "stack_swap st n =
    bind_result (stack_back st n) (\<lambda>x. bind_result (stack_back st 1) (\<lambda>y. Ok (st[n - 1 := y, 0 := x])))"

definition stack_dup :: "stack \<Rightarrow> nat \<Rightarrow> ('e, stack) result" where
  "stack_dup st n = bind_result (stack_back st n) (\<lambda>x. Ok (stack_push st x))"

definition stack_peek :: "stack \<Rightarrow> ('e, int) result" where
  "stack_peek st = stack_back st 1"

definition stack_require :: "stack \<Rightarrow> nat \<Rightarrow> (vm_error, unit) result" where
  "stack_require st n = (if length st < n then Err (StackUnderflow (length st) n) else Ok ())"

section \<open>The memory\<close>

text \<open>
  Offsets and sizes arrive as 64-bit integers. A slice expression is checked against the capacity in
  Go; here reaching beyond the length is a panic.
\<close>

type_synonym memory = bytes

definition NewMemory :: memory where "NewMemory = []"

definition mem_Set :: "memory \<Rightarrow> nat \<Rightarrow> nat \<Rightarrow> bytes \<Rightarrow> ('e, memory) result" where
  "mem_Set store offset sz v =
    (if sz > length store then Panic (ExplicitPanic ''INVALID memory: store empty'')
     else if sz > 0 then
       (let hi = (offset + sz) mod 2 ^ 64
        in bind_result (slice store offset hi) (\<lambda>dst. Ok (take offset store @ copy_at dst 0 v @ drop hi store)))
     else Ok store)"

definition mem_Resize :: "memory \<Rightarrow> nat \<Rightarrow> memory" where
  "mem_Resize store sz =
    (if length store < sz then store @ replicate (sz - length store) 0 else store)"

definition mem_Get :: "memory \<Rightarrow> int \<Rightarrow> int \<Rightarrow> ('e, bytes) result" where
  "mem_Get store offset sz =
    (if sz = 0 then Ok []
     else if int (length store) > offset then
       (if sz < 0 \<or> offset < 0 then Panic SliceBounds else slice store (nat offset) (nat (offset + sz)))
     else Ok [])"

definition mem_GetPtr :: "memory \<Rightarrow> int \<Rightarrow> int \<Rightarrow> ('e, bytes) result" where
  "mem_GetPtr store offset sz =
    (if sz = 0 then Ok []
     else if int (length store) > offset then
       (if sz < 0 \<or> offset < 0 then Panic SliceBounds else slice store (nat offset) (nat (offset + sz)))
     else Ok [])"

section \<open>Gas\<close>

definition GasQuickStep :: int where "GasQuickStep = 2"
definition GasFastestStep :: int where "GasFastestStep = 3"
definition GasFastStep :: int where "GasFastStep = 5"
definition GasMidStep :: int where "GasMidStep = 8"
definition GasSlowStep :: int where "GasSlowStep = 10"
definition GasExtStep :: int where "GasExtStep = 20"

lemmas gas_steps = GasQuickStep_def GasFastestStep_def GasFastStep_def GasMidStep_def GasSlowStep_def GasExtStep_def

text \<open>An entry has the stack items an opcode pops, its gas price, and the items it pushes.\<close>

type_synonym gas_req = "nat \<times> int \<times> nat"

definition baseCheck_table :: "(byte \<times> gas_req) list" where
  "baseCheck_table =
    [(iADD, 2, GasFastestStep, 1), (iLT, 2, GasFastestStep, 1), (iGT, 2, GasFastestStep, 1),
     (iSLT, 2, GasFastestStep, 1), (iSGT, 2, GasFastestStep, 1), (iEQ, 2, GasFastestStep, 1),
     (iISZERO, 1, GasFastestStep, 1), (iSUB, 2, GasFastestStep, 1), (iAND, 2, GasFastestStep, 1),
     (iOR, 2, GasFastestStep, 1), (iXOR, 2, GasFastestStep, 1), (iNOT, 1, GasFastestStep, 1),
     (iBYTE, 2, GasFastestStep, 1), (iCALLDATALOAD, 1, GasFastestStep, 1), (iCALLDATACOPY, 3, GasFastestStep, 1),
     (iMLOAD, 1, GasFastestStep, 1), (iMSTORE, 2, GasFastestStep, 0), (iMSTORE8, 2, GasFastestStep, 0),
     (iCODECOPY, 3, GasFastestStep, 0), (iMUL, 2, GasFastStep, 1), (iDIV, 2, GasFastStep, 1),
     (iSDIV, 2, GasFastStep, 1), (iMOD, 2, GasFastStep, 1), (iSMOD, 2, GasFastStep, 1),
     (iSIGNEXTEND, 2, GasFastStep, 1), (iADDMOD, 3, GasMidStep, 1), (iMULMOD, 3, GasMidStep, 1),
     (iJUMP, 1, GasMidStep, 0), (iJUMPI, 2, GasSlowStep, 0), (iEXP, 2, GasSlowStep, 1),
     (iADDRESS, 0, GasQuickStep, 1), (iORIGIN, 0, GasQuickStep, 1), (iCALLER, 0, GasQuickStep, 1),
     (iCALLVALUE, 0, GasQuickStep, 1), (iCODESIZE, 0, GasQuickStep, 1), (iGASPRICE, 0, GasQuickStep, 1),
     (iCOINBASE, 0, GasQuickStep, 1), (iTIMESTAMP, 0, GasQuickStep, 1), (iNUMBER, 0, GasQuickStep, 1),
     (iCALLDATASIZE, 0, GasQuickStep, 1), (iDIFFICULTY, 0, GasQuickStep, 1), (iGASLIMIT, 0, GasQuickStep, 1),
     (iPOP, 1, GasQuickStep, 0), (iPC, 0, GasQuickStep, 1), (iMSIZE, 0, GasQuickStep, 1), (iGAS, 0, GasQuickStep, 1),
     (iBLOCKHASH, 1, GasExtStep, 1), (iBALANCE, 1, GasExtStep, 1), (iEXTCODESIZE, 1, GasExtStep, 1),
     (iEXTCODECOPY, 4, GasExtStep, 0), (iSLOAD, 1, SloadGas, 1), (iSSTORE, 2, 0, 0), (iSHA3, 2, Sha3Gas, 1),
     (iCREATE, 3, CreateGas, 1), (iCALL, 7, CallGas, 1), (iCALLCODE, 7, CallGas, 1), (iDELEGATECALL, 6, CallGas, 1),
     (iJUMPDEST, 0, JumpdestGas, 0), (iSUICIDE, 1, 0, 0), (iRETURN, 2, 0, 0), (iPUSH1, 0, GasFastestStep, 1),
     (iDUP1, 0, 0, 1)]"

definition baseCheck :: "byte \<Rightarrow> stack \<Rightarrow> int \<Rightarrow> (vm_error, int) result" where
  "baseCheck op st gas =
    (let op = (if iPUSH1 \<le> op \<and> op \<le> iPUSH32 then iPUSH1 else op);
         op = (if iDUP1 \<le> op \<and> op \<le> iDUP16 then iDUP1 else op)
     in case map_of baseCheck_table op of
          None \<Rightarrow> Ok gas
        | Some (stackPop, r_gas, stackPush) \<Rightarrow>
            bind_result (stack_require st stackPop) (\<lambda>_.
              if stackPush > 0 \<and> int (length st) - int stackPop + int stackPush > StackLimit
              then Err (StackLimitReached (length st))
              else Ok (gas + r_gas)))"

definition toWordSize :: "int \<Rightarrow> int" where
  "toWordSize sz = (sz + 31) div 32"

definition calcMemSize :: "int \<Rightarrow> int \<Rightarrow> int" where
  "calcMemSize off l = (if l = 0 then 0 else off + l)"

text \<open>\<open>quadMemGas\<close> rounds the wanted memory size up to words and adds the fee of the growth to the gas.\<close>

definition quadMemGas :: "memory \<Rightarrow> int \<Rightarrow> int \<Rightarrow> int \<times> int" where
  "quadMemGas mem newMemSize gas =
    (if newMemSize > 0 then
       (let newMemSizeWords = toWordSize newMemSize;
            newMemSize = newMemSizeWords * 32
        in if newMemSize > int (length mem) then
             (let oldSize = toWordSize (int (length mem));
                  oldTotalFee = oldSize * MemoryGas + oldSize ^ 2 div QuadCoeffDiv;
                  newTotalFee = newMemSizeWords * MemoryGas + newMemSizeWords ^ 2 div QuadCoeffDiv
              in (newMemSize, gas + (newTotalFee - oldTotalFee)))
           else (newMemSize, gas))
     else (newMemSize, gas))"

definition getData :: "bytes \<Rightarrow> int \<Rightarrow> int \<Rightarrow> ('e, bytes) result" where
  "getData data start sz =
    (let dlen = int (length data);
         s = BigMin start dlen;
         e = BigMin (s + sz) dlen
     in bind_result (slice data (big_Uint64 s) (big_Uint64 e)) (\<lambda>d. Ok (RightPadBytes d (big_Uint64 sz))))"

text \<open>\<open>useGas\<close> returns whether the gas sufficed, and the gas left.\<close>

definition useGas :: "int \<Rightarrow> int \<Rightarrow> bool \<times> int" where
  "useGas gas amount = (if gas < amount then (False, gas) else (True, gas - amount))"

section \<open>Jump destinations\<close>

text \<open>The program counter stays below \<open>2 ^ 64\<close> because a slice has fewer than \<open>2 ^ 63\<close> elements.\<close>

function jumpdests_from :: "bytes \<Rightarrow> nat \<Rightarrow> nat list" where
  "jumpdests_from code pc =
    (if pc < length code then
       (let op = code ! pc
        in if IsPush op then jumpdests_from code (pc + unat (op - iPUSH1 + 1) + 1)
           else if op = iJUMPDEST then pc # jumpdests_from code (pc + 1)
           else jumpdests_from code (pc + 1))
     else [])"
  by pat_completeness auto
termination by (relation "measure (\<lambda>(code, pc). length code - pc)") auto

declare jumpdests_from.simps [simp del]

definition jumpdests :: "bytes \<Rightarrow> nat list" where
  "jumpdests code = jumpdests_from code 0"

text \<open>The analysis is cached per code hash; the updated cache is returned with the answer.\<close>

type_synonym destinations = "hash \<rightharpoonup> nat list"

definition bigMaxUint64 :: int where "bigMaxUint64 = 2 ^ 64 - 1"

definition destinations_has :: "destinations \<Rightarrow> hash \<Rightarrow> bytes \<Rightarrow> int \<Rightarrow> bool \<times> destinations" where
  "destinations_has d codehash code dest =
    (if dest > bigMaxUint64 then (False, d)
     else case d codehash of
            Some m \<Rightarrow> (big_Uint64 dest \<in> set m, d)
          | None \<Rightarrow> (let m = jumpdests code in (big_Uint64 dest \<in> set m, d(codehash \<mapsto> m))))"

section \<open>Lemmas on integers and slices\<close>

lemma tt256_eq: "tt256 = 2 ^ 256"
  by (simp add: tt256_def push_bit_eq_mult)

lemma tt255_eq: "tt255 = 2 ^ 255"
  by (simp add: tt255_def push_bit_eq_mult)

lemma tt256m1_mask: "tt256m1 = mask 256"
  by (simp add: tt256m1_def mask_eq_exp_minus_1 push_bit_eq_mult)

lemma U256_mod: "U256 x = x mod 2 ^ 256"
  by (simp add: U256_def tt256m1_mask take_bit_eq_mod flip: take_bit_eq_mask)

lemma U256_range [simp]: "0 \<le> U256 x" "U256 x < 2 ^ 256"
  by (simp_all add: U256_mod)

lemma U256_id: "0 \<le> x \<Longrightarrow> x < 2 ^ 256 \<Longrightarrow> U256 x = x"
  by (simp add: U256_mod)

lemma U256_uint: "U256 x = uint (word_of_int x :: hash)"
  by (simp add: U256_mod uint_word_of_int)

lemma bit_255_iff: "0 \<le> k \<Longrightarrow> k < 2 ^ 256 \<Longrightarrow> bit (k :: int) 255 \<longleftrightarrow> 2 ^ 255 \<le> k"
proof -
  assume "0 \<le> k" "k < 2 ^ 256"
  then have "k div 2 ^ 255 = (if 2 ^ 255 \<le> k then 1 else 0)" by auto
  then show ?thesis by (simp add: bit_iff_odd)
qed

lemma S256_sint: "S256 (uint w) = sint (w :: hash)"
proof -
  have "0 \<le> uint w" "uint w < 2 ^ 256" using uint_lt2p [of w] by simp_all
  then have "signed_take_bit 255 (uint w) = (if 2 ^ 255 \<le> uint w then uint w - 2 ^ 256 else uint w)"
    using bit_255_iff [of "uint w"] by (simp add: signed_take_bit_eq_take_bit_minus take_bit_eq_mod)
  then show ?thesis by (simp add: S256_def tt255_eq tt256_eq sint_uint)
qed

lemma be_val_replicate_0 [simp]: "be_val (replicate n 0 @ bs) = be_val bs"
  by (induction n) (simp_all add: be_val_Cons)

lemma LeftPadBytes_eq: "LeftPadBytes bs l = replicate (l - length bs) 0 @ bs"
  by (auto simp: LeftPadBytes_def copy_at_def Let_def)

lemma RightPadBytes_eq: "RightPadBytes bs l = bs @ replicate (l - length bs) 0"
  by (auto simp: RightPadBytes_def copy_at_def Let_def)

lemma be_val_LeftPadBytes [simp]: "be_val (LeftPadBytes bs l) = be_val bs"
  by (simp add: LeftPadBytes_eq)

lemma length_LeftPadBytes [simp]: "length (LeftPadBytes bs l) = max l (length bs)"
  by (simp add: LeftPadBytes_eq)

lemma length_RightPadBytes [simp]: "length (RightPadBytes bs l) = max l (length bs)"
  by (simp add: RightPadBytes_eq)

lemma BigToBytes_eq: "BigToBytes num base = LeftPadBytes (big_Bytes num) (base div 8)"
  by (simp add: BigToBytes_def LeftPadBytes_eq min_def)

lemma be_val_big_Bytes [simp]: "be_val (big_Bytes x) = nat \<bar>x\<bar>"
  by (simp add: big_Bytes_def)

lemma length_big_Bytes_le: "0 \<le> x \<Longrightarrow> x < 2 ^ 256 \<Longrightarrow> length (big_Bytes x) \<le> 32"
  by (simp add: big_Bytes_def length_be_bytes_le_iff nat_less_iff)

lemma be_val_suffix: "k \<le> length bs \<Longrightarrow> be_val (drop (length bs - k) bs) = be_val bs mod 256 ^ k"
proof -
  assume k: "k \<le> length bs"
  have "be_val bs = be_val (take (length bs - k) bs) * 256 ^ k + be_val (drop (length bs - k) bs)"
    using be_val_append [of "take (length bs - k) bs" "drop (length bs - k) bs"] k by simp
  moreover have "be_val (drop (length bs - k) bs) < 256 ^ k"
    using be_val_less [of "drop (length bs - k) bs"] k by simp
  ultimately show ?thesis by simp
qed

lemma SetBytes_result:
  "length h = 32 \<Longrightarrow> Hash_SetBytes h b = Ok (if length b < 32 then take (32 - length b) h @ b else drop (length b - 32) b)"
  "length a = 20 \<Longrightarrow> Address_SetBytes a b = Ok (if length b < 20 then take (20 - length b) a @ b else drop (length b - 20) b)"
  by (auto simp: Hash_SetBytes_def Address_SetBytes_def hashLength_def addressLength_def slice_def copy_at_def Let_def)

lemma unat_Hash_SetBytes: "unat (BytesToHash_w b) = be_val b mod 2 ^ 256"
proof -
  have "be_val b mod 2 ^ 256 = be_val b" if "length b \<le> 32"
    using be_val_less [of b] that power_increasing [of "length b" 32 "256::nat"] by simp
  then show ?thesis
    by (auto simp: BytesToHash_w_def SetBytes_result array_of_def be_val_suffix be_val_replicate_0 unsigned_of_nat take_bit_eq_mod)
qed

lemma unat_Address_SetBytes: "unat (BytesToAddress b) = be_val b mod 2 ^ 160"
proof -
  have "be_val b mod 2 ^ 160 = be_val b" if "length b \<le> 20"
    using be_val_less [of b] that power_increasing [of "length b" 20 "256::nat"] by simp
  then show ?thesis
    by (auto simp: BytesToAddress_def SetBytes_result array_of_def be_val_suffix be_val_replicate_0 unsigned_of_nat take_bit_eq_mod)
qed

lemma Hash_Big_uint: "Hash_Big h = uint h"
  by (simp add: Hash_Big_def BytesToBig_def Hash_Bytes_def)

lemma Address_Big_uint: "Address_Big a = uint a"
  by (simp add: Address_Big_def BytesToBig_def Address_Bytes_def)

lemma BigToHash_word: "0 \<le> x \<Longrightarrow> BigToHash x = word_of_int x"
  by (rule word_unat_eq_iff [THEN iffD2])
    (simp add: BigToHash_def unat_Hash_SetBytes unsigned_of_int take_bit_eq_mod nat_mod_distrib nat_power_eq)

lemma BigToAddress_word: "0 \<le> x \<Longrightarrow> BigToAddress x = word_of_int x"
  by (rule word_unat_eq_iff [THEN iffD2])
    (simp add: BigToAddress_def unat_Address_SetBytes unsigned_of_int take_bit_eq_mod nat_mod_distrib nat_power_eq)

lemma unat_hash_less: "unat (h :: hash) < 2 ^ 256"
  using unsigned_less [of h, where ?'a = nat] by simp

lemma unat_address_less: "unat (a :: address) < 2 ^ 160"
  using unsigned_less [of a, where ?'a = nat] by simp

lemma Hash_Bytes_length [simp]: "length (Hash_Bytes h) = 32"
proof -
  have "unat h < 256 ^ 32" using unat_hash_less [of h] by simp
  then have "length (be_bytes (unat h)) \<le> 32" by (simp only: length_be_bytes_le_iff)
  then show ?thesis by (simp add: Hash_Bytes_def hashLength_def)
qed

lemma Address_Bytes_length [simp]: "length (Address_Bytes a) = 20"
proof -
  have "unat a < 256 ^ 20" using unat_address_less [of a] by simp
  then have "length (be_bytes (unat a)) \<le> 20" by (simp only: length_be_bytes_le_iff)
  then show ?thesis by (simp add: Address_Bytes_def addressLength_def)
qed

lemma BytesToBig_range: "0 \<le> BytesToBig bs" "length bs \<le> 32 \<Longrightarrow> BytesToBig bs < 2 ^ 256"
proof -
  show "0 \<le> BytesToBig bs" by (simp add: BytesToBig_def)
  assume "length bs \<le> 32"
  then have "be_val bs < 2 ^ 256"
    using be_val_less [of bs] power_increasing [of "length bs" 32 "256::nat"] by simp
  then show "BytesToBig bs < 2 ^ 256" by (simp add: BytesToBig_def)
qed

text \<open>C20. \<open>SetBytes\<close> of hashes and addresses never panics, whatever the length of the slice: a slice that
  is longer than the array loses its leading bytes, a shorter one is aligned right and leaves the
  leading bytes of the array as they were. The comments say that it panics on a longer slice. The
  conversions built on it are exact: hashes and addresses convert to bytes and integers and back
  without loss, and an integer that is too large is reduced modulo the size of the array.\<close>

theorem hash_address_conversions:
  assumes "length ha = 32" "length aa = 20"
  shows "Hash_SetBytes ha bs = (Ok (if length bs < 32 then take (32 - length bs) ha @ bs else drop (length bs - 32) bs) :: (unit, bytes) result) \<and>
   Address_SetBytes aa bs = (Ok (if length bs < 20 then take (20 - length bs) aa @ bs else drop (length bs - 20) bs) :: (unit, bytes) result) \<and>
   BigToHash (Hash_Big h) = h \<and> BytesToHash_w (Hash_Bytes h) = h \<and> length (Hash_Bytes h) = 32 \<and>
   BigToAddress (Address_Big a) = a \<and> BytesToAddress (Address_Bytes a) = a \<and> length (Address_Bytes a) = 20 \<and>
   Hash_Big (BytesToHash_w bs) = BytesToBig bs mod 2 ^ 256 \<and>
   Address_Big (BytesToAddress bs) = BytesToBig bs mod 2 ^ 160"
proof (intro conjI)
  show "BigToHash (Hash_Big h) = h" by (simp add: BigToHash_word Hash_Big_uint)
  show "BigToAddress (Address_Big a) = a" by (simp add: BigToAddress_word Address_Big_uint)
  show "BytesToHash_w (Hash_Bytes h) = h"
    by (rule word_unat_eq_iff [THEN iffD2]) (use unat_hash_less [of h] in \<open>simp add: unat_Hash_SetBytes Hash_Bytes_def\<close>)
  show "BytesToAddress (Address_Bytes a) = a"
    by (rule word_unat_eq_iff [THEN iffD2]) (use unat_address_less [of a] in \<open>simp add: unat_Address_SetBytes Address_Bytes_def\<close>)
  show "Hash_Big (BytesToHash_w bs) = BytesToBig bs mod 2 ^ 256"
    by (simp add: Hash_Big_uint BytesToBig_def uint_nat unat_Hash_SetBytes zmod_int)
  show "Address_Big (BytesToAddress bs) = BytesToBig bs mod 2 ^ 160"
    by (simp add: Address_Big_uint BytesToBig_def uint_nat unat_Address_SetBytes zmod_int)
qed (simp_all add: SetBytes_result assms)

theorem hash_address_conversions_witness:
  "Address_SetBytes (replicate 20 7) (replicate 33 1) = (Ok (replicate 20 1) :: (unit, bytes) result) \<and>
   Address_SetBytes (replicate 20 7) [1, 2] = (Ok (replicate 18 7 @ [1, 2]) :: (unit, bytes) result)"
proof
  show "Address_SetBytes (replicate 20 7) (replicate 33 1) = (Ok (replicate 20 1) :: (unit, bytes) result)"
    using hash_address_conversions [of "replicate 32 0" "replicate 20 7" "replicate 33 1" 0 0] by simp
  show "Address_SetBytes (replicate 20 7) [1, 2] = (Ok (replicate 18 7 @ [1, 2]) :: (unit, bytes) result)"
    using hash_address_conversions [of "replicate 32 0" "replicate 20 7" "[1, 2]" 0 0] by simp
qed

section \<open>Memory gas\<close>

text \<open>The reference: the price of a memory of \<open>w\<close> words.\<close>

definition memory_fee :: "int \<Rightarrow> int" where
  "memory_fee w = 3 * w + w\<^sup>2 div 512"

lemma memory_fee_mono: "0 \<le> v \<Longrightarrow> v \<le> w \<Longrightarrow> memory_fee v \<le> memory_fee w"
  by (simp add: memory_fee_def add_mono power_mono zdiv_mono1)

lemma memory_fee_ge: "0 \<le> w \<Longrightarrow> 3 * w \<le> memory_fee w"
  by (simp add: memory_fee_def pos_imp_zdiv_nonneg_iff)

lemma toWordSize_bounds: "0 \<le> n \<Longrightarrow> n \<le> 32 * toWordSize n" "0 \<le> n \<Longrightarrow> 0 \<le> toWordSize n"
  by (simp_all add: toWordSize_def)

lemma toWordSize_mono: "m \<le> n \<Longrightarrow> toWordSize m \<le> toWordSize n"
  by (simp add: toWordSize_def zdiv_mono1)

lemma toWordSize_aligned: "32 dvd n \<Longrightarrow> toWordSize n = n div 32"
  by (auto simp: toWordSize_def)

lemma length_mem_Resize [simp]: "length (mem_Resize mem n) = max (length mem) n"
  by (simp add: mem_Resize_def)

lemma quadMemGas_fee:
  assumes "32 dvd length mem" "0 \<le> n"
  shows "quadMemGas mem n g =
    (32 * toWordSize n,
     g + (memory_fee (max (toWordSize n) (int (length mem) div 32)) - memory_fee (int (length mem) div 32)))"
proof -
  obtain k where k: "length mem = 32 * k" using assms(1) by blast
  have w: "toWordSize (int (length mem)) = int k" by (simp add: k toWordSize_def)
  show ?thesis
  proof (cases "n = 0")
    case True
    then show ?thesis by (simp add: quadMemGas_def toWordSize_def max_def)
  next
    case False
    with assms(2) have "0 < n" by simp
    then show ?thesis
      unfolding quadMemGas_def Let_def w
      by (auto simp: k max_def memory_fee_def protocol_params)
  qed
qed

text \<open>C19. The memory fee telescopes: charging for a growth to \<open>a\<close> bytes and then, after the resize, for
  a growth to \<open>b\<close> bytes costs what a growth to the larger of the two costs at once; that is the
  difference of the prices of the memories, and never negative.\<close>

theorem memory_gas_telescopes:
  assumes "32 dvd length mem" "0 \<le> a" "0 \<le> b" "32 * toWordSize a < 2 ^ 64"
    and "quadMemGas mem a g = (a', g1)"
    and "quadMemGas (mem_Resize mem (big_Uint64 a')) b g1 = (b', g2)"
  shows "g2 = snd (quadMemGas mem (BigMax a b) g) \<and>
    g2 - g = memory_fee (max (toWordSize (max a b)) (int (length mem) div 32)) - memory_fee (int (length mem) div 32) \<and>
    g \<le> g1 \<and> g1 \<le> g2"
proof -
  let ?l = "int (length mem) div 32"
  have a': "a' = 32 * toWordSize a"
    and g1: "g1 = g + (memory_fee (max (toWordSize a) ?l) - memory_fee ?l)"
    using trans [OF assms(5) [symmetric] quadMemGas_fee [OF assms(1,2), of g]] by simp_all
  have u: "big_Uint64 a' = nat (32 * toWordSize a)"
    using toWordSize_bounds [OF assms(2)] assms(4) by (simp add: a' big_Uint64_def)
  let ?m = "mem_Resize mem (big_Uint64 a')"
  have "32 dvd nat (32 * toWordSize a)" by (simp add: nat_mult_distrib)
  then have dvd: "32 dvd length ?m" using assms(1) by (simp add: u max_def)
  have l: "int (length ?m) div 32 = max (toWordSize a) ?l"
    using toWordSize_bounds(2) [OF assms(2)] assms(1)
    by (auto simp: u max_def nat_mult_distrib)
  have g2: "g2 = g1 + (memory_fee (max (toWordSize b) (max (toWordSize a) ?l)) - memory_fee (max (toWordSize a) ?l))"
    using trans [OF assms(6) [symmetric] quadMemGas_fee [OF dvd assms(3), of g1]] unfolding l by simp
  have mx: "max (toWordSize b) (max (toWordSize a) ?l) = max (toWordSize (max a b)) ?l"
    using toWordSize_mono [of a b] toWordSize_mono [of b a] by (cases "a \<le> b") (simp_all add: max_absorb1 max_absorb2 max.left_commute flip: max.assoc)
  have "0 \<le> ?l" by simp
  then have "g \<le> g1" "g1 \<le> g2" by (auto simp: g1 g2 intro!: memory_fee_mono)
  moreover have "BigMax a b = max a b" by (simp add: BigMax_def max_def)
  moreover have "0 \<le> max a b" using assms(2) by simp
  ultimately show ?thesis
    using quadMemGas_fee [OF assms(1), of "max a b" g] by (simp add: g1 g2 mx)
qed

theorem memory_gas_telescopes_witness:
  "snd (quadMemGas (replicate 64 0) 1000 7) = 7 + memory_fee 32 - memory_fee 2"
proof -
  have r: "mem_Resize (replicate 64 0) (big_Uint64 128) = (replicate 128 0 :: bytes)"
    by (simp add: mem_Resize_def big_Uint64_def flip: replicate_add)
  have q1: "quadMemGas (replicate 64 0) 100 7 = (128, 13)"
    by (simp add: quadMemGas_def toWordSize_def protocol_params Let_def)
  have q2: "quadMemGas (mem_Resize (replicate 64 0) (big_Uint64 128)) 1000 13 = (1024, 99)"
    unfolding r by (simp add: quadMemGas_def toWordSize_def protocol_params Let_def)
  show ?thesis
    using memory_gas_telescopes [OF _ _ _ _ q1 q2] by (simp add: toWordSize_def BigMax_def)
qed

section \<open>Jump destinations, exactly\<close>

text \<open>The reference: where instructions start, pushed data being skipped.\<close>

inductive instr_start :: "bytes \<Rightarrow> nat \<Rightarrow> bool" for code where
  start_0: "instr_start code 0"
| start_push: "instr_start code pc \<Longrightarrow> pc < length code \<Longrightarrow> IsPush (code ! pc) \<Longrightarrow>
    instr_start code (pc + unat (code ! pc - iPUSH1 + 1) + 1)"
| start_next: "instr_start code pc \<Longrightarrow> pc < length code \<Longrightarrow> \<not> IsPush (code ! pc) \<Longrightarrow> instr_start code (pc + 1)"

lemma jumpdests_from_sound:
  "instr_start code pc \<Longrightarrow> d \<in> set (jumpdests_from code pc) \<Longrightarrow>
    instr_start code d \<and> d < length code \<and> code ! d = iJUMPDEST"
proof (induction code pc rule: jumpdests_from.induct)
  case (1 code pc)
  then show ?case
    by (subst (asm) (4) jumpdests_from.simps)
      (auto simp: Let_def dest: start_push start_next split: if_splits)
qed

lemma jumpdests_from_sub:
  "instr_start code pc \<Longrightarrow> set (jumpdests_from code pc) \<subseteq> set (jumpdests code)"
proof (induction rule: instr_start.induct)
  case start_0
  then show ?case by (simp add: jumpdests_def)
next
  case (start_push pc)
  then show ?case using jumpdests_from.simps [of code pc] by (simp add: Let_def)
next
  case (start_next pc)
  then show ?case using jumpdests_from.simps [of code pc] by (auto simp: Let_def split: if_splits)
qed

lemma jumpdests_exact:
  "d \<in> set (jumpdests code) \<longleftrightarrow> instr_start code d \<and> d < length code \<and> code ! d = iJUMPDEST"
proof
  assume "d \<in> set (jumpdests code)"
  then show "instr_start code d \<and> d < length code \<and> code ! d = iJUMPDEST"
    unfolding jumpdests_def by (rule jumpdests_from_sound [OF start_0])
next
  assume d: "instr_start code d \<and> d < length code \<and> code ! d = iJUMPDEST"
  have "\<not> IsPush iJUMPDEST" by (simp add: IsPush_def)
  then have "d \<in> set (jumpdests_from code d)"
    using d jumpdests_from.simps [of code d] by (simp add: Let_def)
  then show "d \<in> set (jumpdests code)" using jumpdests_from_sub d by blast
qed

text \<open>A cache filled by analysing codes of a set \<open>C\<close>.\<close>

definition analysed_from :: "(bytes \<Rightarrow> hash) \<Rightarrow> bytes set \<Rightarrow> destinations \<Rightarrow> bool" where
  "analysed_from keccak C d \<longleftrightarrow> (\<forall>h m. d h = Some m \<longrightarrow> (\<exists>c\<in>C. h = keccak c \<and> m = jumpdests c))"

lemma analysed_from_empty [simp]: "analysed_from keccak C Map.empty"
  by (simp add: analysed_from_def)

lemma analysed_from_has:
  "analysed_from keccak C d \<Longrightarrow> code \<in> C \<Longrightarrow> analysed_from keccak C (snd (destinations_has d (keccak code) code dest))"
  by (auto simp: analysed_from_def destinations_has_def Let_def split: option.splits)

text \<open>C18. A jump is allowed exactly to the \<open>JUMPDEST\<close> opcodes that are instructions of the code and not
  pushed data, whatever was analysed before: as long as the hash tells the analysed codes apart, the
  cache of analyses never gives the destinations of another code.\<close>

theorem destinations_has_exact:
  assumes "inj_on keccak C" "code \<in> C" "analysed_from keccak C d" "0 \<le> dest" "length code < 2 ^ 63"
    and "destinations_has d (keccak code) code dest = (ok, d')"
  shows "(ok \<longleftrightarrow> instr_start code (nat dest) \<and> nat dest < length code \<and> code ! nat dest = iJUMPDEST) \<and>
    analysed_from keccak C d'"
proof
  show "analysed_from keccak C d'" using analysed_from_has [OF assms(3,2), of dest] assms(6) by simp
  have m: "m = jumpdests code" if "d (keccak code) = Some m" for m
    using that assms(1-3) unfolding analysed_from_def inj_on_def by blast
  show "ok \<longleftrightarrow> instr_start code (nat dest) \<and> nat dest < length code \<and> code ! nat dest = iJUMPDEST"
  proof (cases "dest > bigMaxUint64")
    case True
    then have "\<not> nat dest < length code" using assms(5) by (simp add: bigMaxUint64_def)
    with True assms(6) show ?thesis by (simp add: destinations_has_def)
  next
    case False
    then have u: "big_Uint64 dest = nat dest" using assms(4) by (simp add: big_Uint64_def bigMaxUint64_def)
    have "ok \<longleftrightarrow> nat dest \<in> set (jumpdests code)"
      using assms(6) False m by (auto simp: destinations_has_def u Let_def split: option.splits)
    then show ?thesis by (simp only: jumpdests_exact)
  qed
qed

theorem destinations_has_exact_witness:
  "\<not> (instr_start [0x60, 0x5b, 0x5b] (nat 1)) \<and> instr_start [0x60, 0x5b, 0x5b] (nat 2)"
proof -
  have j: "jumpdests [0x60, 0x5b, 0x5b] = [2]"
    by (simp add: jumpdests_def jumpdests_from.simps IsPush_def Let_def)
  have h: "destinations_has Map.empty (BytesToHash_w [0x60, 0x5b, 0x5b]) [0x60, 0x5b, 0x5b] x =
      (nat x = 2, [BytesToHash_w [0x60, 0x5b, 0x5b] \<mapsto> [2]])" if "x \<in> {1, 2}" for x
    using that by (auto simp: destinations_has_def bigMaxUint64_def j big_Uint64_def Let_def)
  have e: "destinations_has Map.empty (BytesToHash_w [0x60, 0x5b, 0x5b]) [0x60, 0x5b, 0x5b] 1 =
      (False, [BytesToHash_w [0x60, 0x5b, 0x5b] \<mapsto> [2]])"
    "destinations_has Map.empty (BytesToHash_w [0x60, 0x5b, 0x5b]) [0x60, 0x5b, 0x5b] 2 =
      (True, [BytesToHash_w [0x60, 0x5b, 0x5b] \<mapsto> [2]])"
    using h [of 1] h [of 2] by simp_all
  let ?C = "{[0x60, 0x5b, 0x5b]} :: bytes set"
  show ?thesis
    using destinations_has_exact [where keccak = BytesToHash_w and C = ?C, OF _ _ _ _ _ e(1)]
      destinations_has_exact [where keccak = BytesToHash_w and C = ?C, OF _ _ _ _ _ e(2)] by simp
qed

end
