(* ===== verification/Evm_Contract.thy ===== *)
theory Evm_Contract
  imports Evm_Machine
begin

text \<open>
  The execution context of one call (\<open>core/vm/contract.go\<close>) and the precompiled contracts
  (\<open>core/vm/contracts.go\<close>). The hash functions and the public key recovery are code of other packages
  and come as a record of functions.
\<close>

section \<open>Cryptographic functions\<close>

text \<open>\<open>Ecrecover\<close> gives \<open>None\<close> for its error.\<close>

record crypto_fns =
  Sha3 :: "bytes \<Rightarrow> bytes"
  Sha256 :: "bytes \<Rightarrow> bytes"
  Ripemd160 :: "bytes \<Rightarrow> bytes"
  Ecrecover :: "bytes \<Rightarrow> bytes \<Rightarrow> bytes option"

definition Sha3Hash :: "crypto_fns \<Rightarrow> bytes \<Rightarrow> hash" where
  "Sha3Hash cr data = BytesToHash_w (Sha3 cr data)"

definition secp256k1_N :: int where
  "secp256k1_N = 0xfffffffffffffffffffffffffffffffebaaedce6af48a03bbfd25e8cd0364141"

definition secp256k1_HalfN :: int where
  "secp256k1_HalfN = 0x7fffffffffffffffffffffffffffffff5d576e7357a4501ddfe92f46681b20a0"

definition ValidateSignatureValues :: "byte \<Rightarrow> int \<Rightarrow> int \<Rightarrow> bool \<Rightarrow> bool" where
  "ValidateSignatureValues v r s homestead =
    (if r < 1 \<or> s < 1 then False
     else if homestead \<and> s > secp256k1_HalfN then False
     else if s \<ge> secp256k1_N then False
     else r < secp256k1_N \<and> (unat v = 27 \<or> unat v = 28))"

section \<open>Contracts\<close>

text \<open>
  The pointers \<open>caller\<close> and \<open>self\<close> of a contract are used for the address of the backing object
  (\<open>self_addr\<close>) and to return gas to the caller, which \<open>Finalise\<close> takes as an argument. The cache of
  jump destinations is shared by reference with the calling contract: it is handed on to the callee
  and taken back from it.
\<close>

record contract =
  CallerAddress :: address
  self_addr :: address
  jumpdests_cache :: destinations
  Code :: bytes
  Input :: bytes
  CodeAddr :: "address option"
  c_value :: int
  Gas :: int
  UsedGas :: int
  Price :: int
  DelegateCall :: bool

text \<open>A caller is an account of the state or a running contract.\<close>

datatype contract_ref = RefAccount address | RefContract contract

definition ref_Address :: "contract_ref \<Rightarrow> address" where
  "ref_Address r = (case r of RefAccount a \<Rightarrow> a | RefContract c \<Rightarrow> self_addr c)"

definition NewContract :: "contract_ref \<Rightarrow> address \<Rightarrow> int \<Rightarrow> int \<Rightarrow> int \<Rightarrow> contract" where
  "NewContract caller object v gas price =
    \<lparr>CallerAddress = ref_Address caller, self_addr = object,
     jumpdests_cache = (case caller of RefContract parent \<Rightarrow> jumpdests_cache parent | RefAccount _ \<Rightarrow> Map.empty),
     Code = [], Input = [], CodeAddr = None, c_value = v, Gas = gas, UsedGas = 0, Price = price,
     DelegateCall = False\<rparr>"

definition AsDelegate :: "contract_ref \<Rightarrow> contract \<Rightarrow> ('e, contract) result" where
  "AsDelegate caller c =
    (case caller of
       RefContract parent \<Rightarrow> Ok (c\<lparr>DelegateCall := True, CallerAddress := CallerAddress parent\<rparr>)
     | RefAccount _ \<Rightarrow> Panic TypeAssertion)"

definition GetByte :: "contract \<Rightarrow> nat \<Rightarrow> byte" where
  "GetByte c n = (if n < length (Code c) then Code c ! n else 0)"

definition GetOp :: "contract \<Rightarrow> nat \<Rightarrow> byte" where
  "GetOp c n = GetByte c n"

definition Caller :: "contract \<Rightarrow> address" where
  "Caller c = CallerAddress c"

text \<open>The amount is passed as a value different from the pointer \<open>c.Gas\<close>; \<open>UseAllGas\<close> is the call
  \<open>contract.UseGas(contract.Gas)\<close>, whose argument the subtraction has already set to zero when it is
  added to the used gas.\<close>

definition UseGas :: "contract \<Rightarrow> int \<Rightarrow> bool \<times> contract" where
  "UseGas c gas =
    (let (ok, g) = useGas (Gas c) gas
     in (ok, if ok then c\<lparr>Gas := g, UsedGas := UsedGas c + gas\<rparr> else c))"

definition UseAllGas :: "contract \<Rightarrow> contract" where
  "UseAllGas c = (let (ok, g) = useGas (Gas c) (Gas c) in c\<lparr>Gas := g, UsedGas := UsedGas c + g\<rparr>)"

definition ReturnGas :: "contract \<Rightarrow> int \<Rightarrow> contract" where
  "ReturnGas c gas = c\<lparr>Gas := Gas c + gas, UsedGas := UsedGas c - gas\<rparr>"

text \<open>Returning gas to an account of the state does nothing.\<close>

definition ref_ReturnGas :: "contract_ref \<Rightarrow> int \<Rightarrow> contract_ref" where
  "ref_ReturnGas r gas = (case r of RefAccount a \<Rightarrow> RefAccount a | RefContract c \<Rightarrow> RefContract (ReturnGas c gas))"

text \<open>\<open>Finalise\<close> gives the caller back, with the remaining gas and the shared cache.\<close>

definition Finalise :: "contract_ref \<Rightarrow> contract \<Rightarrow> contract_ref" where
  "Finalise caller c =
    (case ref_ReturnGas caller (Gas c) of
       RefAccount a \<Rightarrow> RefAccount a
     | RefContract parent \<Rightarrow> RefContract (parent\<lparr>jumpdests_cache := jumpdests_cache c\<rparr>))"

definition Contract_SetCode :: "contract \<Rightarrow> bytes \<Rightarrow> contract" where
  "Contract_SetCode c code = c\<lparr>Code := code\<rparr>"

definition SetCallCode :: "contract \<Rightarrow> address option \<Rightarrow> bytes \<Rightarrow> contract" where
  "SetCallCode c addr code = c\<lparr>Code := code, CodeAddr := addr\<rparr>"

section \<open>Logs\<close>

record log =
  log_Address :: address
  log_Topics :: "hash list"
  log_Data :: bytes
  log_Number :: nat
  log_TxHash :: hash
  log_TxIndex :: nat
  log_BlockHash :: hash
  log_Index :: nat

definition NewLog :: "address \<Rightarrow> hash list \<Rightarrow> bytes \<Rightarrow> nat \<Rightarrow> log" where
  "NewLog addr topics data number =
    \<lparr>log_Address = addr, log_Topics = topics, log_Data = data, log_Number = number,
     log_TxHash = 0, log_TxIndex = 0, log_BlockHash = 0, log_Index = 0\<rparr>"

section \<open>Precompiled contracts\<close>

definition sha256Func :: "crypto_fns \<Rightarrow> bytes \<Rightarrow> bytes" where
  "sha256Func cr inp = Sha256 cr inp"

definition ripemd160Func :: "crypto_fns \<Rightarrow> bytes \<Rightarrow> bytes" where
  "ripemd160Func cr inp = LeftPadBytes (Ripemd160 cr inp) 32"

text \<open>The input has at least 128 bytes after padding, so its slices are in range; the slices of the
  recovered key and of its hash are checked.\<close>

definition ecrecoverFunc :: "crypto_fns \<Rightarrow> bytes \<Rightarrow> ('e, bytes) result" where
  "ecrecoverFunc cr inp =
    (let inp = RightPadBytes inp 128;
         r = BytesToBig (take 32 (drop 64 inp));
         s = BytesToBig (take 32 (drop 96 inp));
         vbig = BytesToBig (take 32 (drop 32 inp));
         v = of_nat (big_Uint64 vbig)
     in if \<not> ValidateSignatureValues v r s False then Ok []
        else
          let vbignormal = vbig - 27;
              vnormal = of_nat (big_Uint64 vbignormal);
              rsv = take 64 (drop 64 inp) @ [vnormal]
          in case Ecrecover cr (take 32 inp) rsv of
               None \<Rightarrow> Ok []
             | Some pubKey \<Rightarrow>
                 bind_result (slice pubKey 1 (length pubKey)) (\<lambda>pk.
                 bind_result (slice (Sha3 cr pk) 12 (length (Sha3 cr pk))) (\<lambda>h. Ok (LeftPadBytes h 32))))"

definition memCpy :: "bytes \<Rightarrow> bytes" where
  "memCpy inp = inp"

text \<open>A precompiled account has a price, by the length of the input, and a function.\<close>

record precompiled =
  pc_Gas :: "nat \<Rightarrow> int"
  pc_fn :: "bytes \<Rightarrow> (vm_error, bytes) result"

definition Precompiled :: "crypto_fns \<Rightarrow> address \<Rightarrow> precompiled option" where
  "Precompiled cr addr =
    map_of
      [(1, \<lparr>pc_Gas = (\<lambda>l. EcrecoverGas), pc_fn = ecrecoverFunc cr\<rparr>),
       (2, \<lparr>pc_Gas = (\<lambda>l. int ((l + 31) div 32) * Sha256WordGas + Sha256Gas), pc_fn = (\<lambda>inp. Ok (sha256Func cr inp))\<rparr>),
       (3, \<lparr>pc_Gas = (\<lambda>l. int ((l + 31) div 32) * Ripemd160WordGas + Ripemd160Gas), pc_fn = (\<lambda>inp. Ok (ripemd160Func cr inp))\<rparr>),
       (4, \<lparr>pc_Gas = (\<lambda>l. int ((l + 31) div 32) * IdentityWordGas + IdentityGas), pc_fn = (\<lambda>inp. Ok (memCpy inp))\<rparr>)]
      addr"

text \<open>\<open>RunPrecompiled\<close> returns the outcome with the contract, whose gas it has used.\<close>

definition RunPrecompiled :: "precompiled \<Rightarrow> bytes \<Rightarrow> contract \<Rightarrow> (vm_error, bytes) result \<times> contract" where
  "RunPrecompiled p inp c =
    (let gas = pc_Gas p (length inp); (ok, c') = UseGas c gas
     in if ok then (pc_fn p inp, c') else (Err OutOfGasError, c'))"

section \<open>Lemmas\<close>

lemma UseGas_True_iff: "UseGas c g = (True, c') \<longleftrightarrow> g \<le> Gas c \<and> c' = c\<lparr>Gas := Gas c - g, UsedGas := UsedGas c + g\<rparr>"
  by (auto simp: UseGas_def useGas_def)

lemma UseGas_False_iff: "UseGas c g = (False, c') \<longleftrightarrow> Gas c < g \<and> c' = c"
  by (auto simp: UseGas_def useGas_def)

lemma UseAllGas_eq: "UseAllGas c = c\<lparr>Gas := 0, UsedGas := UsedGas c\<rparr>"
  by (simp add: UseAllGas_def useGas_def)

lemma Gas_ReturnGas [simp]: "Gas (ReturnGas c g) = Gas c + g"
  by (simp add: ReturnGas_def)

text \<open>C21. Gas accounting of a contract. Using gas succeeds exactly when there is enough, then moves the
  amount from the gas to the used gas, and otherwise changes nothing; returning gas moves it back. Using
  all gas through the contract's own pointer leaves no gas but does not count it as used.\<close>

theorem contract_gas_accounting:
  "(UseGas c g = (ok, c') \<longrightarrow> ok = (g \<le> Gas c) \<and> (\<not> ok \<longrightarrow> c' = c) \<and>
      Gas c' + UsedGas c' = Gas c + UsedGas c \<and> (ok \<longrightarrow> Gas c' = Gas c - g) \<and> (0 \<le> Gas c \<longrightarrow> 0 \<le> Gas c')) \<and>
   Gas (ReturnGas c g) + UsedGas (ReturnGas c g) = Gas c + UsedGas c \<and>
   Gas (UseAllGas c) = 0 \<and> UsedGas (UseAllGas c) = UsedGas c"
  by (auto simp: UseGas_def useGas_def ReturnGas_def UseAllGas_eq Let_def split: if_splits)

definition sample_contract :: contract where
  "sample_contract = NewContract (RefAccount 1) 2 0 100 1"

theorem contract_gas_accounting_witness:
  "Gas (snd (UseGas sample_contract 60)) = 40 \<and> UsedGas (snd (UseGas sample_contract 60)) = 60 \<and>
   fst (UseGas sample_contract 101) = False"
proof -
  have "UseGas sample_contract 60 = (True, sample_contract\<lparr>Gas := 40, UsedGas := 60\<rparr>)"
    by (simp add: UseGas_True_iff sample_contract_def NewContract_def)
  moreover have "UseGas sample_contract 101 = (False, sample_contract)"
    by (simp add: UseGas_False_iff sample_contract_def NewContract_def)
  ultimately show ?thesis
    using contract_gas_accounting [of sample_contract 60 True "sample_contract\<lparr>Gas := 40, UsedGas := 60\<rparr>"]
      contract_gas_accounting [of sample_contract 101 False sample_contract]
    by (simp add: sample_contract_def NewContract_def)
qed

lemma of_nat_Uint64_byte: "0 \<le> x \<Longrightarrow> (of_nat (big_Uint64 x) :: byte) = word_of_int x"
proof -
  assume "0 \<le> x"
  then have "(of_nat (big_Uint64 x) :: byte) = word_of_int (x mod 2 ^ 64)"
    by (simp add: big_Uint64_def of_nat_nat)
  also have "\<dots> = word_of_int x"
    by (rule word_of_int_eq_iff [THEN iffD2]) (simp add: take_bit_eq_mod mod_mod_cancel)
  finally show ?thesis .
qed

lemma word_of_int_high_byte: "(word_of_int (256 * k + z) :: byte) = word_of_int z"
  by (rule word_of_int_eq_iff [THEN iffD2]) (simp add: take_bit_eq_mod)

lemma ValidateSignatureValues_v: "ValidateSignatureValues v r s hs \<Longrightarrow> unat v = 27 \<or> unat v = 28"
  by (auto simp: ValidateSignatureValues_def split: if_splits)

text \<open>The slices of a well-formed input of \<open>ecrecover\<close>.\<close>

lemma ecrecover_slices:
  assumes "length h = 32" "length vb = 32" "length rs = 64"
  shows "RightPadBytes (h @ vb @ rs) 128 = h @ vb @ rs"
    "take 32 (h @ vb @ rs) = h" "take 32 (drop 32 (h @ vb @ rs)) = vb"
    "take 32 (drop 64 (h @ vb @ rs)) = take 32 rs" "take 32 (drop 96 (h @ vb @ rs)) = drop 32 rs"
    "take 64 (drop 64 (h @ vb @ rs)) = rs"
  using assms by (simp_all add: RightPadBytes_eq)

text \<open>C22. \<open>ecrecover\<close> looks only at the last byte of the 32 byte word \<open>v\<close>: whatever the 31 bytes
  before it are, the result is the one for zeros.\<close>

theorem ecrecover_ignores_high_v:
  assumes "length h = 32" "length hi = 31" "length rs = 64"
  shows "ecrecoverFunc cr (h @ (hi @ [v]) @ rs) = ecrecoverFunc cr (h @ (replicate 31 0 @ [v]) @ rs)"
proof -
  have len: "length (hi @ [v]) = 32" "length (replicate 31 0 @ [v]) = 32" using assms(2) by simp_all
  have big: "BytesToBig (hi @ [v]) = 256 * int (be_val hi) + int (unat v)"
    "BytesToBig (replicate 31 0 @ [v]) = int (unat v)" 
    using be_val_replicate_0 [of 31 "[]"] by (simp_all add: BytesToBig_def be_val_Cons)
  have v1: "(of_nat (big_Uint64 (256 * int (be_val hi) + int (unat v))) :: byte) = v"
    by (subst of_nat_Uint64_byte) (simp, subst word_of_int_high_byte, simp)
  have v2: "(of_nat (big_Uint64 (int (unat v))) :: byte) = v"
    by (simp add: of_nat_Uint64_byte)
  have n: "(of_nat (big_Uint64 (256 * int (be_val hi) + int (unat v) - 27)) :: byte) = of_nat (big_Uint64 (int (unat v) - 27))"
    if "unat v = 27 \<or> unat v = 28"
  proof -
    have "0 \<le> int (unat v) - 27" "0 \<le> 256 * int (be_val hi) + (int (unat v) - 27)" using that by linarith+
    then show ?thesis
      unfolding add_diff_eq [symmetric] of_nat_Uint64_byte [OF \<open>0 \<le> int (unat v) - 27\<close>]
      by (subst of_nat_Uint64_byte) (simp, rule word_of_int_high_byte)
  qed
  show ?thesis
    unfolding ecrecoverFunc_def Let_def ecrecover_slices [OF assms(1) len(1) assms(3)]
      ecrecover_slices [OF assms(1) len(2) assms(3)] big v1 v2
    using n ValidateSignatureValues_v by (cases "ValidateSignatureValues v (BytesToBig (take 32 rs)) (BytesToBig (drop 32 rs)) False") fastforce+
qed

definition sample_crypto :: crypto_fns where
  "sample_crypto = \<lparr>Sha3 = (\<lambda>bs. LeftPadBytes (be_bytes (be_val bs mod 2 ^ 256)) 32), Sha256 = (\<lambda>bs. replicate 32 0),
     Ripemd160 = (\<lambda>bs. replicate 20 0), Ecrecover = (\<lambda>h sig. Some (4 # sig))\<rparr>"

theorem ecrecover_ignores_high_v_witness:
  "ecrecoverFunc sample_crypto (replicate 32 7 @ (replicate 31 1 @ [27]) @ replicate 64 1) =
   ecrecoverFunc sample_crypto (replicate 32 7 @ (replicate 31 0 @ [27]) @ replicate 64 1)"
  by (rule ecrecover_ignores_high_v) simp_all

end
