(* ===== verification/Evm_Instructions.thy ===== *)
theory Evm_Instructions
  imports Evm_Contract "HOL-Library.Signed_Division"
begin

text \<open>
  The instructions of \<open>core/vm/instructions.go\<close> as functions on the machine state: program counter,
  memory, stack, contract and environment. What an instruction needs of the block and the message is
  fixed during a call and comes in a record. The package reaches the state of the accounts only through
  the interfaces \<open>Database\<close> and \<open>Environment\<close> of \<open>environment.go\<close>: they are the records \<open>database\<close> and
  \<open>env_fns\<close>, arguments of the instructions that call them, over a state of any type. An instruction has
  no error result; it can panic, and one that calls an interface may not return (\<open>None\<close>).
\<close>

unbundle bit_operations_syntax

section \<open>Machine state\<close>

record block_info =
  bi_Origin :: address
  bi_Number :: int
  bi_Coinbase :: address
  bi_Time :: int
  bi_Difficulty :: int
  bi_GasLimit :: int
  bi_GetHash :: "nat \<Rightarrow> hash"
  bi_crypto :: crypto_fns

record 's vmenv =
  ve_db :: 's
  ve_depth :: int

record 's machine =
  m_pc :: nat
  m_mem :: memory
  m_stack :: stack
  m_contract :: contract
  m_env :: "'s vmenv"

text \<open>The methods of \<open>Database\<close> the instructions and the gas calculation use, and \<open>AddLog\<close> of
  \<open>Environment\<close>. A method returns its answer and the state it leaves.\<close>

type_synonym ('s, 'a) db_method = "'s \<Rightarrow> (vm_error, 'a \<times> 's) result option"

record 's database =
  db_AddBalance :: "address \<Rightarrow> int \<Rightarrow> ('s, unit) db_method"
  db_GetBalance :: "address \<Rightarrow> ('s, int) db_method"
  db_GetCode :: "address \<Rightarrow> ('s, bytes) db_method"
  db_AddRefund :: "int \<Rightarrow> ('s, unit) db_method"
  db_GetState :: "address \<Rightarrow> hash \<Rightarrow> ('s, hash) db_method"
  db_SetState :: "address \<Rightarrow> hash \<Rightarrow> hash \<Rightarrow> ('s, unit) db_method"
  db_Delete :: "address \<Rightarrow> ('s, bool) db_method"
  db_Exist :: "address \<Rightarrow> ('s, bool) db_method"
  db_IsDeleted :: "address \<Rightarrow> ('s, bool) db_method"
  db_AddLog :: "log \<Rightarrow> ('s, unit) db_method"

text \<open>The answer of a call: its outcome, and the calling contract and the environment after it.\<close>

type_synonym 's call_answer = "((vm_error, bytes) result \<times> contract \<times> 's vmenv) option"
type_synonym 's create_answer = "((vm_error, bytes) result \<times> address \<times> contract \<times> 's vmenv) option"

record 's env_fns =
  ef_Call :: "'s vmenv \<Rightarrow> contract \<Rightarrow> address \<Rightarrow> bytes \<Rightarrow> int \<Rightarrow> int \<Rightarrow> int \<Rightarrow> 's call_answer"
  ef_CallCode :: "'s vmenv \<Rightarrow> contract \<Rightarrow> address \<Rightarrow> bytes \<Rightarrow> int \<Rightarrow> int \<Rightarrow> int \<Rightarrow> 's call_answer"
  ef_DelegateCall :: "'s vmenv \<Rightarrow> contract \<Rightarrow> address \<Rightarrow> bytes \<Rightarrow> int \<Rightarrow> int \<Rightarrow> 's call_answer"
  ef_Create :: "'s vmenv \<Rightarrow> contract \<Rightarrow> bytes \<Rightarrow> int \<Rightarrow> int \<Rightarrow> int \<Rightarrow> 's create_answer"

type_synonym 's instr = "'s machine \<Rightarrow> (vm_error, 's machine) result"
type_synonym 's call_instr = "'s machine \<Rightarrow> (vm_error, 's machine) result option"

definition pop1 :: "'s machine \<Rightarrow> (int \<Rightarrow> 's machine \<Rightarrow> (vm_error, 'a) result) \<Rightarrow> (vm_error, 'a) result" where
  "pop1 m f = bind_result (stack_pop (m_stack m)) (\<lambda>(x, st). f x (m\<lparr>m_stack := st\<rparr>))"

definition pop2 :: "'s machine \<Rightarrow> (int \<Rightarrow> int \<Rightarrow> 's machine \<Rightarrow> (vm_error, 'a) result) \<Rightarrow> (vm_error, 'a) result" where
  "pop2 m f = pop1 m (\<lambda>x m. pop1 m (\<lambda>y m. f x y m))"

definition pop3 :: "'s machine \<Rightarrow> (int \<Rightarrow> int \<Rightarrow> int \<Rightarrow> 's machine \<Rightarrow> (vm_error, 'a) result) \<Rightarrow> (vm_error, 'a) result" where
  "pop3 m f = pop2 m (\<lambda>x y m. pop1 m (\<lambda>z m. f x y z m))"

definition push :: "'s machine \<Rightarrow> int \<Rightarrow> 's machine" where
  "push m x = m\<lparr>m_stack := stack_push (m_stack m) x\<rparr>"

definition m_db :: "'s machine \<Rightarrow> 's" where
  "m_db m = ve_db (m_env m)"

definition set_db :: "'s machine \<Rightarrow> 's \<Rightarrow> 's machine" where
  "set_db m s = m\<lparr>m_env := (m_env m)\<lparr>ve_db := s\<rparr>\<rparr>"

text \<open>A method of the database, and what follows it. Popping cannot end without an answer, the rest may.\<close>

definition on_db :: "('s, 'a) db_method \<Rightarrow> ('a \<Rightarrow> 's call_instr) \<Rightarrow> 's call_instr" where
  "on_db f k m = fbind (f (m_db m)) (\<lambda>(x, s). k x (set_db m s))"

definition lift_panic :: "(vm_error, (vm_error, 's machine) result option) result \<Rightarrow> (vm_error, 's machine) result option" where
  "lift_panic r = fbind (Some r) (\<lambda>x. x)"

definition u64 :: "nat \<Rightarrow> nat" where
  "u64 n = n mod 2 ^ 64"

section \<open>Arithmetic and logic\<close>

definition opAdd :: "'s instr" where
  "opAdd m = pop2 m (\<lambda>x y m. Ok (push m (U256 (x + y))))"

definition opSub :: "'s instr" where
  "opSub m = pop2 m (\<lambda>x y m. Ok (push m (U256 (x - y))))"

definition opMul :: "'s instr" where
  "opMul m = pop2 m (\<lambda>x y m. Ok (push m (U256 (x * y))))"

definition opDiv :: "'s instr" where
  "opDiv m = pop2 m (\<lambda>x y m. if y \<noteq> 0 then Ok (push m (U256 (x div y))) else Ok (push m 0))"

definition opSdiv :: "'s instr" where
  "opSdiv m = pop2 m (\<lambda>x y m.
    let x = S256 x; y = S256 y
    in if y = 0 then Ok (push m 0)
       else let n = (if x * y < 0 then -1 else 1); res = \<bar>x\<bar> div \<bar>y\<bar> in Ok (push m (U256 (res * n))))"

definition opMod :: "'s instr" where
  "opMod m = pop2 m (\<lambda>x y m. if y = 0 then Ok (push m 0) else Ok (push m (U256 (x mod y))))"

definition opSmod :: "'s instr" where
  "opSmod m = pop2 m (\<lambda>x y m.
    let x = S256 x; y = S256 y
    in if y = 0 then Ok (push m 0)
       else let n = (if x < 0 then -1 else 1); res = \<bar>x\<bar> mod \<bar>y\<bar> in Ok (push m (U256 (res * n))))"

text \<open>\<open>big.Int.Exp\<close> with a positive modulus.\<close>

definition Pow256 :: int where "Pow256 = 2 ^ 256"

definition opExp :: "'s instr" where
  "opExp m = pop2 m (\<lambda>x y m. Ok (push m (U256 (x ^ nat y mod Pow256))))"

definition opSignExtend :: "'s instr" where
  "opSignExtend m = pop1 m (\<lambda>back m.
    if back < 31 then
      (let b = u64 (big_Uint64 back * 8 + 7)
       in pop1 m (\<lambda>num m.
            let mask = push_bit b 1 - 1;
                num = (if BitTest num b then num OR NOT mask else num AND mask)
            in Ok (push m (U256 num))))
    else Ok m)"

definition opNot :: "'s instr" where
  "opNot m = pop1 m (\<lambda>x m. Ok (push m (U256 (NOT x))))"

definition opLt :: "'s instr" where
  "opLt m = pop2 m (\<lambda>x y m. if x < y then Ok (push m 1) else Ok (push m 0))"

definition opGt :: "'s instr" where
  "opGt m = pop2 m (\<lambda>x y m. if x > y then Ok (push m 1) else Ok (push m 0))"

definition opSlt :: "'s instr" where
  "opSlt m = pop2 m (\<lambda>x y m. let x = S256 x; y = S256 y in if x < S256 y then Ok (push m 1) else Ok (push m 0))"

definition opSgt :: "'s instr" where
  "opSgt m = pop2 m (\<lambda>x y m. let x = S256 x; y = S256 y in if x > y then Ok (push m 1) else Ok (push m 0))"

definition opEq :: "'s instr" where
  "opEq m = pop2 m (\<lambda>x y m. if x = y then Ok (push m 1) else Ok (push m 0))"

definition opIszero :: "'s instr" where
  "opIszero m = pop1 m (\<lambda>x m. if x > 0 then Ok (push m 0) else Ok (push m 1))"

definition opAnd :: "'s instr" where
  "opAnd m = pop2 m (\<lambda>x y m. Ok (push m (x AND y)))"

definition opOr :: "'s instr" where
  "opOr m = pop2 m (\<lambda>x y m. Ok (push m (x OR y)))"

definition opXor :: "'s instr" where
  "opXor m = pop2 m (\<lambda>x y m. Ok (push m (x XOR y)))"

definition opByte :: "'s instr" where
  "opByte m = pop2 m (\<lambda>th val m.
    if th < 32 then
      bind_result (if big_Int64 th < 0 then Panic IndexOutOfRange else index (LeftPadBytes (big_Bytes val) 32) (nat (big_Int64 th)))
        (\<lambda>b. Ok (push m (uint b)))
    else Ok (push m 0))"

definition opAddmod :: "'s instr" where
  "opAddmod m = pop3 m (\<lambda>x y z m. if z > 0 then Ok (push m (U256 ((x + y) mod z))) else Ok (push m 0))"

definition opMulmod :: "'s instr" where
  "opMulmod m = pop3 m (\<lambda>x y z m. if z > 0 then Ok (push m (U256 ((x * y) mod z))) else Ok (push m 0))"

definition opSha3 :: "block_info \<Rightarrow> 's instr" where
  "opSha3 bi m = pop2 m (\<lambda>offset sz m.
    bind_result (mem_Get (m_mem m) (big_Int64 offset) (big_Int64 sz)) (\<lambda>data.
      Ok (push m (BytesToBig (Sha3 (bi_crypto bi) data)))))"

section \<open>Environment\<close>

definition opAddress :: "'s instr" where
  "opAddress m = Ok (push m (BytesToBig (Address_Bytes (self_addr (m_contract m)))))"

definition opBalance :: "'s database \<Rightarrow> 's call_instr" where
  "opBalance D m = lift_panic (pop1 m (\<lambda>a m.
    Ok (on_db (db_GetBalance D (BigToAddress a)) (\<lambda>b m. Some (Ok (push m b))) m)))"

definition opOrigin :: "block_info \<Rightarrow> 's instr" where
  "opOrigin bi m = Ok (push m (Address_Big (bi_Origin bi)))"

definition opCaller :: "'s instr" where
  "opCaller m = Ok (push m (Address_Big (Caller (m_contract m))))"

definition opCallValue :: "'s instr" where
  "opCallValue m = Ok (push m (c_value (m_contract m)))"

definition opCalldataLoad :: "'s instr" where
  "opCalldataLoad m = pop1 m (\<lambda>x m.
    bind_result (getData (Input (m_contract m)) x 32) (\<lambda>d. Ok (push m (BytesToBig d))))"

definition opCalldataSize :: "'s instr" where
  "opCalldataSize m = Ok (push m (int (length (Input (m_contract m)))))"

definition opCalldataCopy :: "'s instr" where
  "opCalldataCopy m = pop3 m (\<lambda>mOff cOff l m.
    bind_result (getData (Input (m_contract m)) cOff l) (\<lambda>d.
    bind_result (mem_Set (m_mem m) (big_Uint64 mOff) (big_Uint64 l) d) (\<lambda>mem. Ok (m\<lparr>m_mem := mem\<rparr>))))"

definition opExtCodeSize :: "'s database \<Rightarrow> 's call_instr" where
  "opExtCodeSize D m = lift_panic (pop1 m (\<lambda>a m.
    Ok (on_db (db_GetCode D (BigToAddress a)) (\<lambda>c m. Some (Ok (push m (int (length c))))) m)))"

definition opCodeSize :: "'s instr" where
  "opCodeSize m = Ok (push m (int (length (Code (m_contract m)))))"

definition opCodeCopy :: "'s instr" where
  "opCodeCopy m = pop3 m (\<lambda>mOff cOff l m.
    bind_result (getData (Code (m_contract m)) cOff l) (\<lambda>codeCopy.
    bind_result (mem_Set (m_mem m) (big_Uint64 mOff) (big_Uint64 l) codeCopy) (\<lambda>mem. Ok (m\<lparr>m_mem := mem\<rparr>))))"

definition opExtCodeCopy :: "'s database \<Rightarrow> 's call_instr" where
  "opExtCodeCopy D m = lift_panic (pop1 m (\<lambda>a m. pop3 m (\<lambda>mOff cOff l m.
    Ok (on_db (db_GetCode D (BigToAddress a)) (\<lambda>c m.
      Some (bind_result (getData c cOff l) (\<lambda>codeCopy.
        bind_result (mem_Set (m_mem m) (big_Uint64 mOff) (big_Uint64 l) codeCopy) (\<lambda>mem. Ok (m\<lparr>m_mem := mem\<rparr>))))) m))))"

definition opGasprice :: "'s instr" where
  "opGasprice m = Ok (push m (Price (m_contract m)))"

definition opBlockhash :: "block_info \<Rightarrow> 's instr" where
  "opBlockhash bi m = pop1 m (\<lambda>num m.
    let n = bi_Number bi - 257
    in if num > n \<and> num < bi_Number bi then Ok (push m (Hash_Big (bi_GetHash bi (big_Uint64 num))))
       else Ok (push m 0))"

definition opCoinbase :: "block_info \<Rightarrow> 's instr" where
  "opCoinbase bi m = Ok (push m (Address_Big (bi_Coinbase bi)))"

definition opTimestamp :: "block_info \<Rightarrow> 's instr" where
  "opTimestamp bi m = Ok (push m (U256 (bi_Time bi)))"

definition opNumber :: "block_info \<Rightarrow> 's instr" where
  "opNumber bi m = Ok (push m (U256 (bi_Number bi)))"

definition opDifficulty :: "block_info \<Rightarrow> 's instr" where
  "opDifficulty bi m = Ok (push m (U256 (bi_Difficulty bi)))"

definition opGasLimit :: "block_info \<Rightarrow> 's instr" where
  "opGasLimit bi m = Ok (push m (U256 (bi_GasLimit bi)))"

section \<open>Stack, memory and storage\<close>

definition opPop :: "'s instr" where
  "opPop m = pop1 m (\<lambda>_ m. Ok m)"

definition opMload :: "'s instr" where
  "opMload m = pop1 m (\<lambda>offset m.
    bind_result (mem_Get (m_mem m) (big_Int64 offset) 32) (\<lambda>d. Ok (push m (BytesToBig d))))"

definition opMstore :: "'s instr" where
  "opMstore m = pop2 m (\<lambda>mStart val m.
    bind_result (mem_Set (m_mem m) (big_Uint64 mStart) 32 (BigToBytes val 256)) (\<lambda>mem. Ok (m\<lparr>m_mem := mem\<rparr>)))"

definition opMstore8 :: "'s instr" where
  "opMstore8 m = pop2 m (\<lambda>off val m.
    let off = big_Int64 off; val = big_Int64 val
    in if 0 \<le> off \<and> off < int (length (m_mem m))
       then Ok (m\<lparr>m_mem := (m_mem m)[nat off := word_of_int (val AND 0xff)]\<rparr>)
       else Panic IndexOutOfRange)"

definition opSload :: "'s database \<Rightarrow> 's call_instr" where
  "opSload D m = lift_panic (pop1 m (\<lambda>loc m.
    Ok (on_db (db_GetState D (self_addr (m_contract m)) (BigToHash loc)) (\<lambda>v m. Some (Ok (push m (Hash_Big v)))) m)))"

definition opSstore :: "'s database \<Rightarrow> 's call_instr" where
  "opSstore D m = lift_panic (pop2 m (\<lambda>loc val m.
    Ok (on_db (db_SetState D (self_addr (m_contract m)) (BigToHash loc) (BigToHash val)) (\<lambda>_ m. Some (Ok m)) m)))"

definition opJumpdest :: "'s instr" where
  "opJumpdest m = Ok m"

definition opPc :: "nat \<Rightarrow> 's instr" where
  "opPc pc m = Ok (push m (int pc))"

definition opMsize :: "'s instr" where
  "opMsize m = Ok (push m (int (length (m_mem m))))"

definition opGas :: "'s instr" where
  "opGas m = Ok (push m (Gas (m_contract m)))"

text \<open>The topics are popped one by one.\<close>

fun pop_topics :: "nat \<Rightarrow> 's machine \<Rightarrow> (hash list \<Rightarrow> 's machine \<Rightarrow> (vm_error, 'a) result) \<Rightarrow> (vm_error, 'a) result" where
  "pop_topics 0 m f = f [] m"
| "pop_topics (Suc n) m f = pop1 m (\<lambda>t m. pop_topics n m (\<lambda>ts m. f (BigToHash t # ts) m))"

definition makeLog :: "block_info \<Rightarrow> 's database \<Rightarrow> nat \<Rightarrow> 's call_instr" where
  "makeLog bi D n m = lift_panic (pop2 m (\<lambda>mStart mSize m. pop_topics n m (\<lambda>topics m.
    bind_result (mem_Get (m_mem m) (big_Int64 mStart) (big_Int64 mSize)) (\<lambda>d.
      Ok (on_db (db_AddLog D (NewLog (self_addr (m_contract m)) topics d (big_Uint64 (bi_Number bi)))) (\<lambda>_ m. Some (Ok m)) m)))))"

definition makePush :: "nat \<Rightarrow> 's instr" where
  "makePush n m =
    bind_result (getData (Code (m_contract m)) (int (u64 (m_pc m + 1))) (int n)) (\<lambda>byts.
      Ok ((push m (BytesToBig byts))\<lparr>m_pc := u64 (m_pc m + n)\<rparr>))"

definition makeDup :: "nat \<Rightarrow> 's instr" where
  "makeDup n m = bind_result (stack_dup (m_stack m) n) (\<lambda>st. Ok (m\<lparr>m_stack := st\<rparr>))"

definition makeSwap :: "nat \<Rightarrow> 's instr" where
  "makeSwap n m = bind_result (stack_swap (m_stack m) (n + 1)) (\<lambda>st. Ok (m\<lparr>m_stack := st\<rparr>))"

definition opSuicide :: "'s database \<Rightarrow> 's call_instr" where
  "opSuicide D m =
    on_db (db_GetBalance D (self_addr (m_contract m))) (\<lambda>b m. lift_panic (pop1 m (\<lambda>a m.
      Ok (on_db (db_AddBalance D (BigToAddress a) b) (\<lambda>_ m.
        on_db (db_Delete D (self_addr (m_contract m))) (\<lambda>_ m. Some (Ok m)) m) m)))) m"

section \<open>Calls\<close>

text \<open>What \<open>opCall\<close>, \<open>opCallCode\<close> and \<open>opDelegateCall\<close> do with the answer.\<close>

definition after_call :: "'s machine \<Rightarrow> int \<Rightarrow> int \<Rightarrow> 's call_answer \<Rightarrow> (vm_error, 's machine) result option" where
  "after_call m retOffset retSize ans =
    (case ans of
       None \<Rightarrow> None
     | Some (r, c, e) \<Rightarrow>
         let m = m\<lparr>m_contract := c, m_env := e\<rparr>
         in case r of
              Err _ \<Rightarrow> Some (Ok (push m 0))
            | Panic p \<Rightarrow> Some (Panic p)
            | Ok ret \<Rightarrow>
                Some (bind_result (mem_Set (m_mem m) (big_Uint64 retOffset) (big_Uint64 retSize) ret)
                  (\<lambda>mem. Ok ((push m 1)\<lparr>m_mem := mem\<rparr>))))"

definition opCall :: "'s env_fns \<Rightarrow> 's call_instr" where
  "opCall ef m = lift_panic (pop3 m (\<lambda>gas addr val m. pop2 m (\<lambda>inOffset inSize m. pop2 m (\<lambda>retOffset retSize m.
    let val = U256 val; adr = BigToAddress addr
    in bind_result (mem_Get (m_mem m) (big_Int64 inOffset) (big_Int64 inSize)) (\<lambda>args.
         let gas = (if length (big_Bytes val) > 0 then gas + CallStipend else gas)
         in Ok (after_call m retOffset retSize
              (ef_Call ef (m_env m) (m_contract m) adr args gas (Price (m_contract m)) val)))))))"

definition opCallCode :: "'s env_fns \<Rightarrow> 's call_instr" where
  "opCallCode ef m = lift_panic (pop3 m (\<lambda>gas addr val m. pop2 m (\<lambda>inOffset inSize m. pop2 m (\<lambda>retOffset retSize m.
    let val = U256 val; adr = BigToAddress addr
    in bind_result (mem_Get (m_mem m) (big_Int64 inOffset) (big_Int64 inSize)) (\<lambda>args.
         let gas = (if length (big_Bytes val) > 0 then gas + CallStipend else gas)
         in Ok (after_call m retOffset retSize
              (ef_CallCode ef (m_env m) (m_contract m) adr args gas (Price (m_contract m)) val)))))))"

definition opDelegateCall :: "'s env_fns \<Rightarrow> 's call_instr" where
  "opDelegateCall ef m = lift_panic (pop2 m (\<lambda>gas to m. pop2 m (\<lambda>inOffset inSize m. pop2 m (\<lambda>outOffset outSize m.
    let toAddr = BigToAddress to
    in bind_result (mem_Get (m_mem m) (big_Int64 inOffset) (big_Int64 inSize)) (\<lambda>args.
         Ok (after_call m outOffset outSize
           (ef_DelegateCall ef (m_env m) (m_contract m) toAddr args gas (Price (m_contract m)))))))))"

definition opCreate :: "block_info \<Rightarrow> 's env_fns \<Rightarrow> 's call_instr" where
  "opCreate bi ef m = lift_panic (pop3 m (\<lambda>val offset sz m.
    bind_result (mem_Get (m_mem m) (big_Int64 offset) (big_Int64 sz)) (\<lambda>input.
      let gas = Gas (m_contract m);
          m = m\<lparr>m_contract := UseAllGas (m_contract m)\<rparr>
      in Ok (case ef_Create ef (m_env m) (m_contract m) input gas (Price (m_contract m)) val of
           None \<Rightarrow> None
         | Some (r, adr, c, e) \<Rightarrow>
             let m = m\<lparr>m_contract := c, m_env := e\<rparr>
             in case r of
                  Panic p \<Rightarrow> Some (Panic p)
                | Ok _ \<Rightarrow> Some (Ok (push m (Address_Big adr)))
                | Err suberr \<Rightarrow>
                    if IsHomestead (Some (bi_Number bi)) \<and> suberr = CodeStoreOutOfGasError then Some (Ok (push m 0))
                    else if suberr \<noteq> CodeStoreOutOfGasError then Some (Ok (push m 0))
                    else Some (Ok (push m (Address_Big adr)))))))"

section \<open>Popping and pushing\<close>

named_theorems machine_simps

lemma pop1_Cons [machine_simps]: "m_stack m = x # st \<Longrightarrow> pop1 m f = f x (m\<lparr>m_stack := st\<rparr>)"
  by (simp add: pop1_def stack_pop_def)

lemma pop2_Cons [machine_simps]: "m_stack m = x # y # st \<Longrightarrow> pop2 m f = f x y (m\<lparr>m_stack := st\<rparr>)"
  by (simp add: pop2_def pop1_Cons)

lemma pop3_Cons [machine_simps]: "m_stack m = x # y # z # st \<Longrightarrow> pop3 m f = f x y z (m\<lparr>m_stack := st\<rparr>)"
  by (simp add: pop3_def pop2_Cons pop1_Cons)

lemma push_stack [machine_simps]: "push m x = m\<lparr>m_stack := x # m_stack m\<rparr>"
  by (simp add: push_def stack_push_def)

section \<open>Arithmetic agrees with 256-bit words\<close>

lemma U256_word: "U256 k = uint (word_of_int k :: hash)"
  by (rule U256_uint)

lemma U256_uint_id: "U256 (uint (w :: hash)) = uint w"
  by (simp add: U256_uint)

lemma word_exp: "(word_of_int (uint x ^ n mod Pow256) :: hash) = x ^ n"
proof -
  have "(word_of_int (uint x ^ n mod 2 ^ 256) :: hash) = word_of_int (uint x ^ n)"
    by (rule word_of_int_eq_iff [THEN iffD2]) (simp add: take_bit_eq_mod)
  then show ?thesis by (simp add: Pow256_def)
qed

lemma uint_word_op:
  "x AND y = uint (word_of_int x AND word_of_int y :: hash)" if "0 \<le> x" "x < 2 ^ 256" "0 \<le> y" "y < 2 ^ 256" for x y
  using that by (simp add: uint_and uint_word_of_int)

lemma S256_word: "S256 (uint w) = sint (w :: hash)" by (rule S256_sint)

lemma S256_sint_id: "S256 (sint (w :: hash)) = sint w"
  using sint_lt [of w] by (simp add: S256_def tt255_eq)

lemma Sdiv_sgn: "y \<noteq> 0 \<Longrightarrow> (\<bar>x\<bar> div \<bar>y\<bar>) * (if x * y < 0 then -1 else 1) = x sdiv (y :: int)"
  by (auto simp: signed_divide_int_def mult_less_0_iff sgn_if split: if_splits)

lemma Smod_sgn: "(\<bar>x\<bar> mod \<bar>y\<bar>) * (if x < 0 then -1 else 1) = x smod (y :: int)"
  by (auto simp: signed_modulo_int_def sgn_if split: if_splits)

lemma sign_extend_pow:
  "(if bit num b then num OR NOT (2 ^ b - 1) else num AND (2 ^ b - 1)) = signed_take_bit b (num :: int)"
proof -
  have m: "2 ^ b - 1 = (mask b :: int)" by (simp add: mask_eq_exp_minus_1)
  show ?thesis
    unfolding m by (rule bit_eqI) (auto simp: bit_signed_take_bit_iff bit_or_iff bit_and_iff bit_not_iff bit_mask_iff min_def)
qed

lemma signed_take_bit_word_of_int: "(word_of_int (signed_take_bit b (uint w)) :: hash) = signed_take_bit b w"
  by (rule bit_word_eqI) (auto simp: bit_signed_take_bit_iff bit_word_of_int_iff bit_uint_iff min_def dest: bit_imp_le_length)

lemma be_val_nth: "k < length bs \<Longrightarrow> unat (bs ! k) = be_val bs div 256 ^ (length bs - 1 - k) mod 256"
proof -
  assume k: "k < length bs"
  let ?n = "length bs - 1 - k"
  have split: "bs = (take k bs @ [bs ! k]) @ drop (Suc k) bs"
    using id_take_nth_drop [OF k] by simp
  have "be_val bs = (256 * be_val (take k bs) + unat (bs ! k)) * 256 ^ ?n + be_val (drop (Suc k) bs)"
    using k by (subst split, subst be_val_append) (simp add: Suc_diff_Suc)
  moreover have "be_val (drop (Suc k) bs) < 256 ^ ?n"
    using be_val_less [of "drop (Suc k) bs"] k by (simp add: Suc_diff_Suc)
  ultimately have "be_val bs div 256 ^ ?n = 256 * be_val (take k bs) + unat (bs ! k)"
    by (simp add: div_mult_self3 div_eq_0_iff)
  then show ?thesis using unat_byte_less [of "bs ! k"] by simp
qed

lemma byte_of_word:
  "k < 32 \<Longrightarrow> uint (LeftPadBytes (big_Bytes (uint (w :: hash))) 32 ! k) = uint w div 256 ^ (31 - k) mod 256"
proof -
  assume k: "k < 32"
  let ?bs = "LeftPadBytes (big_Bytes (uint w)) 32"
  have "length (big_Bytes (uint w)) \<le> 32"
    using uint_lt2p [of w] by (intro length_big_Bytes_le) simp_all
  then have l: "length ?bs = 32" by simp
  have "unat (?bs ! k) = unat w div 256 ^ (31 - k) mod 256"
    using be_val_nth [of k ?bs] k l by simp
  then have "int (unat (?bs ! k)) = int (unat w div 256 ^ (31 - k) mod 256)" by (rule arg_cong)
  then show ?thesis by (simp add: zdiv_int zmod_int)
qed

lemma uint_bool: "uint (if P then 1 else 0 :: hash) = (if P then 1 else 0)"
  by simp

lemma alu_arith:
  assumes "m_stack m = uint (x :: hash) # uint y # st"
  shows "opAdd m = Ok (m\<lparr>m_stack := uint (x + y) # st\<rparr>)"
    "opSub m = Ok (m\<lparr>m_stack := uint (x - y) # st\<rparr>)"
    "opMul m = Ok (m\<lparr>m_stack := uint (x * y) # st\<rparr>)"
    "opDiv m = Ok (m\<lparr>m_stack := uint (x div y) # st\<rparr>)"
    "opMod m = Ok (m\<lparr>m_stack := (if y = 0 then 0 else uint (x mod y)) # st\<rparr>)"
    "opExp m = Ok (m\<lparr>m_stack := uint (x ^ unat y) # st\<rparr>)"
    "opSdiv m = Ok (m\<lparr>m_stack := uint (word_of_int (sint x sdiv sint y) :: hash) # st\<rparr>)"
    "opSmod m = Ok (m\<lparr>m_stack := (if y = 0 then 0 else uint (word_of_int (sint x smod sint y) :: hash)) # st\<rparr>)"
proof -
  note d = machine_simps assms
  show "opAdd m = Ok (m\<lparr>m_stack := uint (x + y) # st\<rparr>)" by (simp add: opAdd_def d U256_word)
  show "opSub m = Ok (m\<lparr>m_stack := uint (x - y) # st\<rparr>)" by (simp add: opSub_def d U256_word)
  show "opMul m = Ok (m\<lparr>m_stack := uint (x * y) # st\<rparr>)" by (simp add: opMul_def d U256_word)
  show "opDiv m = Ok (m\<lparr>m_stack := uint (x div y) # st\<rparr>)"
    by (simp add: opDiv_def d uint_0_iff U256_uint_id flip: uint_div)
  show "opMod m = Ok (m\<lparr>m_stack := (if y = 0 then 0 else uint (x mod y)) # st\<rparr>)"
    by (simp add: opMod_def d uint_0_iff U256_uint_id flip: uint_mod)
  show "opExp m = Ok (m\<lparr>m_stack := uint (x ^ unat y) # st\<rparr>)"
    using word_exp [of x "unat y"] by (simp add: opExp_def d U256_word)
  have z: "sint y = 0 \<longleftrightarrow> y = 0" by (simp add: signed_eq_0_iff)
  show "opSdiv m = Ok (m\<lparr>m_stack := uint (word_of_int (sint x sdiv sint y) :: hash) # st\<rparr>)"
    using Sdiv_sgn [of "sint y" "sint x", symmetric] by (simp add: opSdiv_def d S256_word U256_word Let_def z)
  show "opSmod m = Ok (m\<lparr>m_stack := (if y = 0 then 0 else uint (word_of_int (sint x smod sint y) :: hash)) # st\<rparr>)"
    using Smod_sgn [of "sint x" "sint y", symmetric] by (simp add: opSmod_def d S256_word U256_word Let_def z)
qed

lemma alu_logic:
  assumes "m_stack m = uint (x :: hash) # uint y # st"
  shows "opLt m = Ok (m\<lparr>m_stack := (if x < y then 1 else 0) # st\<rparr>)"
    "opGt m = Ok (m\<lparr>m_stack := (if y < x then 1 else 0) # st\<rparr>)"
    "opSlt m = Ok (m\<lparr>m_stack := (if sint x < sint y then 1 else 0) # st\<rparr>)"
    "opSgt m = Ok (m\<lparr>m_stack := (if sint y < sint x then 1 else 0) # st\<rparr>)"
    "opEq m = Ok (m\<lparr>m_stack := (if x = y then 1 else 0) # st\<rparr>)"
    "opAnd m = Ok (m\<lparr>m_stack := uint (x AND y) # st\<rparr>)"
    "opOr m = Ok (m\<lparr>m_stack := uint (x OR y) # st\<rparr>)"
    "opXor m = Ok (m\<lparr>m_stack := uint (x XOR y) # st\<rparr>)"
    "opByte m = Ok (m\<lparr>m_stack := (if x < 32 then uint y div 256 ^ (31 - unat x) mod 256 else 0) # st\<rparr>)"
    "opSignExtend m = Ok (m\<lparr>m_stack := uint (if x < 31 then signed_take_bit (8 * unat x + 7) y else y) # st\<rparr>)"
proof -
  note d = machine_simps assms
  show "opLt m = Ok (m\<lparr>m_stack := (if x < y then 1 else 0) # st\<rparr>)" by (simp add: opLt_def d word_less_def)
  show "opGt m = Ok (m\<lparr>m_stack := (if y < x then 1 else 0) # st\<rparr>)" by (simp add: opGt_def d word_less_def)
  show "opSlt m = Ok (m\<lparr>m_stack := (if sint x < sint y then 1 else 0) # st\<rparr>)"
    by (simp add: opSlt_def d S256_word S256_sint_id Let_def)
  show "opSgt m = Ok (m\<lparr>m_stack := (if sint y < sint x then 1 else 0) # st\<rparr>)"
    by (simp add: opSgt_def d S256_word Let_def)
  show "opEq m = Ok (m\<lparr>m_stack := (if x = y then 1 else 0) # st\<rparr>)" by (simp add: opEq_def d word_uint_eq_iff)
  show "opAnd m = Ok (m\<lparr>m_stack := uint (x AND y) # st\<rparr>)" by (simp add: opAnd_def d uint_and)
  show "opOr m = Ok (m\<lparr>m_stack := uint (x OR y) # st\<rparr>)" by (simp add: opOr_def d uint_or)
  show "opXor m = Ok (m\<lparr>m_stack := uint (x XOR y) # st\<rparr>)" by (simp add: opXor_def d uint_xor)
  show "opByte m = Ok (m\<lparr>m_stack := (if x < 32 then uint y div 256 ^ (31 - unat x) mod 256 else 0) # st\<rparr>)"
  proof (cases "x < 32")
    case True
    have u: "unat x < 32" "uint x < 32"
      using True by (simp add: word_less_nat_alt) (use True in \<open>simp add: word_less_def\<close>)
    have "signed_take_bit 63 (uint x) = uint x"
    proof (rule signed_take_bit_int_eq_self)
      show "- (2 ^ 63) \<le> uint x" by (rule order_trans [OF _ uint_ge_0]) simp
      show "uint x < 2 ^ 63" using u(2) by simp
    qed
    then have s: "big_Int64 (uint x) = uint x" by (simp add: big_Int64_def)
    have "length (LeftPadBytes (big_Bytes (uint y)) 32) = 32"
      using uint_lt2p [of y] length_big_Bytes_le [of "uint y"] by simp
    with s u byte_of_word [OF u(1), of y] True show ?thesis by (simp add: opByte_def d)
  next
    case False
    then have "\<not> uint x < 32" by (simp add: word_less_def)
    with False show ?thesis by (simp add: opByte_def d)
  qed
  show "opSignExtend m = Ok (m\<lparr>m_stack := uint (if x < 31 then signed_take_bit (8 * unat x + 7) y else y) # st\<rparr>)"
  proof (cases "x < 31")
    case True
    then have u: "uint x < 31" by (simp add: word_less_def)
    then have "big_Uint64 (uint x) = unat x" by (simp add: big_Uint64_def)
    moreover have "u64 (unat x * 8 + 7) = unat x * 8 + 7" using True by (simp add: u64_def word_less_nat_alt)
    ultimately show ?thesis using u True
      by (simp add: opSignExtend_def d BitTest_def Let_def U256_word sign_extend_pow signed_take_bit_word_of_int mult.commute)
  next
    case False
    then have "\<not> uint x < 31" by (simp add: word_less_def)
    with False show ?thesis by (simp add: opSignExtend_def d)
  qed
qed

lemma alu_unary:
  assumes "m_stack m = uint (x :: hash) # st"
  shows "opNot m = Ok (m\<lparr>m_stack := uint (NOT x) # st\<rparr>)"
    "opIszero m = Ok (m\<lparr>m_stack := (if x = 0 then 1 else 0) # st\<rparr>)"
proof -
  note d = machine_simps assms
  have "(word_of_int (NOT (uint x)) :: hash) = NOT x"
    by (rule bit_word_eqI) (simp add: bit_word_of_int_iff bit_not_iff bit_uint_iff)
  then show "opNot m = Ok (m\<lparr>m_stack := uint (NOT x) # st\<rparr>)" by (simp add: opNot_def d U256_word)
  have "uint x > 0 \<longleftrightarrow> x \<noteq> 0" using uint_0_iff [of x] uint_ge_0 [of x] by linarith
  then show "opIszero m = Ok (m\<lparr>m_stack := (if x = 0 then 1 else 0) # st\<rparr>)" by (simp add: opIszero_def d)
qed

lemma alu_ternary:
  assumes "m_stack m = uint (x :: hash) # uint (y :: hash) # uint (z :: hash) # st"
  shows "opAddmod m = Ok (m\<lparr>m_stack := (if z = 0 then 0 else (uint x + uint y) mod uint z) # st\<rparr>)"
    "opMulmod m = Ok (m\<lparr>m_stack := (if z = 0 then 0 else (uint x * uint y) mod uint z) # st\<rparr>)"
proof -
  note d = machine_simps assms
  have z: "uint z > 0 \<longleftrightarrow> z \<noteq> 0" using uint_0_iff [of z] uint_ge_0 [of z] by linarith
  have u: "U256 (k mod uint z) = k mod uint z" if "uint z > 0" for k
  proof (rule U256_id)
    show "0 \<le> k mod uint z" using that by simp
    have "k mod uint z < uint z" using that by simp
    then show "k mod uint z < 2 ^ 256" using uint_lt2p [of z] by simp
  qed
  show "opAddmod m = Ok (m\<lparr>m_stack := (if z = 0 then 0 else (uint x + uint y) mod uint z) # st\<rparr>)"
    using z u by (simp add: opAddmod_def d)
  show "opMulmod m = Ok (m\<lparr>m_stack := (if z = 0 then 0 else (uint x * uint y) mod uint z) # st\<rparr>)"
    using z u by (simp add: opMulmod_def d)
qed

text \<open>C23. The arithmetic and logic instructions compute what the operations on 256-bit words
  compute, with the results the protocol prescribes for zero divisors: the signed ones on the two's
  complement values, \<open>ADDMOD\<close> and \<open>MULMOD\<close> without intermediate overflow, \<open>SIGNEXTEND\<close> and \<open>BYTE\<close> as a
  sign extension and a byte selection.\<close>

theorem alu_matches_words:
  assumes "m_stack m = uint (x :: hash) # uint (y :: hash) # uint (z :: hash) # st"
  shows "opAdd m = Ok (m\<lparr>m_stack := uint (x + y) # uint z # st\<rparr>) \<and>
    opSub m = Ok (m\<lparr>m_stack := uint (x - y) # uint z # st\<rparr>) \<and>
    opMul m = Ok (m\<lparr>m_stack := uint (x * y) # uint z # st\<rparr>) \<and>
    opDiv m = Ok (m\<lparr>m_stack := uint (x div y) # uint z # st\<rparr>) \<and>
    opMod m = Ok (m\<lparr>m_stack := (if y = 0 then 0 else uint (x mod y)) # uint z # st\<rparr>) \<and>
    opExp m = Ok (m\<lparr>m_stack := uint (x ^ unat y) # uint z # st\<rparr>) \<and>
    opSdiv m = Ok (m\<lparr>m_stack := uint (word_of_int (sint x sdiv sint y) :: hash) # uint z # st\<rparr>) \<and>
    opSmod m = Ok (m\<lparr>m_stack := (if y = 0 then 0 else uint (word_of_int (sint x smod sint y) :: hash)) # uint z # st\<rparr>) \<and>
    opSlt m = Ok (m\<lparr>m_stack := (if sint x < sint y then 1 else 0) # uint z # st\<rparr>) \<and>
    opSgt m = Ok (m\<lparr>m_stack := (if sint y < sint x then 1 else 0) # uint z # st\<rparr>) \<and>
    opAnd m = Ok (m\<lparr>m_stack := uint (x AND y) # uint z # st\<rparr>) \<and>
    opXor m = Ok (m\<lparr>m_stack := uint (x XOR y) # uint z # st\<rparr>) \<and>
    opNot m = Ok (m\<lparr>m_stack := uint (NOT x) # uint y # uint z # st\<rparr>) \<and>
    opByte m = Ok (m\<lparr>m_stack := (if x < 32 then uint y div 256 ^ (31 - unat x) mod 256 else 0) # uint z # st\<rparr>) \<and>
    opSignExtend m = Ok (m\<lparr>m_stack := uint (if x < 31 then signed_take_bit (8 * unat x + 7) y else y) # uint z # st\<rparr>) \<and>
    opAddmod m = Ok (m\<lparr>m_stack := (if z = 0 then 0 else (uint x + uint y) mod uint z) # st\<rparr>) \<and>
    opMulmod m = Ok (m\<lparr>m_stack := (if z = 0 then 0 else (uint x * uint y) mod uint z) # st\<rparr>)"
  using alu_arith [OF assms] alu_logic [OF assms] alu_unary [OF assms] alu_ternary [OF assms] by simp

definition sample_machine :: "stack \<Rightarrow> unit machine" where
  "sample_machine st = \<lparr>m_pc = 0, m_mem = [], m_stack = st, m_contract = sample_contract, m_env = \<lparr>ve_db = (), ve_depth = 0\<rparr>\<rparr>"

theorem alu_matches_words_witness:
  "opSdiv (sample_machine [2 ^ 256 - 7, 2, 5]) = Ok (sample_machine [2 ^ 256 - 3, 5]) \<and>
   opAddmod (sample_machine [2 ^ 256 - 7, 2, 5]) = Ok (sample_machine [(2 ^ 256 - 5) mod 5])"
proof -
  let ?m = "sample_machine [2 ^ 256 - 7, 2, 5]"
  have u: "uint (- 7 :: hash) = 2 ^ 256 - 7" "uint (2 :: hash) = 2" "uint (5 :: hash) = 5" by simp_all
  have st: "m_stack ?m = uint (- 7 :: hash) # uint (2 :: hash) # uint (5 :: hash) # []"
    unfolding u by (simp add: sample_machine_def)
  have q: "uint (word_of_int (sint (- 7 :: hash) sdiv sint (2 :: hash)) :: hash) = 2 ^ 256 - 3"
    by (simp add: signed_divide_int_def)
  have up: "?m\<lparr>m_stack := xs\<rparr> = sample_machine xs" for xs by (simp add: sample_machine_def)
  have "opSdiv ?m = Ok (sample_machine [2 ^ 256 - 3, 5])"
    using alu_matches_words [OF st] unfolding q up u by blast
  moreover have "opAddmod ?m = Ok (sample_machine [if (5 :: hash) = 0 then 0 else (2 ^ 256 - 7 + 2) mod 5])"
    using alu_matches_words [OF st] unfolding up u by blast
  ultimately show ?thesis by simp
qed

end
