(* ===== verification/Spec2Isabelle.thy ===== *)
theory Spec2Isabelle
  imports Rlp_Decode Trie_Map Evm_Instructions
begin

text \<open>
  A verification development for go-expanse, the Go implementation of the Expanse protocol.

  \<^descr> \<open>Prelude\<close>: bytes, Go results with errors and panics, slices, big-endian integers.
  \<^descr> \<open>Rlp_Encode\<close>: \<open>rlp/encode.go\<close>.
  \<^descr> \<open>Rlp_Raw\<close>: \<open>rlp/raw.go\<close>.
\<close>

end
